(* ===== verification/Prelude.thy ===== *)
theory Prelude
  imports Main "HOL-Library.Word" "HOL-Library.Char_ord" "HOL-Library.List_Lexorder"
begin

text \<open>
  Shared vocabulary of the development: the machine types of the C++ sources, the
  collections of rewrite rules the component theories extend, and the generic facts on
  32-bit words, lists and associative containers that several components use.
\<close>

unbundle bit_operations_syntax

section \<open>Machine types\<close>

type_synonym u8 = "8 word"
type_synonym u16 = "16 word"
type_synonym u32 = "32 word"
type_synonym u64 = "64 word"

named_theorems word_facts \<open>unsigned readings of 32-bit words\<close>
named_theorems container_facts \<open>lookups after updates of the container models\<close>

text \<open>
  Shifts by an \<open>int\<close> count. Outside \<open>0..31\<close> a C++ shift of a 32-bit operand is undefined;
  the model takes the masked count of the x86-64 instruction, and every property that
  depends on a shift has the count in range as a hypothesis or as a proved fact.
\<close>

definition shl_one :: "int \<Rightarrow> u32" where
  "shl_one n = push_bit (nat (n mod 32)) 1"

definition shr_u32 :: "u32 \<Rightarrow> int \<Rightarrow> u32" where
  "shr_u32 x n = drop_bit (nat (n mod 32)) x"

lemma shl_one_exp: "0 \<le> n \<Longrightarrow> n < 32 \<Longrightarrow> shl_one n = 2 ^ nat n"
  by (simp add: shl_one_def push_bit_eq_mult)

lemma shr_u32_drop_bit: "0 \<le> n \<Longrightarrow> n < 32 \<Longrightarrow> shr_u32 x n = drop_bit (nat n) x"
  by (simp add: shr_u32_def)

section \<open>Aligned address blocks\<close>

text \<open>
  \<open>addr_block a k\<close> is the set of the \<open>2 ^ k\<close> addresses that agree with \<open>a\<close> above bit \<open>k\<close>;
  \<open>aligned k a\<close> says that \<open>a\<close> is the first address of its block.
\<close>

definition aligned :: "nat \<Rightarrow> u32 \<Rightarrow> bool" where
  "aligned k a \<longleftrightarrow> take_bit k a = 0"

definition addr_block :: "u32 \<Rightarrow> nat \<Rightarrow> u32 set" where
  "addr_block a k = {x. drop_bit k x = drop_bit k a}"

lemma unat_lt_32 [word_facts]: "unat (a::u32) < 4294967296"
  using unsigned_less [where ?'a = nat and w = a] by simp

lemma unat_mask32:
  assumes "k \<le> 32"
  shows "unat (mask k :: u32) = mask k"
proof -
  have "unat (mask k :: u32) = unat (of_nat (mask k) :: u32)"
    by (simp add: of_nat_mask_eq)
  also have "\<dots> = take_bit 32 (mask k)"
    by (simp add: unsigned_of_nat)
  also have "\<dots> = mask k" using assms by (simp add: take_bit_of_mask min_def)
  finally show ?thesis .
qed

lemma aligned_iff_unat: "aligned k a \<longleftrightarrow> 2 ^ k dvd unat a"
proof -
  have "unat (take_bit k a) = take_bit k (unat a)"
    by (simp add: unsigned_take_bit_eq)
  then have "take_bit k a = 0 \<longleftrightarrow> take_bit k (unat a) = 0"
    by (metis unsigned_0 unsigned_eq_0_iff)
  then show ?thesis by (simp add: aligned_def take_bit_eq_0_iff)
qed

lemma aligned_mono: "aligned k a \<Longrightarrow> j \<le> k \<Longrightarrow> aligned j a"
  by (simp add: aligned_iff_unat) (metis dvd_trans le_imp_power_dvd)

lemma aligned_0 [simp]: "aligned k 0" and aligned_zero_bits [simp]: "aligned 0 a"
  by (simp_all add: aligned_def)

lemma unat_or_mask_aligned:
  assumes "aligned k a" "k \<le> 32"
  shows "unat (a OR mask k) = unat a + (2 ^ k - 1)"
proof -
  have "unat a AND mask k = 0"
    using assms(1) by (simp add: aligned_iff_unat flip: take_bit_eq_mask take_bit_eq_0_iff)
  then have "unat a OR mask k = unat a + mask k"
    by (simp add: disjunctive_add_eq_or)
  then show ?thesis
    by (simp add: unsigned_or_eq unat_mask32 [OF assms(2)]) (simp add: mask_eq_exp_minus_1)
qed

lemma unat_exp32:
  assumes "j < 32"
  shows "unat (2 ^ j :: u32) = 2 ^ j"
proof -
  have "unat (2 ^ j :: u32) = unat (of_nat (2 ^ j) :: u32)" by simp
  also have "\<dots> = take_bit 32 (2 ^ j)" by (simp only: unsigned_of_nat) simp
  also have "\<dots> = 2 ^ j" using assms by simp
  finally show ?thesis .
qed

lemma unat_or_exp_aligned:
  assumes "aligned (Suc j) a" "j < 32"
  shows "unat (a OR 2 ^ j) = unat a + 2 ^ j"
proof -
  have "take_bit (Suc j) (unat a) = 0"
    using assms(1) by (simp add: aligned_iff_unat take_bit_eq_0_iff del: take_bit_Suc)
  then have "\<not> bit (unat a) j"
    by (metis bit_take_bit_iff lessI bit_0_eq bot_apply bot_bool_def)
  then have "unat a AND 2 ^ j = 0"
    by (intro bit_eqI) (auto simp: bit_simps)
  then have "unat a OR 2 ^ j = unat a + 2 ^ j"
    by (simp add: disjunctive_add_eq_or)
  then show ?thesis using assms(2) by (simp add: unsigned_or_eq unat_exp32)
qed

lemma addr_block_unat:
  assumes "aligned k a"
  shows "x \<in> addr_block a k \<longleftrightarrow> unat a \<le> unat x \<and> unat x < unat a + 2 ^ k"
proof -
  obtain q where q: "unat a = 2 ^ k * q" using assms by (auto simp: aligned_iff_unat)
  have "x \<in> addr_block a k \<longleftrightarrow> unat (drop_bit k x) = unat (drop_bit k a)"
    by (simp add: addr_block_def word_unat_eq_iff)
  also have "\<dots> \<longleftrightarrow> unat x div 2 ^ k = q"
    by (simp only: unat_drop_bit_eq) (simp add: drop_bit_eq_div q)
  also have "\<dots> \<longleftrightarrow> 2 ^ k * q \<le> unat x \<and> unat x < 2 ^ k * q + 2 ^ k"
  proof
    assume "unat x div 2 ^ k = q"
    then have "unat x = 2 ^ k * q + unat x mod 2 ^ k"
      using mult_div_mod_eq [of "2 ^ k" "unat x"] by simp
    moreover have "unat x mod 2 ^ k < 2 ^ k" by simp
    ultimately show "2 ^ k * q \<le> unat x \<and> unat x < 2 ^ k * q + 2 ^ k" by linarith
  next
    assume "2 ^ k * q \<le> unat x \<and> unat x < 2 ^ k * q + 2 ^ k"
    then show "unat x div 2 ^ k = q" by (intro div_nat_eqI) (auto simp: mult.commute)
  qed
  finally show ?thesis by (simp add: q)
qed

lemma xor_zero_iff: "a XOR b = 0 \<longleftrightarrow> a = b"
  for a b :: "'a::semiring_bit_operations"
  by (auto simp: bit_eq_iff bit_simps)

lemma xor_one_nat:
  assumes "(p::nat) XOR q = 1" "p < q"
  shows "even p" "q = Suc p"
proof -
  have r: "p XOR q = of_bool (odd p \<noteq> odd q) + 2 * ((p div 2) XOR (q div 2))"
    by (rule xor_nat_rec)
  with assms(1) have "odd p \<noteq> odd q" "(p div 2) XOR (q div 2) = 0"
    by (auto split: if_splits simp: of_bool_def)
  then have "odd p \<noteq> odd q" "p div 2 = q div 2" by (simp_all add: xor_zero_iff)
  with assms(2) show "even p" "q = Suc p" by presburger+
qed

end
