(* ===== verification/Strings.thy ===== *)
theory Strings
  imports Prelude
begin

text \<open>
  Outcomes of C++ code as values, and the parts of \<open>std::string\<close> the sources use: \<open>find\<close> of a
  character (\<open>-1\<close> after the conversion of \<open>npos\<close> to \<open>int\<close>), \<open>substr\<close>, the character
  classes of the C locale, \<open>std::stoi\<close> and \<open>std::to_string\<close>.
\<close>

section \<open>Outcomes\<close>

text \<open>
  \<open>Undefined\<close> stands for a path the language gives no meaning to (a null pointer or a freed
  element read, a value-returning function that falls off its end).
\<close>

datatype exn =
    Out_of_range
  | Invalid_argument
  | Length_error
  | Bad_any_cast
  | Bad_optional_access
  | Aborted
  | Undefined

type_synonym 'a outcome = "exn + 'a"

definition bindE :: "'a outcome \<Rightarrow> ('a \<Rightarrow> 'b outcome) \<Rightarrow> 'b outcome" where
  "bindE r f = (case r of Inl e \<Rightarrow> Inl e | Inr x \<Rightarrow> f x)"

lemma bindE_simps [simp]: "bindE (Inl e) f = Inl e" "bindE (Inr x) f = f x"
  by (simp_all add: bindE_def)

lemma bindE_Inr_iff: "bindE r f = Inr y \<longleftrightarrow> (\<exists>x. r = Inr x \<and> f x = Inr y)"
  by (cases r) auto

lemma bindE_assoc: "bindE (bindE r f) g = bindE r (\<lambda>x. bindE (f x) g)"
  by (cases r) simp_all

text \<open>A loop whose body may leave by an exception.\<close>

fun foldE :: "('a \<Rightarrow> 's \<Rightarrow> 's outcome) \<Rightarrow> 'a list \<Rightarrow> 's \<Rightarrow> 's outcome" where
  "foldE f [] s = Inr s"
| "foldE f (x # xs) s = bindE (f x s) (foldE f xs)"

lemma foldE_append: "foldE f (xs @ ys) s = bindE (foldE f xs s) (foldE f ys)"
proof (induction xs arbitrary: s)
  case (Cons x xs)
  then have "foldE f (xs @ ys) = (\<lambda>s. bindE (foldE f xs s) (foldE f ys))" by (intro ext)
  then show ?case by (simp add: bindE_assoc)
qed simp

lemma bindE_foldE_Nil [simp]: "bindE r (foldE f []) = r"
  by (cases r) simp_all

lemma foldE_Inr: "foldE (\<lambda>x s. Inr (f x s)) xs s = Inr (fold f xs s)"
  by (induction xs arbitrary: s) simp_all

lemma foldE_invar:
  assumes "foldE f xs s = Inr s'" "I s"
    and "\<And>x s s'. x \<in> set xs \<Longrightarrow> I s \<Longrightarrow> f x s = Inr s' \<Longrightarrow> I s'"
  shows "I s'"
  using assms
proof (induction xs arbitrary: s)
  case (Cons x xs)
  from Cons.prems(1) obtain t where t: "f x s = Inr t" "foldE f xs t = Inr s'"
    by (auto simp: bindE_Inr_iff)
  have "I t" using Cons.prems(3) [OF _ Cons.prems(2) t(1)] by simp
  then show ?case by (rule Cons.IH [OF t(2)]) (use Cons.prems(3) in auto)
qed simp

lemma foldE_frame:
  assumes "foldE f xs s = Inr s'" "\<And>x s s'. f x s = Inr s' \<Longrightarrow> g s' = g s"
  shows "g s' = g s"
  by (rule foldE_invar [OF assms(1), of "\<lambda>t. g t = g s"]) (simp_all add: assms(2))

lemma foldE_progress:
  assumes "I s" "\<And>x s. x \<in> set xs \<Longrightarrow> I s \<Longrightarrow> \<exists>s'. f x s = Inr s' \<and> I s'"
  shows "\<exists>s'. foldE f xs s = Inr s' \<and> I s'"
  using assms
proof (induction xs arbitrary: s)
  case (Cons x xs)
  obtain t where t: "f x s = Inr t" "I t" using Cons.prems(2) [of x s] Cons.prems(1) by auto
  have "\<exists>s'. foldE f xs t = Inr s' \<and> I s'" by (rule Cons.IH [OF t(2)]) (use Cons.prems(2) in auto)
  then show ?case using t(1) by simp
qed simp

section \<open>Characters and substrings\<close>

definition isdigit :: "char \<Rightarrow> bool" where
  "isdigit c \<longleftrightarrow> 48 \<le> (of_char c :: nat) \<and> (of_char c :: nat) \<le> 57"

definition isalnum :: "char \<Rightarrow> bool" where
  "isalnum c \<longleftrightarrow> isdigit c \<or> (65 \<le> (of_char c :: nat) \<and> (of_char c :: nat) \<le> 90) \<or>
     (97 \<le> (of_char c :: nat) \<and> (of_char c :: nat) \<le> 122)"

definition isspace :: "char \<Rightarrow> bool" where
  "isspace c \<longleftrightarrow> (of_char c :: nat) = 32 \<or> (9 \<le> (of_char c :: nat) \<and> (of_char c :: nat) \<le> 13)"

fun str_find :: "char \<Rightarrow> string \<Rightarrow> int" where
  "str_find c [] = - 1"
| "str_find c (a # s) = (if a = c then 0 else let r = str_find c s in if r = - 1 then - 1 else r + 1)"

lemma str_find_ge: "- 1 \<le> str_find c s"
  by (induction s) (auto simp: Let_def)

lemma str_find_notin: "c \<notin> set s \<Longrightarrow> str_find c s = - 1"
  by (induction s) auto

lemma str_find_append: "c \<notin> set s \<Longrightarrow> str_find c (s @ c # t) = int (length s)"
  by (induction s) (auto simp: Let_def)

lemma str_find_minus_one: "str_find c s = - 1 \<longleftrightarrow> c \<notin> set s"
proof (induction s)
  case (Cons a s)
  then show ?case using str_find_ge [of c s] by (auto simp: Let_def)
qed simp

definition substr :: "string \<Rightarrow> int \<Rightarrow> string" where
  "substr s p = drop (nat p) s"

definition substr_len :: "string \<Rightarrow> int \<Rightarrow> int \<Rightarrow> string" where
  "substr_len s p n = take (nat n) (drop (nat p) s)"

section \<open>Numbers as text\<close>

definition digit :: "nat \<Rightarrow> char" where
  "digit d = char_of (48 + d)"

definition digit_val :: "char \<Rightarrow> int" where
  "digit_val c = int (of_char c) - 48"

fun nat_string :: "nat \<Rightarrow> string" where
  "nat_string n = (if n < 10 then [digit n] else nat_string (n div 10) @ [digit (n mod 10)])"

declare nat_string.simps [simp del]

definition to_string :: "int \<Rightarrow> string" where
  "to_string i = (if i < 0 then CHR ''-'' # nat_string (nat (- i)) else nat_string (nat i))"

definition digits_val :: "string \<Rightarrow> int" where
  "digits_val s = foldl (\<lambda>a c. 10 * a + digit_val c) 0 s"

text \<open>\<open>std::stoi\<close> in base 10: leading blanks, a sign, then digits up to the first other character.\<close>

definition signed_digits :: "string \<Rightarrow> (bool \<times> string) option" where
  "signed_digits s =
     (let t = dropWhile isspace s;
          neg = (t \<noteq> [] \<and> hd t = CHR ''-'');
          u = (if t \<noteq> [] \<and> (hd t = CHR ''-'' \<or> hd t = CHR ''+'') then tl t else t);
          ds = takeWhile isdigit u
      in if ds = [] then None else Some (neg, ds))"

definition stoi :: "string \<Rightarrow> int outcome" where
  "stoi s = (case signed_digits s of
       None \<Rightarrow> Inl Invalid_argument
     | Some (neg, ds) \<Rightarrow>
         let v = (if neg then - digits_val ds else digits_val ds) in
         if v < - 2147483648 \<or> 2147483647 < v then Inl Out_of_range else Inr v)"

lemma isdigit_digit [simp]: "d < 10 \<Longrightarrow> isdigit (digit d)"
  by (simp add: isdigit_def digit_def)

lemma digit_val_digit [simp]: "d < 10 \<Longrightarrow> digit_val (digit d) = int d"
  by (simp add: digit_val_def digit_def)

lemma digit_inj: "d < 10 \<Longrightarrow> e < 10 \<Longrightarrow> digit d = digit e \<Longrightarrow> d = e"
  by (metis digit_val_digit of_nat_eq_iff)

lemma nat_string_isdigit: "c \<in> set (nat_string n) \<Longrightarrow> isdigit c"
proof (induction n rule: nat_string.induct)
  case (1 n)
  show ?case
  proof (cases "n < 10")
    case True
    then show ?thesis using "1.prems" by (simp add: nat_string.simps [of n])
  next
    case False
    then have "c \<in> set (nat_string (n div 10)) \<or> c = digit (n mod 10)"
      using "1.prems" by (auto simp: nat_string.simps [of n])
    then show ?thesis using "1.IH" [OF False] by auto
  qed
qed

lemma nat_string_neq [simp]: "nat_string n \<noteq> []"
  by (subst nat_string.simps) simp

lemma digits_val_snoc: "digits_val (s @ [c]) = 10 * digits_val s + digit_val c"
  by (simp add: digits_val_def)

lemma digits_val_nat_string: "digits_val (nat_string n) = int n"
proof (induction n rule: nat_string.induct)
  case (1 n)
  show ?case
  proof (cases "n < 10")
    case True
    then show ?thesis by (simp add: nat_string.simps [of n] digits_val_def)
  next
    case False
    then have "digits_val (nat_string n) = 10 * int (n div 10) + int (n mod 10)"
      using 1 [OF False] by (simp add: nat_string.simps [of n] digits_val_snoc)
    then show ?thesis by presburger
  qed
qed

lemma nat_string_inj: "nat_string a = nat_string b \<Longrightarrow> a = b"
  by (metis digits_val_nat_string of_nat_eq_iff)

lemma to_string_inj: "0 \<le> a \<Longrightarrow> 0 \<le> b \<Longrightarrow> to_string a = to_string b \<Longrightarrow> a = b"
  by (auto simp: to_string_def dest: nat_string_inj)

lemma isdigit_not_space_sign: "isdigit c \<Longrightarrow> \<not> isspace c \<and> c \<noteq> CHR ''-'' \<and> c \<noteq> CHR ''+''"
  by (auto simp: isdigit_def isspace_def)

lemma signed_digits_plain:
  assumes "ds \<noteq> []" "\<forall>c\<in>set ds. isdigit c" "rest = [] \<or> \<not> isdigit (hd rest)"
  shows "signed_digits (ds @ rest) = Some (False, ds)"
proof -
  obtain c cs where ds: "ds = c # cs" using assms(1) by (cases ds) auto
  have c: "isdigit c" using assms(2) ds by simp
  have "takeWhile isdigit (ds @ rest) = ds"
    using assms(2,3) by (cases rest) (auto simp: takeWhile_append takeWhile_eq_all_conv)
  then show ?thesis
    using isdigit_not_space_sign [OF c] ds by (simp add: signed_digits_def Let_def)
qed

lemma stoi_to_string:
  assumes "0 \<le> i" "i \<le> 2147483647"
  shows "stoi (to_string i) = Inr i"
proof -
  have "signed_digits (to_string i) = Some (False, nat_string (nat i))"
    using signed_digits_plain [of "nat_string (nat i)" "[]"] assms(1)
    by (simp add: to_string_def nat_string_isdigit)
  then show ?thesis using assms by (simp add: stoi_def digits_val_nat_string)
qed

end
