(* ===== verification/Datum.thy ===== *)
theory Datum
  imports Strings
begin

text \<open>
  Timestamps (\<open>dni/framework/timestamp.h\<close>) and data (\<open>datum.h\<close>, \<open>datum.cc\<close>). The type
  variable of \<open>datum\<close> stands for what a \<open>std::any\<close> can hold; \<open>any_cast\<close> to a type \<open>T\<close> is
  a function that returns \<open>None\<close> where the cast throws. \<open>repr_\<close>, a printing function, is not
  part of the model. The move constructor and assignment copy \<open>d_val\<close>, so a moved-from datum
  keeps its value.
\<close>

section \<open>Timestamps\<close>

text \<open>\<open>std::time_t\<close> is a signed 64-bit integer; \<open>ts_wrap\<close> reduces the result of an addition.\<close>

definition kCtimeMin :: int where
  "kCtimeMin = - 9223372036854775808"

definition kCtimeMax :: int where
  "kCtimeMax = 9223372036854775807"

definition TimestampUninitialized :: "int \<Rightarrow> bool" where
  "TimestampUninitialized ts \<longleftrightarrow> ts = kCtimeMin"

definition TimestampBegin :: int where
  "TimestampBegin = kCtimeMin + 1"

definition TimestampEnd :: int where
  "TimestampEnd = kCtimeMax - 1"

definition TimestampDone :: "int \<Rightarrow> bool" where
  "TimestampDone ts \<longleftrightarrow> ts = kCtimeMax"

definition ts_wrap :: "int \<Rightarrow> int" where
  "ts_wrap t = (t + 9223372036854775808) mod 18446744073709551616 - 9223372036854775808"

lemmas ts_defs = kCtimeMin_def kCtimeMax_def TimestampBegin_def TimestampEnd_def TimestampDone_def

lemma ts_wrap_id: "kCtimeMin \<le> t \<Longrightarrow> t \<le> kCtimeMax \<Longrightarrow> ts_wrap t = t"
  by (simp add: ts_wrap_def ts_defs)

lemma ts_wrap_max: "ts_wrap (kCtimeMax + 1) = kCtimeMin"
  by (simp add: ts_wrap_def ts_defs)

section \<open>Data\<close>

record 'v datum =
  d_val :: "'v option"
  d_ts :: int

text \<open>\<open>Datum()\<close> is value-initialised: no value and timestamp 0.\<close>

definition Datum0 :: "'v datum" where
  "Datum0 = \<lparr>d_val = None, d_ts = 0\<rparr>"

definition Datum_ts :: "'v \<Rightarrow> int \<Rightarrow> 'v datum" where
  "Datum_ts v ts = \<lparr>d_val = Some v, d_ts = ts\<rparr>"

text \<open>The constructor without a timestamp leaves \<open>d_ts\<close> indeterminate: \<open>junk\<close> is what it holds.\<close>

definition Datum_val :: "int \<Rightarrow> 'v \<Rightarrow> 'v datum" where
  "Datum_val junk v = \<lparr>d_val = Some v, d_ts = junk\<rparr>"

definition At :: "int \<Rightarrow> 'v datum \<Rightarrow> 'v datum" where
  "At ts d = d\<lparr>d_ts := ts\<rparr>"

definition IsEmpty :: "'v datum \<Rightarrow> bool" where
  "IsEmpty d \<longleftrightarrow> d_val d = None"

definition Datum_Reset :: "'v datum \<Rightarrow> 'v datum" where
  "Datum_Reset d = d\<lparr>d_val := None\<rparr>"

definition Timestamp :: "'v datum \<Rightarrow> int" where
  "Timestamp d = d_ts d"

definition Consume :: "('v \<Rightarrow> 't option) \<Rightarrow> 'v datum \<Rightarrow> 't option \<times> 'v datum" where
  "Consume any_cast d = (case d_val d of
       None \<Rightarrow> (None, d)
     | Some v \<Rightarrow> (any_cast v, Datum_Reset d))"

lemma datum_simps [simp]:
  "d_val (At ts d) = d_val d" "d_ts (At ts d) = ts" "At ts (At ts' d) = At ts d"
  "IsEmpty (At ts d) = IsEmpty d" "IsEmpty Datum0" "IsEmpty (Datum_Reset d)"
  "Timestamp (At ts d) = ts" "Timestamp (Datum_ts v t) = t" "\<not> IsEmpty (Datum_ts v t)"
  "\<not> IsEmpty (Datum_val j v)" "Timestamp (Datum_val j v) = j" "d_val (Datum_ts v t) = Some v"
  "d_val (Datum_val j v) = Some v"
  by (simp_all add: At_def IsEmpty_def Datum0_def Datum_Reset_def Timestamp_def Datum_ts_def Datum_val_def)

text \<open>A datum gives its value to the first consumer only, also when the type does not match.\<close>

lemma Consume_once: "Consume c (snd (Consume c' d)) = (None, snd (Consume c' d))"
  by (cases "d_val d") (simp_all add: Consume_def Datum_Reset_def)

lemma Consume_value: "Consume c (Datum_ts v ts) = (c v, \<lparr>d_val = None, d_ts = ts\<rparr>)"
  by (simp add: Consume_def Datum_ts_def Datum_Reset_def)

end
