(* ===== verification/Streams.thy ===== *)
theory Streams
  imports Datum
begin

text \<open>
  The queues between nodes: \<open>InputStreamImpl\<close> (\<open>input_stream.h\<close>, \<open>input_stream.cc\<close>), the
  batch a task reads; \<open>InputStreamManager\<close> (\<open>input_stream_manager.h\<close>, \<open>.cc\<close>), the queue a
  node receives on; \<open>OutputStreamImpl\<close> (\<open>output_stream.h\<close>, \<open>.cc\<close>), what a task writes.
  Each manager operation runs under the manager's mutex, so an operation is one step. The
  locale \<open>accepting_queue\<close> is the contract of a queue that takes batches and may refuse
  elements, \<open>fifo_queue\<close> adds reading; both are interpreted on the operations below.
\<close>

section \<open>The queue contract\<close>

locale accepting_queue =
  fixes contents :: "'q \<Rightarrow> 'd list"
    and put :: "'d list \<Rightarrow> 'q \<Rightarrow> 'q"
    and good :: "'d \<Rightarrow> bool"
    and invar :: "'q \<Rightarrow> bool"
  assumes contents_put: "invar q \<Longrightarrow> contents (put ds q) = contents q @ filter good ds"
    and invar_put: "invar q \<Longrightarrow> invar (put ds q)"
begin

lemma invar_puts: "invar q \<Longrightarrow> invar (fold put dss q)"
  by (induction dss arbitrary: q) (simp_all add: invar_put)

text \<open>Batches arrive in order: nothing accepted is lost, duplicated or overtaken.\<close>

lemma contents_puts: "invar q \<Longrightarrow> contents (fold put dss q) = contents q @ filter good (concat dss)"
  by (induction dss arbitrary: q) (simp_all add: contents_put invar_put)

end

locale fifo_queue = accepting_queue contents put good invar
  for contents :: "'q \<Rightarrow> 'd list" and put :: "'d list \<Rightarrow> 'q \<Rightarrow> 'q" and good :: "'d \<Rightarrow> bool"
    and invar :: "'q \<Rightarrow> bool" +
  fixes get :: "'q \<Rightarrow> 'q"
    and head :: "'q \<Rightarrow> 'd"
  assumes contents_get: "invar q \<Longrightarrow> contents (get q) = tl (contents q)"
    and head_contents: "invar q \<Longrightarrow> contents q \<noteq> [] \<Longrightarrow> head q = hd (contents q)"
    and invar_get: "invar q \<Longrightarrow> invar (get q)"
begin

lemma contents_gets: "invar q \<Longrightarrow> contents ((get ^^ n) q) = drop n (contents q) \<and> invar ((get ^^ n) q)"
  by (induction n) (auto simp: contents_get invar_get drop_Suc tl_drop)

text \<open>The \<open>n\<close>-th element read is the \<open>n\<close>-th element accepted.\<close>

lemma reads_in_order:
  assumes "invar q" "contents q = []" "n < length (filter good (concat dss))"
  shows "head ((get ^^ n) (fold put dss q)) = filter good (concat dss) ! n"
proof -
  let ?q = "fold put dss q"
  have c: "contents ?q = filter good (concat dss)" using assms(1,2) by (simp add: contents_puts)
  have i: "invar ?q" using assms(1) by (rule invar_puts)
  have "contents ((get ^^ n) ?q) = drop n (filter good (concat dss))"
    "invar ((get ^^ n) ?q)" using contents_gets [OF i, of n] c by simp_all
  then show ?thesis using assms(3) by (simp add: head_contents hd_drop_conv_nth)
qed

end

section \<open>Input streams\<close>

record 'v input_stream =
  is_name :: string
  is_queue :: "'v datum list"
  is_done :: bool

definition InputStream0 :: "'v input_stream" where
  "InputStream0 = \<lparr>is_name = [], is_queue = [], is_done = False\<rparr>"

definition is_Value :: "'v input_stream \<Rightarrow> 'v datum" where
  "is_Value s = (if is_queue s \<noteq> [] then hd (is_queue s) else Datum0)"

definition is_Pop :: "'v input_stream \<Rightarrow> 'v input_stream" where
  "is_Pop s = (if is_queue s \<noteq> [] then s\<lparr>is_queue := tl (is_queue s)\<rparr> else s)"

definition is_Done :: "'v input_stream \<Rightarrow> bool" where
  "is_Done s = is_done s"

definition is_Clear :: "'v input_stream \<Rightarrow> 'v input_stream" where
  "is_Clear s = s\<lparr>is_queue := []\<rparr>"

definition is_QueueLength :: "'v input_stream \<Rightarrow> nat" where
  "is_QueueLength s = length (is_queue s)"

definition is_SetName :: "string \<Rightarrow> 'v input_stream \<Rightarrow> 'v input_stream" where
  "is_SetName n s = s\<lparr>is_name := n\<rparr>"

definition is_AddDatum :: "'v datum \<Rightarrow> bool \<Rightarrow> 'v input_stream \<Rightarrow> 'v input_stream" where
  "is_AddDatum d done_flag s =
     (if is_done s \<and> \<not> IsEmpty d then s
      else s\<lparr>is_queue := is_queue s @ [d], is_done := done_flag\<rparr>)"

section \<open>Input stream managers\<close>

record 'v ism =
  ism_name :: string
  ism_queue :: "'v datum list"
  ism_bound :: int
  ism_closed :: bool

text \<open>Managers are created by \<open>make_unique\<close>, which value-initialises them.\<close>

definition ISM0 :: "'v ism" where
  "ISM0 = \<lparr>ism_name = [], ism_queue = [], ism_bound = 0, ism_closed = False\<rparr>"

definition ism_Initialize :: "string \<Rightarrow> 'v ism \<Rightarrow> 'v ism" where
  "ism_Initialize n m = m\<lparr>ism_name := n\<rparr>"

definition ism_PrepareForRun :: "'v ism \<Rightarrow> 'v ism" where
  "ism_PrepareForRun m = m\<lparr>ism_queue := [], ism_bound := TimestampBegin\<rparr>"

definition ism_push :: "'v datum \<Rightarrow> 'v ism \<Rightarrow> 'v ism" where
  "ism_push d m = m\<lparr>ism_bound := ts_wrap (Timestamp d + 1), ism_queue := ism_queue m @ [d]\<rparr>"

definition ism_AddData :: "'v datum list \<Rightarrow> 'v ism \<Rightarrow> 'v ism" where
  "ism_AddData data m = fold ism_push data m"

text \<open>\<open>MoveData\<close> also returns the source list: its elements are moved from, which leaves them
  as they were.\<close>

definition ism_MoveData :: "'v datum list \<Rightarrow> 'v ism \<Rightarrow> 'v datum list \<times> 'v ism" where
  "ism_MoveData data m = (data, fold ism_push data m)"

definition ism_Close :: "'v ism \<Rightarrow> 'v ism" where
  "ism_Close m = (if ism_closed m then m else m\<lparr>ism_bound := kCtimeMax, ism_closed := True\<rparr>)"

definition ism_IsDone :: "'v ism \<Rightarrow> bool" where
  "ism_IsDone m \<longleftrightarrow> ism_queue m = [] \<and> TimestampDone (ism_bound m)"

definition ism_Pop :: "bool \<Rightarrow> 'v ism \<Rightarrow> 'v datum \<times> bool \<times> 'v ism" where
  "ism_Pop done_flag m =
     (if ism_queue m = [] then (Datum0, done_flag, m)
      else let m' = m\<lparr>ism_queue := tl (ism_queue m)\<rparr> in (hd (ism_queue m), ism_IsDone m', m'))"

text \<open>The loop of \<open>PopAt\<close>: elements up to the timestamp, the last of them, and their number.\<close>

fun pop_upto :: "int \<Rightarrow> 'v datum list \<Rightarrow> 'v datum \<Rightarrow> int \<Rightarrow> int \<Rightarrow> 'v datum \<times> int \<times> int \<times> 'v datum list" where
  "pop_upto ts [] ret cur n = (ret, cur, n, [])"
| "pop_upto ts (d # ds) ret cur n =
     (if Timestamp d \<le> ts then pop_upto ts ds d (Timestamp d) (n + 1) else (ret, cur, n, d # ds))"

definition ism_PopAt :: "int \<Rightarrow> int \<Rightarrow> 'v ism \<Rightarrow> 'v datum \<times> int \<times> bool \<times> 'v ism" where
  "ism_PopAt ts num_dropped m =
     (let m1 = (if ism_bound m \<le> ts then m\<lparr>ism_bound := ts_wrap (ts + 1)\<rparr> else m) in
      case pop_upto ts (ism_queue m1) Datum0 kCtimeMin num_dropped of
        (ret, cur, n, q) \<Rightarrow>
          let m2 = m1\<lparr>ism_queue := q\<rparr> in
          if cur \<noteq> ts then
            let bound = (if q = [] then ism_bound m2 else Timestamp (hd q)) in
            (At (ts_wrap (bound - 1)) Datum0, n + 1, ism_IsDone m2, m2)
          else (ret, n, ism_IsDone m2, m2))"

definition ism_IsEmpty :: "'v ism \<Rightarrow> bool" where
  "ism_IsEmpty m \<longleftrightarrow> ism_queue m = []"

definition ism_Clear :: "'v ism \<Rightarrow> 'v ism" where
  "ism_Clear m = m\<lparr>ism_queue := []\<rparr>"

definition ism_Size :: "'v ism \<Rightarrow> int" where
  "ism_Size m = int (length (ism_queue m))"

definition ism_Head :: "'v ism \<Rightarrow> 'v datum" where
  "ism_Head m = (if ism_queue m = [] then Datum0 else hd (ism_queue m))"

definition ism_SetNextTimestampBound :: "int \<Rightarrow> 'v ism \<Rightarrow> 'v ism" where
  "ism_SetNextTimestampBound ts m =
     (if ism_closed m then m else if ts < ism_bound m then m else m\<lparr>ism_bound := ts\<rparr>)"

definition ism_NextTimestampOrBound :: "'v ism \<Rightarrow> int" where
  "ism_NextTimestampOrBound m = (if ism_queue m = [] then ism_bound m else Timestamp (hd (ism_queue m)))"

section \<open>Output streams\<close>

record 'v output_stream =
  os_name :: string
  os_queue :: "'v datum list"
  os_closed :: bool

definition OutputStream0 :: "'v output_stream" where
  "OutputStream0 = \<lparr>os_name = [], os_queue = [], os_closed = False\<rparr>"

definition os_SetSpec :: "string \<Rightarrow> 'v output_stream \<Rightarrow> 'v output_stream" where
  "os_SetSpec n s = s\<lparr>os_name := n\<rparr>"

definition os_addDatum :: "'v datum \<Rightarrow> 'v output_stream \<Rightarrow> int \<times> 'v output_stream" where
  "os_addDatum d s =
     (if os_closed s then (- 1, s)
      else
        let ts = Timestamp d in
        if ts \<le> TimestampBegin \<or> ts \<ge> TimestampEnd then (- 1, s)
        else if IsEmpty d then (0, s)
        else (0, s\<lparr>os_queue := os_queue s @ [d]\<rparr>))"

definition os_AddDatum :: "'v datum \<Rightarrow> 'v output_stream \<Rightarrow> 'v output_stream" where
  "os_AddDatum d s = snd (os_addDatum d s)"

definition os_Close :: "'v output_stream \<Rightarrow> 'v output_stream" where
  "os_Close s = s\<lparr>os_closed := True\<rparr>"

section \<open>The operations keep the queue contract\<close>

lemma ism_push_fold [simp]:
  "ism_queue (fold ism_push ds m) = ism_queue m @ ds"
  "ism_name (fold ism_push ds m) = ism_name m" "ism_closed (fold ism_push ds m) = ism_closed m"
  "ism_bound (fold ism_push ds m) = (if ds = [] then ism_bound m else ts_wrap (Timestamp (last ds) + 1))"
  by (induction ds arbitrary: m) (simp_all add: ism_push_def)

lemma ism_AddData_simps [simp]:
  "ism_queue (ism_AddData ds m) = ism_queue m @ ds"
  "ism_name (ism_AddData ds m) = ism_name m" "ism_closed (ism_AddData ds m) = ism_closed m"
  "snd (ism_MoveData ds m) = ism_AddData ds m" "fst (ism_MoveData ds m) = ds"
  by (simp_all add: ism_AddData_def ism_MoveData_def)

definition ism_drop :: "'v ism \<Rightarrow> 'v ism" where
  "ism_drop m = snd (snd (ism_Pop False m))"

lemma ism_drop_simps [simp]:
  "ism_queue (ism_drop m) = tl (ism_queue m)" "ism_bound (ism_drop m) = ism_bound m"
  by (simp_all add: ism_drop_def ism_Pop_def Let_def)

interpretation ism_fifo: fifo_queue ism_queue ism_AddData "\<lambda>_. True" "\<lambda>_. True" ism_drop ism_Head
  by unfold_locales (simp_all add: ism_Head_def)

definition is_put :: "'v datum list \<Rightarrow> 'v input_stream \<Rightarrow> 'v input_stream" where
  "is_put ds s = fold (\<lambda>d. is_AddDatum d False) ds s"

lemma is_put_open:
  "\<not> is_done s \<Longrightarrow> is_put ds s = s\<lparr>is_queue := is_queue s @ ds\<rparr>"
  unfolding is_put_def by (induction ds arbitrary: s) (simp_all add: is_AddDatum_def)

interpretation is_fifo: fifo_queue is_queue is_put "\<lambda>_. True" "\<lambda>s. \<not> is_done s" is_Pop is_Value
  by unfold_locales (simp_all add: is_put_open is_Pop_def is_Value_def)

definition os_good :: "'v datum \<Rightarrow> bool" where
  "os_good d \<longleftrightarrow> TimestampBegin < Timestamp d \<and> Timestamp d < TimestampEnd \<and> \<not> IsEmpty d"

definition os_put :: "'v datum list \<Rightarrow> 'v output_stream \<Rightarrow> 'v output_stream" where
  "os_put ds s = fold os_AddDatum ds s"

lemma os_AddDatum_open:
  "\<not> os_closed s \<Longrightarrow> os_AddDatum d s = s\<lparr>os_queue := os_queue s @ filter os_good [d]\<rparr>"
  by (auto simp: os_AddDatum_def os_addDatum_def os_good_def Let_def)

lemma os_AddDatum_closed: "os_closed s \<Longrightarrow> os_addDatum d s = (- 1, s)"
  by (simp add: os_addDatum_def)

lemma os_put_open: "\<not> os_closed s \<Longrightarrow> os_put ds s = s\<lparr>os_queue := os_queue s @ filter os_good ds\<rparr>"
  unfolding os_put_def by (induction ds arbitrary: s) (simp_all add: os_AddDatum_open)

interpretation os_queue: accepting_queue os_queue os_put os_good "\<lambda>s. \<not> os_closed s"
  by unfold_locales (simp_all add: os_put_open)

section \<open>Popping at a timestamp\<close>

lemma pop_upto_spec:
  "pop_upto ts q ret cur n =
     (let early = takeWhile (\<lambda>d. Timestamp d \<le> ts) q in
      (if early = [] then ret else last early, if early = [] then cur else Timestamp (last early),
       n + int (length early), dropWhile (\<lambda>d. Timestamp d \<le> ts) q))"
  by (induction ts q ret cur n rule: pop_upto.induct) (auto simp: Let_def)

text \<open>\<open>PopAt\<close> removes exactly the leading data up to the timestamp and nothing behind
  them, and returns the last of them if its timestamp is the one asked for; otherwise it
  returns an empty datum stamped just before what the stream can still deliver. Everything
  removed is counted, and a miss counts once more.\<close>

lemma ism_PopAt_spec:
  assumes "kCtimeMin < ts"
  shows "\<exists>d n done_flag m'. ism_PopAt ts k m = (d, n, done_flag, m') \<and>
    (let early = takeWhile (\<lambda>d. Timestamp d \<le> ts) (ism_queue m); hit = (early \<noteq> [] \<and> Timestamp (last early) = ts)
     in ism_queue m = early @ ism_queue m' \<and>
        (ism_queue m' = [] \<or> ts < Timestamp (hd (ism_queue m'))) \<and>
        d = (if hit then last early else At (ts_wrap (ism_NextTimestampOrBound m' - 1)) Datum0) \<and>
        n = k + int (length early) + (if hit then 0 else 1) \<and>
        (ts < kCtimeMax \<longrightarrow> ts < ism_bound m') \<and> (done_flag \<longleftrightarrow> ism_IsDone m'))"
proof -
  let ?P = "\<lambda>d. Timestamp d \<le> ts"
  let ?e = "takeWhile ?P (ism_queue m)" and ?r = "dropWhile ?P (ism_queue m)"
  let ?b = "if ism_bound m \<le> ts then ts_wrap (ts + 1) else ism_bound m"
  let ?m = "m\<lparr>ism_bound := ?b, ism_queue := ?r\<rparr>"
  let ?hit = "?e \<noteq> [] \<and> Timestamp (last ?e) = ts"
  have res: "ism_PopAt ts k m =
      (if ?hit then last ?e else At (ts_wrap (ism_NextTimestampOrBound ?m - 1)) Datum0,
       k + int (length ?e) + (if ?hit then 0 else 1), ism_IsDone ?m, ?m)"
    using assms by (auto simp: ism_PopAt_def pop_upto_spec Let_def ism_NextTimestampOrBound_def)
  have rest: "?r = [] \<or> ts < Timestamp (hd ?r)"
    using hd_dropWhile [of ?P "ism_queue m"] by force
  have "ts < ?b" if "ts < kCtimeMax"
    using that assms ts_wrap_id [of "ts + 1"] by (auto simp: ts_defs)
  then show ?thesis using rest by (simp add: res Let_def)
qed

lemma ism_PopAt_spec_example:
  "\<exists>f m'. ism_PopAt 5 0 \<lparr>ism_name = ''a'', ism_queue = [Datum_ts 1 3, Datum_ts 2 5, Datum_ts 3 8],
      ism_bound = 9, ism_closed = False\<rparr> = (Datum_ts (2::int) 5, 2, f, m') \<and> ism_queue m' = [Datum_ts 3 8]"
proof -
  have "kCtimeMin < 5" by code_simp
  from ism_PopAt_spec [OF this, of 0 "\<lparr>ism_name = ''a'',
      ism_queue = [Datum_ts 1 3, Datum_ts 2 5, Datum_ts (3::int) 8], ism_bound = 9, ism_closed = False\<rparr>"]
  show ?thesis by (force simp: Let_def)
qed

text \<open>A node's input queue is first in, first out across batches: after any number of
  \<open>AddData\<close> calls on an empty manager, reading \<open>n\<close> times leaves at the head the element
  at position \<open>n\<close> of what was added, whatever \<open>AddData\<close> and \<open>Pop\<close> did to the bound.\<close>

lemma ism_reads_in_order:
  assumes "ism_queue m = []" "n < length (concat batches)"
  shows "ism_Head ((ism_drop ^^ n) (fold ism_AddData batches m)) = concat batches ! n"
  using ism_fifo.reads_in_order [OF TrueI assms(1)] assms(2) by simp

lemma ism_reads_in_order_example:
  "ism_Head ((ism_drop ^^ 2) (fold ism_AddData [[Datum_ts 7 1, Datum_ts 8 2], [], [Datum_ts (9::nat) 2]] ISM0)) =
     Datum_ts 9 2"
  using ism_reads_in_order [of ISM0 2 "[[Datum_ts 7 1, Datum_ts 8 2], [], [Datum_ts (9::nat) 2]]"]
  by (simp add: ISM0_def)

text \<open>An output stream that is open keeps, in order, exactly the non-empty data whose
  timestamp lies strictly between the two ends of the time range; a closed one refuses
  everything and stays as it was.\<close>

lemma os_keeps_good:
  "os_queue (fold os_AddDatum ds s) = os_queue s @ (if os_closed s then [] else filter os_good ds)"
proof (cases "os_closed s")
  case True
  then have "fold os_AddDatum ds s = s"
    by (induction ds) (simp_all add: os_AddDatum_def os_AddDatum_closed)
  then show ?thesis using True by simp
next
  case False
  then show ?thesis using os_queue.contents_put [of s ds] by (simp add: os_put_def)
qed

end
