(* ===== verification/Containers.thy ===== *)
theory Containers
  imports Prelude "HOL-Library.Multiset"
begin

text \<open>
  The associative containers of the C++ standard library as the sources use them.
  \<open>std::map\<close> is an association list in strictly increasing key order, so that iteration is
  in key order; \<open>std::unordered_map\<close> is an association list with distinct keys whose order
  stands for the unspecified iteration order (the model appends new keys). The contract both
  keep is the locale \<open>keyed_store\<close>; the counting loops of the tasks are proved inside it.
\<close>

section \<open>The contract\<close>

locale keyed_store =
  fixes lookup :: "'m \<Rightarrow> 'k \<Rightarrow> 'v option"
    and update :: "'k \<Rightarrow> ('v option \<Rightarrow> 'v) \<Rightarrow> 'm \<Rightarrow> 'm"
    and keys :: "'m \<Rightarrow> 'k list"
    and invar :: "'m \<Rightarrow> bool"
  assumes lookup_update: "invar m \<Longrightarrow> lookup (update k f m) = (lookup m)(k \<mapsto> f (lookup m k))"
    and invar_update: "invar m \<Longrightarrow> invar (update k f m)"
    and distinct_keys: "invar m \<Longrightarrow> distinct (keys m)"
    and set_keys: "invar m \<Longrightarrow> set (keys m) = dom (lookup m)"
begin

lemma invar_fold: "invar m \<Longrightarrow> invar (fold (\<lambda>x. update (ky x) (g x)) xs m)"
  by (induction xs arbitrary: m) (simp_all add: invar_update)

text \<open>A loop of updates, read at one key: only the elements with that key count.\<close>

lemma lookup_fold:
  "invar m \<Longrightarrow> lookup (fold (\<lambda>x. update (ky x) (g x)) xs m) k =
     fold (\<lambda>x v. Some (g x v)) (filter (\<lambda>x. ky x = k) xs) (lookup m k)"
  by (induction xs arbitrary: m) (simp_all add: lookup_update invar_update)

lemma keys_fold:
  "invar m \<Longrightarrow> set (keys (fold (\<lambda>x. update (ky x) (g x)) xs m)) = set (keys m) \<union> ky ` set xs"
proof (induction xs arbitrary: m)
  case (Cons x xs)
  then show ?case by (simp add: invar_update set_keys lookup_update)
qed simp

text \<open>Two loops whose elements agree up to order build stores with the same lookups when the
  updates of one key commute.\<close>

lemma lookup_fold_perm:
  assumes "invar m" "mset xs = mset ys"
    and comm: "\<And>x y v. ky x = ky y \<Longrightarrow> g y (Some (g x v)) = g x (Some (g y v))"
  shows "lookup (fold (\<lambda>x. update (ky x) (g x)) xs m) =
    lookup (fold (\<lambda>x. update (ky x) (g x)) ys m)"
proof
  fix k
  let ?f = "\<lambda>x v. Some (g x v)"
  have "mset (filter (\<lambda>x. ky x = k) xs) = mset (filter (\<lambda>x. ky x = k) ys)"
    using assms(2) by simp
  then have "fold ?f (filter (\<lambda>x. ky x = k) xs) = fold ?f (filter (\<lambda>x. ky x = k) ys)"
    by (intro fold_multiset_equiv) (auto simp: comm fun_eq_iff)
  then show "lookup (fold (\<lambda>x. update (ky x) (g x)) xs m) k =
      lookup (fold (\<lambda>x. update (ky x) (g x)) ys m) k"
    using assms(1) by (simp add: lookup_fold)
qed

end

section \<open>Ordered maps\<close>

fun om_update :: "'k::linorder \<Rightarrow> ('v option \<Rightarrow> 'v) \<Rightarrow> ('k \<times> 'v) list \<Rightarrow> ('k \<times> 'v) list" where
  "om_update k f [] = [(k, f None)]"
| "om_update k f ((a, b) # m) =
     (if k < a then (k, f None) # (a, b) # m
      else if k = a then (a, f (Some b)) # m
      else (a, b) # om_update k f m)"

abbreviation om_insert :: "'k::linorder \<Rightarrow> 'v \<Rightarrow> ('k \<times> 'v) list \<Rightarrow> ('k \<times> 'v) list" where
  "om_insert k v \<equiv> om_update k (\<lambda>_. v)"

definition om_invar :: "('k::linorder \<times> 'v) list \<Rightarrow> bool" where
  "om_invar m \<longleftrightarrow> sorted_wrt (<) (map fst m)"

lemma om_invar_simps [simp]:
  "om_invar []" "om_invar ((a, b) # m) \<longleftrightarrow> (\<forall>x\<in>set m. a < fst x) \<and> om_invar m"
  by (auto simp: om_invar_def)

lemma om_update_keys: "fst ` set (om_update k f m) = insert k (fst ` set m)"
  by (induction m rule: om_update.induct) auto

lemma om_invar_update [container_facts]: "om_invar m \<Longrightarrow> om_invar (om_update k f m)"
proof (induction m)
  case (Cons e m)
  obtain a b where e: "e = (a, b)" by (cases e)
  have "\<forall>x\<in>set (om_update k f m). a < fst x" if "\<not> k < a" "k \<noteq> a"
  proof
    fix x assume "x \<in> set (om_update k f m)"
    then have "fst x \<in> insert k (fst ` set m)" using om_update_keys [of k f m] by (metis image_eqI)
    then show "a < fst x" using Cons.prems that e by auto
  qed
  then show ?case using Cons e by force
qed simp

lemma om_lookup_above: "\<forall>x\<in>set m. k < fst x \<Longrightarrow> map_of m (k::'k::linorder) = None"
  by (induction m) auto

lemma om_lookup_update [container_facts]:
  "om_invar m \<Longrightarrow> map_of (om_update k f m) = (map_of m)(k \<mapsto> f (map_of m k))"
proof (induction m)
  case (Cons e m)
  obtain a b where e: "e = (a, b)" by (cases e)
  have "map_of m k = None" if "k < a"
    using Cons.prems e that by (intro om_lookup_above) auto
  then show ?case using Cons e by (auto simp: fun_eq_iff)
qed simp

lemma om_distinct: "om_invar m \<Longrightarrow> distinct (map fst m)"
  by (simp add: om_invar_def strict_sorted_iff)

interpretation omap: keyed_store map_of om_update "map fst" om_invar
  by unfold_locales (simp_all add: container_facts om_distinct dom_map_of_conv_image_fst)

section \<open>Unordered maps\<close>

fun um_update :: "'k \<Rightarrow> ('v option \<Rightarrow> 'v) \<Rightarrow> ('k \<times> 'v) list \<Rightarrow> ('k \<times> 'v) list" where
  "um_update k f [] = [(k, f None)]"
| "um_update k f ((a, b) # m) =
     (if k = a then (a, f (Some b)) # m else (a, b) # um_update k f m)"

abbreviation um_insert :: "'k \<Rightarrow> 'v \<Rightarrow> ('k \<times> 'v) list \<Rightarrow> ('k \<times> 'v) list" where
  "um_insert k v \<equiv> um_update k (\<lambda>_. v)"

definition um_erase :: "'k \<Rightarrow> ('k \<times> 'v) list \<Rightarrow> ('k \<times> 'v) list" where
  "um_erase k m = filter (\<lambda>e. fst e \<noteq> k) m"

abbreviation um_invar :: "('k \<times> 'v) list \<Rightarrow> bool" where
  "um_invar m \<equiv> distinct (map fst m)"

lemma um_update_keys: "fst ` set (um_update k f m) = insert k (fst ` set m)"
  by (induction m rule: um_update.induct) auto

lemma um_invar_update [container_facts]: "um_invar m \<Longrightarrow> um_invar (um_update k f m)"
proof (induction k f m rule: um_update.induct)
  case (2 k f a b m)
  then show ?case using um_update_keys [of k f m] by (auto simp: image_iff)
qed simp

lemma um_lookup_update [container_facts]:
  "map_of (um_update k f m) = (map_of m)(k \<mapsto> f (map_of m k))"
  by (induction k f m rule: um_update.induct) (auto simp: fun_eq_iff)

lemma um_update_new: "map_of m k = None \<Longrightarrow> um_update k f m = um_insert k (f None) m"
  by (induction m) auto

interpretation umap: keyed_store map_of um_update "map fst" um_invar
  by unfold_locales (simp_all add: container_facts dom_map_of_conv_image_fst)

lemma um_erase_lookup [container_facts]: "map_of (um_erase k m) = (map_of m)(k := None)"
  by (induction m) (auto simp: um_erase_def fun_eq_iff)

lemma um_erase_keys: "fst ` set (um_erase k m) = fst ` set m - {k}"
  by (auto simp: um_erase_def)

lemma um_erase_invar [container_facts]: "um_invar m \<Longrightarrow> um_invar (um_erase k m)"
  by (simp add: um_erase_def distinct_map inj_on_def)

section \<open>Unordered sets\<close>

text \<open>\<open>std::unordered_set\<close>: a list without repetition, in the unspecified iteration order.\<close>

definition us_insert :: "'a \<Rightarrow> 'a list \<Rightarrow> 'a list" where
  "us_insert x xs = (if x \<in> set xs then xs else xs @ [x])"

lemma us_insert_set [simp]: "set (us_insert x xs) = insert x (set xs)"
  by (auto simp: us_insert_def)

lemma us_insert_distinct [simp]: "distinct xs \<Longrightarrow> distinct (us_insert x xs)"
  by (simp add: us_insert_def)

lemma us_fold_set: "set (fold (\<lambda>x. us_insert (g x)) xs s) = set s \<union> g ` set xs"
  by (induction xs arbitrary: s) auto

lemma us_fold_distinct: "distinct s \<Longrightarrow> distinct (fold (\<lambda>x. us_insert (g x)) xs s)"
  by (induction xs arbitrary: s) auto

text \<open>A loop that collects values under keys, as a map of sets.\<close>

lemma fold_us_insert:
  "fold (\<lambda>x v. Some (us_insert (f x) (case v of None \<Rightarrow> [] | Some s \<Rightarrow> s))) xs v =
     (if xs = [] then v else Some (fold (\<lambda>x. us_insert (f x)) xs (case v of None \<Rightarrow> [] | Some s \<Rightarrow> s)))"
  by (induction xs arbitrary: v) (auto split: option.splits)

definition um_group :: "('x \<Rightarrow> 'k) \<Rightarrow> ('x \<Rightarrow> 'a) \<Rightarrow> 'x list \<Rightarrow> ('k \<times> 'a list) list" where
  "um_group ky f xs = fold (\<lambda>x. um_update (ky x) (\<lambda>v. us_insert (f x) (case v of None \<Rightarrow> [] | Some s \<Rightarrow> s))) xs []"

lemma um_group_lookup:
  "map_of (um_group ky f xs) k = None \<longleftrightarrow> k \<notin> ky ` set xs"
  "map_of (um_group ky f xs) k = Some s \<Longrightarrow> distinct s \<and> set s = f ` {x \<in> set xs. ky x = k}"
  "um_invar (um_group ky f xs)"
proof -
  let ?ys = "filter (\<lambda>x. ky x = k) xs"
  have look: "map_of (um_group ky f xs) k = (if ?ys = [] then None else Some (fold (\<lambda>x. us_insert (f x)) ?ys []))"
    unfolding um_group_def by (subst umap.lookup_fold) (simp_all add: fold_us_insert)
  then show "map_of (um_group ky f xs) k = None \<longleftrightarrow> k \<notin> ky ` set xs" by (auto simp: filter_empty_conv)
  show "distinct s \<and> set s = f ` {x \<in> set xs. ky x = k}" if "map_of (um_group ky f xs) k = Some s"
    using that look by (auto simp: us_fold_set us_fold_distinct split: if_splits)
  show "um_invar (um_group ky f xs)" unfolding um_group_def by (rule umap.invar_fold) simp
qed

lemma fold_concat_lists: "fold f (concat xss) s = fold (fold f) xss s"
  by (induction xss arbitrary: s) simp_all

lemma fold_nested: "fold (\<lambda>x. fold (f x) (g x)) xs s = fold (\<lambda>(x, y). f x y) (concat (map (\<lambda>x. map (Pair x) (g x)) xs)) s"
  by (induction xs arbitrary: s) (simp_all add: fold_map comp_def)

end
