(* ===== verification/Tags.thy ===== *)
theory Tags
  imports Strings Containers
begin

text \<open>
  The \<open>TAG:INDEX:NAME\<close> strings of graph and node configurations and the \<open>TagMap\<close> built
  from them: \<open>dni/framework/utils/tags.h\<close>, \<open>tags.cc\<close>. A \<open>TagMap\<close> gives every stream of a
  node a slot; the properties say that the slots of a successfully built map are numbered without
  gap or overlap and that a stream is found under the slot of its tag and index. Output
  parameters are passed in and returned, the integer result first.
\<close>

section \<open>Parsing\<close>

definition validateTag :: "string \<Rightarrow> bool" where
  "validateTag tag \<longleftrightarrow> length tag > 0 \<and> list_all (\<lambda>c. c = CHR ''_'' \<or> isalnum c) (tl tag)"

definition validateIndex :: "string \<Rightarrow> bool" where
  "validateIndex idx \<longleftrightarrow>
     (length idx = 1 \<and> isdigit (idx ! 0)) \<or>
     (length idx > 1 \<and> isdigit (idx ! 0) \<and> idx ! 0 \<noteq> CHR ''0'' \<and> list_all isdigit (tl idx))"

definition validateName :: "string \<Rightarrow> bool" where
  "validateName name \<longleftrightarrow> True"

definition ParseTagIndex :: "string \<Rightarrow> string \<times> int \<Rightarrow> (int \<times> string \<times> int) outcome" where
  "ParseTagIndex tag_index = (\<lambda>(tag, index).
     if tag_index = [] then Inr (0, tag, - 1)
     else
       let idx = str_find CHR '':'' tag_index in
       if idx = - 1 then Inr (0, tag_index, index)
       else if idx = 0 then
         bindE (stoi (substr tag_index (idx + 1))) (\<lambda>i. Inr (0, tag, i))
       else
         bindE (stoi (substr tag_index (idx + 1))) (\<lambda>i. Inr (0, substr_len tag_index 0 idx, i)))"

definition ParseTagIndexName ::
  "string \<Rightarrow> string \<times> int \<times> string \<Rightarrow> (int \<times> string \<times> int \<times> string) outcome" where
  "ParseTagIndexName s = (\<lambda>(tag, index, name).
     if s = [] then Inr (0, tag, - 1, name)
     else
       let pos1 = str_find CHR '':'' s in
       if pos1 = - 1 then Inr (0, tag, - 1, s)
       else
         let pos2 = str_find CHR '':'' (substr s (pos1 + 1)) in
         if pos2 = - 1 then
           let tag = substr_len s 0 pos1 in
           if \<not> validateTag tag then Inr (- 1, tag, index, name)
           else
             let name = substr s (pos1 + 1) in
             if \<not> validateName name then Inr (- 1, tag, index, name)
             else Inr (0, tag, index, name)
         else
           let pos2 = pos2 + (pos1 + 1); tag = substr_len s 0 pos1 in
           if \<not> validateTag tag then Inr (- 1, tag, index, name)
           else
             let num = substr_len s (pos1 + 1) (pos2 - pos1 - 1) in
             if \<not> validateIndex num then Inr (- 1, tag, index, name)
             else
               bindE (stoi num) (\<lambda>index.
                 let name = substr s (pos2 + 1) in
                 if \<not> validateName name then Inr (- 1, tag, index, name)
                 else Inr (0, tag, index, name)))"

section \<open>The tag map\<close>

record tag_data =
  td_base :: int
  td_count :: int

definition TagData0 :: tag_data where
  "TagData0 = \<lparr>td_base = - 1, td_count = 0\<rparr>"

record tag_map =
  tm_data :: "(string \<times> tag_data) list"
  tm_names :: "string list"
  tm_total :: int

definition count_of :: "(string \<times> tag_data) list \<Rightarrow> string \<Rightarrow> int" where
  "count_of d tag = (case map_of d tag of None \<Rightarrow> 0 | Some td \<Rightarrow> td_count td)"

definition names_of :: "(string \<times> string list) list \<Rightarrow> string \<Rightarrow> string list" where
  "names_of n tag = (case map_of n tag of None \<Rightarrow> [] | Some ns \<Rightarrow> ns)"

text \<open>\<open>names.resize(idx + 1)\<close> when the vector is too short, then \<open>names[idx] = name\<close>.\<close>

definition place :: "nat \<Rightarrow> string \<Rightarrow> string list \<Rightarrow> string list" where
  "place i name ns = (if length ns \<le> i then ns @ replicate (i + 1 - length ns) [] else ns)[i := name]"

definition add_count :: "tag_data option \<Rightarrow> tag_data" where
  "add_count v = (case v of None \<Rightarrow> TagData0 | Some td \<Rightarrow> td)
     \<lparr>td_count := td_count (case v of None \<Rightarrow> TagData0 | Some td \<Rightarrow> td) + 1\<rparr>"

definition add_name :: "nat \<Rightarrow> string \<Rightarrow> string list option \<Rightarrow> string list" where
  "add_name i name v = place i name (case v of None \<Rightarrow> [] | Some ns \<Rightarrow> ns)"

text \<open>
  The parse loop of \<open>TagMap::Initialize\<close>. An index of \<open>INT_MAX\<close> makes \<open>idx + 1\<close> wrap to a
  negative \<open>int\<close>, hence a \<open>size_t\<close> beyond \<open>max_size()\<close>.
\<close>

fun parse_loop ::
  "string list \<Rightarrow> (string \<times> tag_data) list \<Rightarrow> (string \<times> string list) list \<Rightarrow>
   (int \<times> (string \<times> tag_data) list \<times> (string \<times> string list) list) outcome" where
  "parse_loop [] d n = Inr (0, d, n)"
| "parse_loop (f # fs) d n =
     bindE (ParseTagIndexName f ([], 0, [])) (\<lambda>(rc, tag, idx, name).
       if rc \<noteq> 0 then Inr (- 1, d, n)
       else
         let i = (if idx = - 1 then count_of d tag else idx) in
         if i = 2147483647 then Inl Length_error
         else parse_loop fs (om_update tag add_count d) (om_update tag (add_name (nat i) name) n))"

fun base_loop ::
  "(string \<times> tag_data) list \<Rightarrow> (string \<times> string list) list \<Rightarrow> int \<Rightarrow>
   int \<times> (string \<times> tag_data) list \<times> int" where
  "base_loop [] n cur = (0, [], cur)"
| "base_loop ((t, td) # d) n cur =
     (if td_count td \<noteq> int (length (names_of n t)) then (- 1, (t, td) # d, cur)
      else case base_loop d n (cur + td_count td) of
             (rc, d', c) \<Rightarrow> (rc, (t, td\<lparr>td_base := cur\<rparr>) # d', c))"

definition names_loop ::
  "(string \<times> tag_data) list \<Rightarrow> (string \<times> string list) list \<Rightarrow> string list \<Rightarrow> string list" where
  "names_loop d n = fold (\<lambda>(t, td) ns.
     take (nat (td_base td)) ns @ names_of n t @ drop (nat (td_base td)) ns) d"

definition TagMap_Initialize :: "string list \<Rightarrow> tag_map \<Rightarrow> (int \<times> tag_map) outcome" where
  "TagMap_Initialize tag_index_names tm =
     bindE (parse_loop tag_index_names (tm_data tm) []) (\<lambda>(rc, d, n).
       if rc \<noteq> 0 then Inr (- 1, tm\<lparr>tm_data := d\<rparr>)
       else case base_loop d n 0 of (rc, d', cur) \<Rightarrow>
         if rc \<noteq> 0 then Inr (- 1, tm\<lparr>tm_data := d'\<rparr>)
         else Inr (0, \<lparr>tm_data = d', tm_names = names_loop d' n (tm_names tm), tm_total = cur\<rparr>))"

text \<open>\<open>NewTagMap\<close>: \<open>None\<close> is the null pointer. The fresh object leaves \<open>total_names_\<close>
  indeterminate; \<open>0\<close> stands for it and no path reads it.\<close>

definition NewTagMap :: "string list \<Rightarrow> tag_map option outcome" where
  "NewTagMap tag_index_names =
     bindE (TagMap_Initialize tag_index_names \<lparr>tm_data = [], tm_names = [], tm_total = 0\<rparr>)
       (\<lambda>(rc, tm). Inr (if rc \<noteq> 0 then None else Some tm))"

definition Names :: "tag_map \<Rightarrow> string list" where
  "Names tm = tm_names tm"

definition NStreams :: "tag_map \<Rightarrow> int" where
  "NStreams tm = tm_total tm"

definition NStreams_tag :: "tag_map \<Rightarrow> string \<Rightarrow> int" where
  "NStreams_tag tm tag = count_of (tm_data tm) tag"

definition TagMap_Tags :: "tag_map \<Rightarrow> string list" where
  "TagMap_Tags tm = map fst (tm_data tm)"

definition FindByTagIndex :: "tag_map \<Rightarrow> string \<Rightarrow> int \<Rightarrow> int" where
  "FindByTagIndex tm tag index = (case map_of (tm_data tm) tag of
       None \<Rightarrow> - 1
     | Some td \<Rightarrow> if index \<ge> td_count td then - 1 else td_base td + index)"

section \<open>Parsing lemmas\<close>

lemma validateTag_no_colon:
  assumes "validateTag tag" "hd tag \<noteq> CHR '':''"
  shows "CHR '':'' \<notin> set tag"
proof -
  obtain c s where tag: "tag = c # s" using assms(1) by (cases tag) (auto simp: validateTag_def)
  have "\<not> (CHR '':'' = CHR ''_'' \<or> isalnum CHR '':'')" by code_simp
  then have "CHR '':'' \<notin> set s" using assms(1) by (auto simp: tag validateTag_def list_all_iff)
  then show ?thesis using assms(2) by (auto simp: tag)
qed

lemma isdigit_no_colon: "isdigit c \<Longrightarrow> c \<noteq> CHR '':''"
  by (auto simp: isdigit_def)

lemma nat_string_hd_zero: "hd (nat_string n) = CHR ''0'' \<Longrightarrow> n = 0"
proof (induction n rule: nat_string.induct)
  case (1 n)
  show ?case
  proof (cases "n < 10")
    case True
    have "digit 0 = CHR ''0''" by code_simp
    then show ?thesis using True "1.prems" digit_inj [of n 0] by (simp add: nat_string.simps [of n])
  next
    case False
    then have "hd (nat_string (n div 10)) = CHR ''0''"
      using "1.prems" by (simp add: nat_string.simps [of n])
    then have "n div 10 = 0" using "1.IH" [OF False] by simp
    then show ?thesis using False by simp
  qed
qed

lemma validateIndex_to_string:
  assumes "0 \<le> i"
  shows "validateIndex (to_string i)"
proof -
  let ?s = "nat_string (nat i)"
  have d: "\<forall>c\<in>set ?s. isdigit c" by (simp add: nat_string_isdigit)
  show ?thesis
  proof (cases "nat i < 10")
    case True
    then show ?thesis using assms by (simp add: to_string_def validateIndex_def nat_string.simps [of "nat i"])
  next
    case False
    then obtain c cs where s: "?s = c # cs" "cs \<noteq> []"
      by (cases ?s; cases "nat_string (nat i div 10)") (auto simp: nat_string.simps [of "nat i"])
    moreover have "c \<noteq> CHR ''0''" using nat_string_hd_zero [of "nat i"] False s by auto
    ultimately show ?thesis using d assms by (simp add: to_string_def validateIndex_def list_all_iff)
  qed
qed

lemma ParseTagIndexName_print:
  assumes "validateTag tag" "hd tag \<noteq> CHR '':''" "0 \<le> i" "i \<le> 2147483647"
  shows "ParseTagIndexName (tag @ '':'' @ to_string i @ '':'' @ name) out = Inr (0, tag, i, name)"
proof -
  obtain t j n where out: "out = (t, j, n)" by (cases out)
  have ct: "CHR '':'' \<notin> set tag" using validateTag_no_colon assms(1,2) .
  have ci: "CHR '':'' \<notin> set (to_string i)"
    using assms(3) nat_string_isdigit isdigit_no_colon by (fastforce simp: to_string_def)
  have p1: "str_find CHR '':'' (tag @ CHR '':'' # to_string i @ CHR '':'' # name) = int (length tag)"
    using str_find_append [OF ct] by simp
  have p2: "str_find CHR '':'' (to_string i @ CHR '':'' # name) = int (length (to_string i))"
    using str_find_append [OF ci] by simp
  have "nat (int (length tag) + 1) = Suc (length tag)"
    "nat (int (length (to_string i)) + (int (length tag) + 1) + 1) =
       Suc (length tag) + Suc (length (to_string i))" by simp_all
  then show ?thesis
    using assms(1) p1 p2 validateIndex_to_string [OF assms(3)] stoi_to_string [OF assms(3,4)]
    by (simp add: out ParseTagIndexName_def Let_def substr_def substr_len_def validateName_def)
qed

lemma ParseTagIndexName_print_tag:
  assumes "validateTag tag" "hd tag \<noteq> CHR '':''" "CHR '':'' \<notin> set name"
  shows "ParseTagIndexName (tag @ '':'' @ name) (t, j, n) = Inr (0, tag, j, name)"
proof -
  have "str_find CHR '':'' (tag @ CHR '':'' # name) = int (length tag)"
    using str_find_append [OF validateTag_no_colon [OF assms(1,2)]] by simp
  then show ?thesis
    using assms(1,3)
    by (simp add: ParseTagIndexName_def Let_def substr_def substr_len_def validateName_def
        str_find_notin nat_add_distrib)
qed

lemma ParseTagIndexName_print_name:
  "CHR '':'' \<notin> set name \<Longrightarrow> ParseTagIndexName name (t, j, []) = Inr (0, t, - 1, name)"
  by (simp add: ParseTagIndexName_def str_find_notin)

text \<open>C32: \<open>TAG:INDEX:NAME\<close>, \<open>TAG:NAME\<close> and \<open>NAME\<close> are read back as they were written, for
  every tag \<open>validateTag\<close> accepts, every index an \<open>int\<close> can hold, and names that hold a colon
  only in the full form; a missing index is 0 with a tag and -1 without. The comment above
  \<open>ParseTagIndexName\<close> calls \<open>INDEX:NAME\<close> and \<open>TAG:INDEX\<close> invalid inputs; the code has no such
  test. It reads \<open>INDEX:NAME\<close> as a tag made of digits and a name, and \<open>TAG:INDEX\<close> as a tag and
  a name made of digits, so both are instances of the second form (\<open>listed_invalid_accepted\<close>).\<close>

theorem ParseTagIndexName_roundtrip:
  assumes "validateTag tag" "hd tag \<noteq> CHR '':''" "0 \<le> i" "i \<le> 2147483647"
    and "CHR '':'' \<notin> set plain"
  shows "ParseTagIndexName (tag @ '':'' @ to_string i @ '':'' @ name) ([], 0, []) =
      Inr (0, tag, i, name) \<and>
    ParseTagIndexName (tag @ '':'' @ plain) ([], 0, []) = Inr (0, tag, 0, plain) \<and>
    ParseTagIndexName plain ([], 0, []) = Inr (0, [], - 1, plain)"
  using ParseTagIndexName_print [OF assms(1-4)] ParseTagIndexName_print_tag [OF assms(1,2,5)]
    ParseTagIndexName_print_name [OF assms(5)] by simp

theorem ParseTagIndexName_roundtrip_witness:
  "ParseTagIndexName (''IN'' @ '':'' @ to_string 12 @ '':'' @ ''a:b'') ([], 0, []) =
     Inr (0, ''IN'', 12, ''a:b'') \<and>
   ParseTagIndexName ''IN:12:a:b'' ([], 0, []) = Inr (0, ''IN'', 12, ''a:b'')"
proof -
  have "validateTag ''IN''" by code_simp
  moreover have "ParseTagIndexName ''IN:12:a:b'' ([], 0, []) = Inr (0, ''IN'', 12, ''a:b'')"
    by code_simp
  ultimately show ?thesis
    using ParseTagIndexName_roundtrip [of "''IN''" 12 "''x''" "''a:b''"] by simp
qed

text \<open>The inputs that the comment of \<open>ParseTagIndexName\<close> lists as invalid are accepted: digits
  before a single colon become the tag, digits behind it the name, and the index is 0.\<close>

lemma listed_invalid_accepted:
  assumes "0 \<le> i" "validateTag tag" "hd tag \<noteq> CHR '':''" "CHR '':'' \<notin> set name"
  shows "ParseTagIndexName (to_string i @ '':'' @ name) ([], 0, []) = Inr (0, to_string i, 0, name) \<and>
    ParseTagIndexName (tag @ '':'' @ to_string i) ([], 0, []) = Inr (0, tag, 0, to_string i)"
proof -
  have digits: "to_string i \<noteq> []" "\<forall>c\<in>set (to_string i). isdigit c"
    using assms(1) nat_string_isdigit by (auto simp: to_string_def)
  have no_colon: "\<not> isdigit CHR '':''" by code_simp
  then have c: "CHR '':'' \<notin> set (to_string i)" "hd (to_string i) \<noteq> CHR '':''"
    using digits list.set_sel(1) by metis+
  have "validateTag (to_string i)"
    using digits by (auto simp: validateTag_def list_all_iff isalnum_def dest: list.set_sel(2))
  then show ?thesis
    using ParseTagIndexName_print_tag [of "to_string i" name] ParseTagIndexName_print_tag [OF assms(2,3) c(1)] assms(4) c(2)
    by blast
qed

section \<open>Slots\<close>

text \<open>
  The pairs of tag and index a tag table provides, in slot order, and the meaning of the
  configured strings: a missing index (-1) stands for the number of earlier entries with the tag.
\<close>

definition slots :: "(string \<times> tag_data) list \<Rightarrow> (string \<times> nat) list" where
  "slots d = concat (map (\<lambda>(t, td). map (Pair t) [0..<nat (td_count td)]) d)"

fun resolve :: "(string \<times> int \<times> string) list \<Rightarrow> (string \<Rightarrow> nat) \<Rightarrow> (string \<times> nat \<times> string) list" where
  "resolve [] c = []"
| "resolve ((t, i, name) # es) c =
     (t, if i = - 1 then c t else nat i, name) # resolve es (c(t := Suc (c t)))"

definition parses_to :: "string list \<Rightarrow> (string \<times> int \<times> string) list \<Rightarrow> bool" where
  "parses_to fs es \<longleftrightarrow> map (\<lambda>f. ParseTagIndexName f ([], 0, [])) fs = map (\<lambda>e. Inr (0, e)) es"

definition requests :: "(string \<times> int \<times> string) list \<Rightarrow> (string \<times> nat \<times> string) list" where
  "requests es = resolve es (\<lambda>_. 0)"

definition req_slot :: "string \<times> nat \<times> string \<Rightarrow> string \<times> nat" where
  "req_slot r = (fst r, fst (snd r))"

lemma parses_to_simps [simp]:
  "parses_to [] es \<longleftrightarrow> es = []"
  "parses_to (f # fs) (e # es) \<longleftrightarrow> ParseTagIndexName f ([], 0, []) = Inr (0, e) \<and> parses_to fs es"
  by (auto simp: parses_to_def)

lemma resolve_length [simp]: "length (resolve es c) = length es"
  by (induction es arbitrary: c) auto

text \<open>What the parse loop builds: both tables are updated once per entry.\<close>

abbreviation count_entry :: "string \<times> nat \<times> string \<Rightarrow> (string \<times> tag_data) list \<Rightarrow> (string \<times> tag_data) list" where
  "count_entry r \<equiv> om_update (fst r) add_count"

abbreviation name_entry :: "string \<times> nat \<times> string \<Rightarrow> (string \<times> string list) list \<Rightarrow> (string \<times> string list) list" where
  "name_entry r \<equiv> om_update (fst r) (add_name (fst (snd r)) (snd (snd r)))"

lemma count_of_update:
  "om_invar d \<Longrightarrow> count_of (om_update t add_count d) u = count_of d u + (if u = t then 1 else 0)"
  by (auto simp: count_of_def om_lookup_update add_count_def TagData0_def split: option.splits)

lemma count_of_update_fun:
  assumes "om_invar d" "\<forall>u. count_of d u = int (c u)"
  shows "\<forall>u. count_of (om_update t add_count d) u = int ((c(t := Suc (c t))) u)"
  using assms by (simp add: count_of_update)

lemma parse_loop_parses:
  assumes "parse_loop fs d n = Inr (0, d', n')" "om_invar d" "\<forall>u. count_of d u = int (c u)"
  shows "\<exists>es. parses_to fs es \<and> d' = fold count_entry (resolve es c) d \<and>
    n' = fold name_entry (resolve es c) n"
  using assms
proof (induction fs d n arbitrary: c rule: parse_loop.induct)
  case (2 f fs d n)
  obtain rc t i nm where p: "ParseTagIndexName f ([], 0, []) = Inr (rc, t, i, nm)"
    using "2.prems"(1) by (auto simp: bindE_Inr_iff)
  let ?i = "if i = - 1 then count_of d t else i"
  let ?d = "om_update t add_count d" and ?n = "om_update t (add_name (nat ?i) nm) n"
  let ?c = "c(t := Suc (c t))"
  have rc: "rc = 0" and i: "?i \<noteq> 2147483647" and next_loop: "parse_loop fs ?d ?n = Inr (0, d', n')"
    using "2.prems"(1) p by (auto simp: Let_def split: if_splits)
  obtain es where es: "parses_to fs es" "d' = fold count_entry (resolve es ?c) ?d"
    "n' = fold name_entry (resolve es ?c) ?n"
    using "2.IH" [OF _ refl i next_loop om_invar_update [OF "2.prems"(2)]
        count_of_update_fun [OF "2.prems"(2,3)]] rc by (auto simp del: fun_upd_apply)
  have "nat ?i = (if i = - 1 then c t else nat i)" using "2.prems"(3) by simp
  then show ?case
    using es p rc by (intro exI [of _ "(t, i, nm) # es"]) simp
qed simp

lemma parse_loop_complete:
  assumes "parses_to fs es" "om_invar d" "\<forall>u. count_of d u = int (c u)"
    "\<forall>r\<in>set (resolve es c). fst (snd r) < 2147483647"
  shows "parse_loop fs d n =
    Inr (0, fold count_entry (resolve es c) d, fold name_entry (resolve es c) n)"
  using assms
proof (induction es arbitrary: fs d n c)
  case (Cons e es)
  obtain t i nm where e: "e = (t, i, nm)" by (cases e)
  obtain f fs' where fs: "fs = f # fs'" using Cons.prems(1) by (cases fs) (auto simp: parses_to_def)
  let ?i = "if i = - 1 then count_of d t else i"
  have "nat ?i = (if i = - 1 then c t else nat i)" "?i \<noteq> 2147483647"
    using Cons.prems(3,4) by (auto simp: e)
  then show ?case
    using Cons.prems Cons.IH [OF _ om_invar_update [OF Cons.prems(2)]
        count_of_update_fun [OF Cons.prems(2,3), of t]]
    by (simp add: e fs Let_def del: fun_upd_apply)
qed (simp add: parses_to_def)

text \<open>The tables after the loop, read at one tag.\<close>

lemma place_length [simp]: "length (place i nm ns) = max (length ns) (Suc i)"
  by (simp add: place_def)

lemma place_nth:
  "j < length (place i nm ns) \<Longrightarrow>
   place i nm ns ! j = (if j = i then nm else if j < length ns then ns ! j else [])"
  by (auto simp: place_def nth_append nth_list_update split: if_splits)

definition tag_reqs :: "(string \<times> nat \<times> string) list \<Rightarrow> string \<Rightarrow> (string \<times> nat \<times> string) list" where
  "tag_reqs rs t = filter (\<lambda>r. fst r = t) rs"

definition tag_names :: "(string \<times> nat \<times> string) list \<Rightarrow> string \<Rightarrow> string list" where
  "tag_names rs t = fold (\<lambda>r. place (fst (snd r)) (snd (snd r))) (tag_reqs rs t) []"

lemma fold_add_count: "count_of d t = int k \<Longrightarrow> om_invar d \<Longrightarrow>
   count_of (fold count_entry rs d) t = int (k + length (tag_reqs rs t))"
proof (induction rs arbitrary: d k)
  case (Cons r rs)
  have "count_of (count_entry r d) t = int (k + (if fst r = t then 1 else 0))"
    using Cons.prems by (auto simp: count_of_update)
  from Cons.IH [OF this om_invar_update [OF Cons.prems(2)]] show ?case
    by (simp add: tag_reqs_def)
qed (simp add: tag_reqs_def)

lemma fold_names_step: "om_invar n \<Longrightarrow> names_of (name_entry r n) t =
    (if fst r = t then place (fst (snd r)) (snd (snd r)) (names_of n t) else names_of n t)"
  by (auto simp: names_of_def om_lookup_update add_name_def split: option.splits)

lemma fold_add_name: "om_invar n \<Longrightarrow>
   names_of (fold name_entry rs n) t =
     fold (\<lambda>r. place (fst (snd r)) (snd (snd r))) (tag_reqs rs t) (names_of n t)"
  by (induction rs arbitrary: n) (simp_all add: tag_reqs_def fold_names_step om_invar_update)

lemma fold_place_keep:
  "j < length ns \<Longrightarrow> j \<notin> (\<lambda>r. fst (snd r)) ` set rs \<Longrightarrow>
   fold (\<lambda>r. place (fst (snd r)) (snd (snd r))) rs ns ! j = ns ! j"
  by (induction rs arbitrary: ns) (auto simp: place_nth)

lemma fold_place_length:
  "length (fold (\<lambda>r. place (fst (snd r)) (snd (snd r))) rs ns) \<ge> length ns"
proof (induction rs arbitrary: ns)
  case (Cons r rs)
  have "length ns \<le> length (place (fst (snd r)) (snd (snd r)) ns)" by simp
  then show ?case using Cons.IH [of "place (fst (snd r)) (snd (snd r)) ns"] by simp
qed simp

lemma fold_place_bound:
  "\<forall>r\<in>set rs. fst (snd r) < m \<Longrightarrow> length ns \<le> m \<Longrightarrow>
   length (fold (\<lambda>r. place (fst (snd r)) (snd (snd r))) rs ns) \<le> m"
  by (induction rs arbitrary: ns) auto

lemma fold_place_in:
  "r \<in> set rs \<Longrightarrow> fst (snd r) < length (fold (\<lambda>r. place (fst (snd r)) (snd (snd r))) rs ns)"
proof (induction rs arbitrary: ns)
  case (Cons a rs)
  let ?p = "place (fst (snd a)) (snd (snd a)) ns"
  show ?case
  proof (cases "r = a")
    case True
    have "fst (snd a) < length ?p" by simp
    then show ?thesis using fold_place_length [of ?p rs] True by (simp del: place_length)
  qed (use Cons in auto)
qed simp

lemma fold_place_nth:
  assumes "distinct (map (\<lambda>r. fst (snd r)) rs)" "(t, i, nm) \<in> set rs"
  shows "fold (\<lambda>r. place (fst (snd r)) (snd (snd r))) rs ns ! i = nm"
  using assms
proof (induction rs arbitrary: ns)
  case (Cons a rs)
  show ?case
  proof (cases "a = (t, i, nm)")
    case True
    have "i \<notin> (\<lambda>r. fst (snd r)) ` set rs" using Cons.prems(1) True by auto
    moreover have "i < length (place i nm ns)" by simp
    ultimately show ?thesis
      using fold_place_keep [of i "place i nm ns" rs] place_nth [of i i nm ns] True
      by (simp del: place_length)
  qed (use Cons in auto)
qed simp

text \<open>The base loop numbers the slots consecutively.\<close>

lemma base_loop_slots:
  assumes "base_loop d n cur = (0, d', c)" "distinct (map fst d)" "\<forall>e\<in>set d. 0 \<le> td_count (snd e)"
  shows "map fst d' = map fst d \<and> slots d' = slots d \<and> c = cur + int (length (slots d)) \<and>
    (\<forall>t. count_of d' t = count_of d t) \<and>
    (\<forall>k < length (slots d). \<exists>td. map_of d' (fst (slots d ! k)) = Some td \<and>
       td_base td + int (snd (slots d ! k)) = cur + int k \<and> int (snd (slots d ! k)) < td_count td)"
  using assms
proof (induction d n cur arbitrary: d' c rule: base_loop.induct)
  case (2 t td d n cur)
  obtain d0 where rest: "base_loop d n (cur + td_count td) = (0, d0, c)"
    and d': "d' = (t, td\<lparr>td_base := cur\<rparr>) # d0" and cnt: "td_count td = int (length (names_of n t))"
    using "2.prems"(1) by (auto split: if_splits prod.splits)
  note IH = "2.IH" [OF _ rest] and dist = "2.prems"(2)
  have ih: "map fst d0 = map fst d" "slots d0 = slots d" "c = cur + td_count td + int (length (slots d))"
    "\<forall>t. count_of d0 t = count_of d t"
    "\<And>k. k < length (slots d) \<Longrightarrow> \<exists>td'. map_of d0 (fst (slots d ! k)) = Some td' \<and>
       td_base td' + int (snd (slots d ! k)) = cur + td_count td + int k \<and>
       int (snd (slots d ! k)) < td_count td'"
    using IH cnt "2.prems"(2,3) by auto
  let ?m = "nat (td_count td)"
  have sl: "slots ((t, td) # d) = map (Pair t) [0..<?m] @ slots d" by (simp add: slots_def)
  have "\<exists>td'. map_of d' (fst (slots ((t, td) # d) ! k)) = Some td' \<and>
       td_base td' + int (snd (slots ((t, td) # d) ! k)) = cur + int k \<and>
       int (snd (slots ((t, td) # d) ! k)) < td_count td'"
    if k: "k < length (slots ((t, td) # d))" for k
  proof (cases "k < ?m")
    case True
    then show ?thesis by (auto simp: sl nth_append d')
  next
    case False
    then have k': "k - ?m < length (slots d)" "slots ((t, td) # d) ! k = slots d ! (k - ?m)"
      using k by (auto simp: sl nth_append)
    obtain td' where td': "map_of d0 (fst (slots d ! (k - ?m))) = Some td'"
      "td_base td' + int (snd (slots d ! (k - ?m))) = cur + td_count td + int (k - ?m)"
      "int (snd (slots d ! (k - ?m))) < td_count td'"
      using ih(5) [OF k'(1)] by blast
    have "fst (slots d ! (k - ?m)) \<noteq> t"
      using td'(1) ih(1) dist by (metis distinct.simps(2) dom_map_of_conv_image_fst domI list.map(2)
          list.set_map fst_conv)
    moreover have "cur + td_count td + int (k - ?m) = cur + int k" using False cnt by simp
    ultimately show ?thesis using td' k'(2) by (simp add: d')
  qed
  then show ?case using ih(1-4) cnt by (simp add: d' slots_def count_of_def)
qed (auto simp: slots_def)

lemma base_loop_names:
  assumes "base_loop d n cur = (0, d', c)" "cur = int (length ns)"
  shows "names_loop d' n ns = ns @ concat (map (\<lambda>e. names_of n (fst e)) d)"
  using assms
proof (induction d n cur arbitrary: d' c ns rule: base_loop.induct)
  case (2 t td d n cur)
  obtain d0 where rest: "base_loop d n (cur + td_count td) = (0, d0, c)"
    and d': "d' = (t, td\<lparr>td_base := cur\<rparr>) # d0" and cnt: "td_count td = int (length (names_of n t))"
    using "2.prems"(1) by (auto split: if_splits prod.splits)
  have "names_loop d0 n (ns @ names_of n t) =
      (ns @ names_of n t) @ concat (map (\<lambda>e. names_of n (fst e)) d)"
    using "2.IH" [OF _ rest] cnt "2.prems"(2) by simp
  then show ?case using "2.prems"(2) by (simp add: d' names_loop_def)
qed (simp add: names_loop_def)

lemma base_loop_ok:
  "(\<exists>d' c. base_loop d n cur = (0, d', c)) \<longleftrightarrow>
   (\<forall>e\<in>set d. td_count (snd e) = int (length (names_of n (fst e))))"
  by (induction d n cur rule: base_loop.induct) (auto split: prod.splits)

section \<open>The map a configuration gives\<close>

definition req_counts :: "(string \<times> nat \<times> string) list \<Rightarrow> (string \<times> tag_data) list" where
  "req_counts rs = fold count_entry rs []"

definition req_names :: "(string \<times> nat \<times> string) list \<Rightarrow> (string \<times> string list) list" where
  "req_names rs = fold name_entry rs []"

lemma req_counts_invar: "om_invar (req_counts rs)"
  unfolding req_counts_def by (rule omap.invar_fold) simp

lemma req_counts_keys: "fst ` set (req_counts rs) = fst ` set rs"
  using omap.keys_fold [of "[]" fst "\<lambda>_. add_count" rs] by (simp add: req_counts_def)

lemma req_counts_distinct: "distinct (map fst (req_counts rs))"
  using om_distinct req_counts_invar .

lemma req_counts_count [simp]: "count_of (req_counts rs) t = int (length (tag_reqs rs t))"
  using fold_add_count [of "[]" t 0 rs] by (simp add: req_counts_def count_of_def)

lemma req_names_names [simp]: "names_of (req_names rs) t = tag_names rs t"
  using fold_add_name [of "[]" rs t] by (simp add: req_names_def tag_names_def names_of_def)

lemma req_counts_entry:
  "e \<in> set (req_counts rs) \<Longrightarrow> td_count (snd e) = int (length (tag_reqs rs (fst e)))"
  using req_counts_count [of rs "fst e"] map_of_is_SomeI [OF req_counts_distinct, of "fst e" "snd e" rs]
  by (simp add: count_of_def)

lemma slots_set:
  assumes "distinct (map fst d)" "\<forall>e\<in>set d. 0 \<le> td_count (snd e)"
  shows "set (slots d) = {(t, i). int i < count_of d t}" "distinct (slots d)"
proof -
  have "(t, i) \<in> set (slots d) \<longleftrightarrow> (\<exists>td. (t, td) \<in> set d \<and> i < nat (td_count td))" for t i
    by (force simp: slots_def)
  then have "(t, i) \<in> set (slots d) \<longleftrightarrow> (\<exists>td. map_of d t = Some td \<and> i < nat (td_count td))" for t i
    using map_of_eq_Some_iff [OF assms(1)] by simp
  then have "(t, i) \<in> set (slots d) \<longleftrightarrow> int i < count_of d t" for t i
    by (auto simp: count_of_def split: option.splits)
  then show "set (slots d) = {(t, i). int i < count_of d t}" by auto
  show "distinct (slots d)" using assms(1)
    by (induction d) (auto simp: slots_def distinct_map inj_on_def image_iff)
qed

lemma NewTagMap_SomeD:
  assumes "NewTagMap fs = Inr (Some tm)"
  obtains es c where "parses_to fs es"
    "base_loop (req_counts (requests es)) (req_names (requests es)) 0 = (0, tm_data tm, tm_total tm)"
    "tm_names tm = names_loop (tm_data tm) (req_names (requests es)) []"
proof -
  obtain d n where p: "parse_loop fs [] [] = Inr (0, d, n)"
    and b: "base_loop d n 0 = (0, tm_data tm, tm_total tm)" "tm_names tm = names_loop (tm_data tm) n []"
    using assms by (auto simp: NewTagMap_def TagMap_Initialize_def bindE_Inr_iff split: if_splits prod.splits)
  obtain es where "parses_to fs es" "d = req_counts (requests es)" "n = req_names (requests es)"
    using parse_loop_parses [OF p, of "\<lambda>_. 0"]
    by (auto simp: count_of_def req_counts_def req_names_def requests_def)
  then show thesis using that b by blast
qed

lemma NewTagMap_SomeI:
  assumes "parses_to fs es" "\<forall>r\<in>set (requests es). fst (snd r) < 2147483647"
    "\<forall>t. length (tag_reqs (requests es) t) = length (tag_names (requests es) t)"
  shows "\<exists>tm. NewTagMap fs = Inr (Some tm)"
proof -
  have "parse_loop fs [] [] = Inr (0, req_counts (requests es), req_names (requests es))"
    using parse_loop_complete [OF assms(1), of "[]" "\<lambda>_. 0"] assms(2)
    by (simp add: count_of_def req_counts_def req_names_def requests_def)
  moreover obtain d c where "base_loop (req_counts (requests es)) (req_names (requests es)) 0 = (0, d, c)"
    using base_loop_ok [of "req_counts (requests es)" "req_names (requests es)" 0] assms(3)
    by (auto simp: req_counts_entry)
  ultimately show ?thesis by (simp add: NewTagMap_def TagMap_Initialize_def)
qed

lemma NewTagMap_lengths:
  assumes "base_loop (req_counts rs) (req_names rs) 0 = (0, d', c)"
  shows "length (tag_names rs t) = length (tag_reqs rs t)"
proof (cases "t \<in> fst ` set rs")
  case True
  then obtain td where "(t, td) \<in> set (req_counts rs)" using req_counts_keys by force
  then show ?thesis
    using base_loop_ok [of "req_counts rs" "req_names rs" 0] assms req_counts_entry by force
next
  case False
  then have "tag_reqs rs t = []" by (auto simp: tag_reqs_def filter_empty_conv)
  then show ?thesis by (simp add: tag_names_def)
qed

lemma slots_length_update:
  "\<forall>e\<in>set d. 0 \<le> td_count (snd e) \<Longrightarrow> length (slots (om_update t add_count d)) = Suc (length (slots d))"
  by (induction t add_count d rule: om_update.induct)
    (auto simp: slots_def add_count_def TagData0_def nat_add_distrib)

lemma req_counts_slots: "length (slots (req_counts rs)) = length rs"
proof (induction rs rule: rev_induct)
  case (snoc r rs)
  have "\<forall>e\<in>set (req_counts rs). 0 \<le> td_count (snd e)" by (simp add: req_counts_entry)
  then show ?case using slots_length_update snoc by (simp add: req_counts_def)
qed (simp add: req_counts_def slots_def)

lemma concat_names_slots:
  assumes "\<forall>e\<in>set d. td_count (snd e) = int (length (f (fst e)))"
  shows "concat (map (\<lambda>e. f (fst e)) d) = map (\<lambda>(t, i). f t ! i) (slots d)"
  using assms
proof (induction d)
  case (Cons e d)
  obtain t td where e: "e = (t, td)" by (cases e)
  have "map (\<lambda>i. f t ! i) [0..<length (f t)] = f t" by (rule map_nth)
  then show ?case using Cons by (simp add: e slots_def comp_def)
qed (simp add: slots_def)

lemma tag_map_layout:
  assumes "parses_to fs es" "rs = requests es"
    "base_loop (req_counts rs) (req_names rs) 0 = (0, tm_data tm, tm_total tm)"
    "tm_names tm = names_loop (tm_data tm) (req_names rs) []"
  shows "length rs = length fs" "NStreams tm = int (length rs)"
    "NStreams_tag tm t = int (length (tag_reqs rs t))"
    "Names tm = map (\<lambda>(t, i). tag_names rs t ! i) (slots (req_counts rs))"
    "k < length rs \<Longrightarrow>
      FindByTagIndex tm (fst (slots (req_counts rs) ! k)) (int (snd (slots (req_counts rs) ! k))) = int k"
proof -
  have pos: "\<forall>e\<in>set (req_counts rs). 0 \<le> td_count (snd e)" by (simp add: req_counts_entry)
  note base = base_loop_slots [OF assms(3) req_counts_distinct pos]
  show "length rs = length fs"
    using assms(1,2) by (simp add: requests_def parses_to_def) (metis length_map)
  show "NStreams tm = int (length rs)" using base by (simp add: NStreams_def req_counts_slots)
  show "NStreams_tag tm t = int (length (tag_reqs rs t))" using base by (simp add: NStreams_tag_def)
  show "Names tm = map (\<lambda>(t, i). tag_names rs t ! i) (slots (req_counts rs))"
    using base_loop_names [OF assms(3), of "[]"] assms(4) NewTagMap_lengths [OF assms(3)]
      concat_names_slots [of "req_counts rs" "tag_names rs"]
    by (simp add: Names_def req_counts_entry)
  show "FindByTagIndex tm (fst (slots (req_counts rs) ! k)) (int (snd (slots (req_counts rs) ! k))) = int k"
    if "k < length rs"
    using base that by (auto simp: FindByTagIndex_def req_counts_slots)
qed

lemma slot_number:
  assumes "int i < int (length (tag_reqs rs t))"
  obtains k where "k < length rs" "slots (req_counts rs) ! k = (t, i)"
proof -
  have "(t, i) \<in> set (slots (req_counts rs))"
    using slots_set(1) [OF req_counts_distinct, of rs] assms by (simp add: req_counts_entry)
  then show thesis using that by (auto simp: in_set_conv_nth req_counts_slots)
qed

lemma tag_map_bij:
  assumes "NewTagMap fs = Inr (Some tm)"
  shows "NStreams tm = int (length fs) \<and> length (Names tm) = length fs \<and>
    bij_betw (\<lambda>(t, i). FindByTagIndex tm t (int i)) {(t, i). int i < NStreams_tag tm t}
      {0 ..< NStreams tm}"
proof -
  obtain es where p: "parses_to fs es"
    "base_loop (req_counts (requests es)) (req_names (requests es)) 0 = (0, tm_data tm, tm_total tm)"
    "tm_names tm = names_loop (tm_data tm) (req_names (requests es)) []"
    using NewTagMap_SomeD [OF assms] by metis
  let ?rs = "requests es" and ?f = "\<lambda>(t, i). FindByTagIndex tm t (int i)"
  let ?S = "slots (req_counts ?rs)"
  note lay = tag_map_layout [OF p(1) refl p(2,3)]
  have S: "set ?S = {(t, i). int i < NStreams_tag tm t}" "distinct ?S"
    using slots_set [OF req_counts_distinct, of ?rs] lay(3) by (simp_all add: req_counts_entry)
  have nth: "?f (?S ! k) = int k" if "k < length ?S" for k
    using lay(5) [of k] that by (cases "?S ! k") (simp add: req_counts_slots)
  have "map ?f ?S = map int [0..<length ?S]" by (rule nth_equalityI) (simp_all add: nth)
  then have img: "?f ` set ?S = int ` {0..<length ?S}"
    and inj: "inj_on ?f (set ?S)"
    using S(2) by (metis set_map set_upt, metis distinct_map distinct_upt inj_on_of_nat)
  have "int ` {0..<length ?S} = {0 ..< NStreams tm}"
    using lay(2) by (simp add: req_counts_slots image_int_atLeastLessThan)
  with img have "?f ` set ?S = {0 ..< NStreams tm}" by simp
  then show ?thesis using lay(1,2,4) S inj by (simp add: bij_betw_def req_counts_slots)
qed

text \<open>C14: a tag map that is built numbers its streams without gap or overlap: there are as many
  streams and names as configured strings, and \<open>FindByTagIndex\<close> is a bijection from the pairs of
  a tag and an index below the tag's count onto the slots.\<close>

theorem NewTagMap_slots:
  assumes "NewTagMap fs = Inr (Some tm)"
  shows "NStreams tm = int (length fs) \<and> length (Names tm) = length fs \<and>
    bij_betw (\<lambda>(t, i). FindByTagIndex tm t (int i)) {(t, i). int i < NStreams_tag tm t}
      {0 ..< NStreams tm}"
  by (rule tag_map_bij [OF assms])

theorem NewTagMap_slots_witness:
  "\<exists>tm. NewTagMap [''B:1:y'', ''x'', ''B:0:z''] = Inr (Some tm) \<and> NStreams tm = 3 \<and>
     map (\<lambda>(t, i). FindByTagIndex tm t i) [('''', 0), (''B'', 0), (''B'', 1)] = [0, 1, 2] \<and>
     Names tm = [''x'', ''z'', ''y'']"
proof -
  define tm where "tm = (case NewTagMap [''B:1:y'', ''x'', ''B:0:z''] of Inr (Some tm) \<Rightarrow> tm
    | _ \<Rightarrow> \<lparr>tm_data = [], tm_names = [], tm_total = 0\<rparr>)"
  have ok: "NewTagMap [''B:1:y'', ''x'', ''B:0:z''] = Inr (Some tm)"
    and names: "Names tm = [''x'', ''z'', ''y'']"
    and slot: "map (\<lambda>(t, i). FindByTagIndex tm t i) [('''', 0), (''B'', 0), (''B'', 1)] = [0, 1, 2]"
    unfolding tm_def by code_simp+
  then show ?thesis using NewTagMap_slots [OF ok] by auto
qed

lemma parses_to_unique: "parses_to fs es \<Longrightarrow> parses_to fs es' \<Longrightarrow> es = es'"
proof (induction fs arbitrary: es es')
  case (Cons f fs)
  then show ?case by (cases es; cases es') (auto simp: parses_to_def)
qed simp

lemma tag_reqs_distinct:
  "distinct (map req_slot rs) \<Longrightarrow> distinct (map (\<lambda>r. fst (snd r)) (tag_reqs rs t))"
  by (induction rs) (force simp: tag_reqs_def req_slot_def)+

lemma tag_reqs_mem: "(t, i, nm) \<in> set rs \<Longrightarrow> (t, i, nm) \<in> set (tag_reqs rs t)"
  by (simp add: tag_reqs_def)

lemma tag_names_length_iff:
  assumes "distinct (map req_slot rs)"
  shows "length (tag_names rs t) = length (tag_reqs rs t) \<longleftrightarrow>
    (\<forall>r\<in>set (tag_reqs rs t). fst (snd r) < length (tag_reqs rs t))" (is "?l \<longleftrightarrow> ?r")
proof
  assume ?l
  then show ?r using fold_place_in [of _ "tag_reqs rs t" "[]"] by (simp add: tag_names_def)
next
  assume ?r
  then have "length (tag_names rs t) \<le> length (tag_reqs rs t)"
    using fold_place_bound [of "tag_reqs rs t" "length (tag_reqs rs t)" "[]"]
    by (simp add: tag_names_def)
  moreover have "(\<lambda>r. fst (snd r)) ` set (tag_reqs rs t) \<subseteq> {..<length (tag_names rs t)}"
    using fold_place_in [of _ "tag_reqs rs t" "[]"] by (auto simp: tag_names_def)
  then have "length (tag_reqs rs t) \<le> length (tag_names rs t)"
    using distinct_card [OF tag_reqs_distinct [OF assms, of t]]
      card_mono [of "{..<length (tag_names rs t)}" "(\<lambda>r. fst (snd r)) ` set (tag_reqs rs t)"] by simp
  ultimately show ?l by simp
qed

text \<open>C17: in a tag map that is built from strings that ask for distinct slots, the name of every
  string stands at the slot of its tag and index.\<close>

theorem NewTagMap_lookup:
  assumes "NewTagMap fs = Inr (Some tm)" "parses_to fs es" "distinct (map req_slot (requests es))"
    and "(t, i, name) \<in> set (requests es)"
  shows "0 \<le> FindByTagIndex tm t (int i) \<and> FindByTagIndex tm t (int i) < NStreams tm \<and>
    Names tm ! nat (FindByTagIndex tm t (int i)) = name"
proof -
  let ?rs = "requests es"
  obtain p: "base_loop (req_counts ?rs) (req_names ?rs) 0 = (0, tm_data tm, tm_total tm)"
    "tm_names tm = names_loop (tm_data tm) (req_names ?rs) []"
    using NewTagMap_SomeD [OF assms(1)] parses_to_unique [OF assms(2)] by metis
  note lay = tag_map_layout [OF assms(2) refl p] and mem = tag_reqs_mem [OF assms(4)]
  have "i < length (tag_reqs ?rs t)"
    using NewTagMap_lengths [OF p(1)] fold_place_in [OF mem, of "[]"] by (simp add: tag_names_def)
  then obtain k where k: "k < length ?rs" "slots (req_counts ?rs) ! k = (t, i)"
    using slot_number by (metis of_nat_less_iff)
  have "FindByTagIndex tm t (int i) = int k" using lay(5) [OF k(1)] k(2) by simp
  moreover have "Names tm ! k = tag_names ?rs t ! i" using lay(4) k by (simp add: req_counts_slots)
  moreover have "tag_names ?rs t ! i = name"
    using fold_place_nth [OF tag_reqs_distinct [OF assms(3)] mem] by (simp add: tag_names_def)
  ultimately show ?thesis using k(1) lay(2) by simp
qed

theorem NewTagMap_lookup_witness:
  "\<exists>tm. NewTagMap [''B:1:y'', ''x'', ''B:0:z''] = Inr (Some tm) \<and>
     Names tm ! nat (FindByTagIndex tm ''B'' 1) = ''y''"
proof -
  define tm where "tm = (case NewTagMap [''B:1:y'', ''x'', ''B:0:z''] of Inr (Some tm) \<Rightarrow> tm
    | _ \<Rightarrow> \<lparr>tm_data = [], tm_names = [], tm_total = 0\<rparr>)"
  let ?es = "[(''B'', 1, ''y''), ('''', - 1, ''x''), (''B'', 0, ''z'')]"
  have ok: "NewTagMap [''B:1:y'', ''x'', ''B:0:z''] = Inr (Some tm)" unfolding tm_def by code_simp
  have es: "parses_to [''B:1:y'', ''x'', ''B:0:z''] ?es" "distinct (map req_slot (requests ?es))"
    by code_simp+
  have "(''B'', 1, ''y'') \<in> set (requests ?es)" by code_simp
  then show ?thesis using NewTagMap_lookup [OF ok es, of "''B''" 1 "''y''"] ok by auto
qed

text \<open>Strings that ask for distinct slots are accepted exactly if the indices of every tag
  are below the number of its strings, that is, if they are numbered from 0 without gap.\<close>

lemma NewTagMap_accepts:
  assumes "parses_to fs es" "distinct (map req_slot (requests es))" "length fs < 2147483647"
  shows "(\<exists>tm. NewTagMap fs = Inr (Some tm)) \<longleftrightarrow>
    (\<forall>r\<in>set (requests es). fst (snd r) < length (filter (\<lambda>q. fst q = fst r) (requests es)))"
    (is "?ok \<longleftrightarrow> ?dense")
proof
  let ?rs = "requests es"
  assume ?ok
  then obtain tm where tm: "NewTagMap fs = Inr (Some tm)" ..
  obtain "base_loop (req_counts ?rs) (req_names ?rs) 0 = (0, tm_data tm, tm_total tm)"
    using NewTagMap_SomeD [OF tm] parses_to_unique [OF assms(1)] by metis
  from NewTagMap_lengths [OF this] have len: "length (tag_names ?rs t) = length (tag_reqs ?rs t)" for t .
  show ?dense
  proof
    fix r assume "r \<in> set ?rs"
    then have "r \<in> set (tag_reqs ?rs (fst r))" by (simp add: tag_reqs_def)
    then show "fst (snd r) < length (filter (\<lambda>q. fst q = fst r) ?rs)"
      using tag_names_length_iff [OF assms(2)] len by (fastforce simp: tag_reqs_def)
  qed
next
  let ?rs = "requests es"
  assume d: ?dense
  then have "\<forall>r\<in>set (tag_reqs ?rs t). fst (snd r) < length (tag_reqs ?rs t)" for t
    by (auto simp: tag_reqs_def)
  then have "length (tag_reqs ?rs t) = length (tag_names ?rs t)" for t
    using tag_names_length_iff [OF assms(2), of t] by auto
  moreover have "length ?rs = length fs"
    using assms(1) by (simp add: requests_def parses_to_def) (metis length_map)
  then have "\<forall>r\<in>set ?rs. fst (snd r) < 2147483647"
    using d assms(3) by (metis (no_types, lifting) length_filter_le order_less_le_trans less_trans)
  ultimately show ?ok using NewTagMap_SomeI [OF assms(1)] by blast
qed

lemma NewTagMap_accepts_example:
  "parses_to [''B:1:y'', ''x'', ''B:2:z''] [(''B'', 1, ''y''), ('''', - 1, ''x''), (''B'', 2, ''z'')] \<and>
   \<not> (\<exists>tm. NewTagMap [''B:1:y'', ''x'', ''B:2:z''] = Inr (Some tm)) \<and>
   (\<exists>tm. NewTagMap [''B:1:y'', ''x'', ''B:0:z''] = Inr (Some tm))"
proof -
  let ?es = "\<lambda>i. [(''B'', 1, ''y''), ('''', - 1, ''x''), (''B'', i, ''z'')]"
  have 1: "parses_to [''B:1:y'', ''x'', ''B:2:z''] (?es 2)" "distinct (map req_slot (requests (?es 2)))"
    and 2: "parses_to [''B:1:y'', ''x'', ''B:0:z''] (?es 0)" "distinct (map req_slot (requests (?es 0)))"
    by code_simp+
  have "\<not> (\<forall>r\<in>set (requests (?es 2)). fst (snd r) < length (filter (\<lambda>q. fst q = fst r) (requests (?es 2))))"
    "\<forall>r\<in>set (requests (?es 0)). fst (snd r) < length (filter (\<lambda>q. fst q = fst r) (requests (?es 0)))"
    by code_simp+
  then show ?thesis using NewTagMap_accepts [OF 1] NewTagMap_accepts [OF 2] 1(1) by simp
qed

end
