(* ===== verification/Handlers.thy ===== *)
theory Handlers
  imports Streams Tags
begin

text \<open>
  Collections of streams (\<open>collection.h\<close>), the context a task runs in (\<open>task_context.h\<close>) and
  the stream handlers: \<open>input_stream_handler.h/.cc\<close>, \<open>default_input_stream_handler.cc\<close>,
  \<open>output_stream_manager.h/.cc\<close>, \<open>output_stream_handler.cc\<close>, \<open>graph_output_stream.cc\<close>.
  A handler refers to input stream managers by pointer, and a mirror of an output stream
  refers to a handler by pointer: managers live in a store indexed by addresses, handlers and
  output stream managers in tables, all three in the record \<open>net\<close>. A null or dangling
  pointer that is followed gives \<open>Inl Undefined\<close>.
\<close>

section \<open>Collections\<close>

record 'a collection =
  c_tags :: tag_map
  c_data :: "'a list"

definition Collection :: "'a \<Rightarrow> tag_map \<Rightarrow> 'a collection" where
  "Collection z tm = \<lparr>c_tags = tm, c_data = (if NStreams tm \<noteq> 0 then replicate (nat (NStreams tm)) z else [])\<rparr>"

definition Slot :: "'a collection \<Rightarrow> string \<Rightarrow> int \<Rightarrow> int" where
  "Slot c tag index = FindByTagIndex (c_tags c) tag index"

definition c_size :: "'a collection \<Rightarrow> int" where
  "c_size c = NStreams (c_tags c)"

definition c_at :: "'a collection \<Rightarrow> int \<Rightarrow> 'a outcome" where
  "c_at c n = (if 0 \<le> n \<and> n < int (length (c_data c)) then Inr (c_data c ! nat n) else Inl Undefined)"

definition c_put :: "'a collection \<Rightarrow> int \<Rightarrow> 'a \<Rightarrow> 'a collection" where
  "c_put c n x = c\<lparr>c_data := (c_data c)[nat n := x]\<rparr>"

definition Get :: "'a collection \<Rightarrow> string \<Rightarrow> int \<Rightarrow> 'a outcome" where
  "Get c tag index = (let idx = Slot c tag index in if idx < 0 then Inl Aborted else c_at c idx)"

text \<open>Writing through the reference \<open>Get\<close> returns.\<close>

definition Modify :: "'a collection \<Rightarrow> string \<Rightarrow> int \<Rightarrow> ('a \<Rightarrow> 'a) \<Rightarrow> 'a collection outcome" where
  "Modify c tag index f = bindE (Get c tag index) (\<lambda>x. Inr (c_put c (Slot c tag index) (f x)))"

definition Tag :: "'a collection \<Rightarrow> string \<Rightarrow> 'a outcome" where
  "Tag c tag = Get c tag 0"

definition Index :: "'a collection \<Rightarrow> int \<Rightarrow> 'a outcome" where
  "Index c index = Get c [] index"

section \<open>Task context\<close>

record 'v task_context =
  ctx_inputs :: "'v input_stream collection"
  ctx_outputs :: "'v output_stream collection"
  ctx_timestamps :: "int list"

definition TaskContext :: "tag_map \<Rightarrow> tag_map \<Rightarrow> 'v task_context" where
  "TaskContext itm otm = \<lparr>ctx_inputs = Collection InputStream0 itm,
     ctx_outputs = Collection OutputStream0 otm, ctx_timestamps = []\<rparr>"

definition PushTimestamp :: "int \<Rightarrow> 'v task_context \<Rightarrow> 'v task_context" where
  "PushTimestamp ts ctx = ctx\<lparr>ctx_timestamps := ctx_timestamps ctx @ [ts]\<rparr>"

definition PopTimestamp :: "'v task_context \<Rightarrow> 'v task_context" where
  "PopTimestamp ctx = (if ctx_timestamps ctx = [] then ctx else ctx\<lparr>ctx_timestamps := tl (ctx_timestamps ctx)\<rparr>)"

definition NextTimestamp :: "'v task_context \<Rightarrow> int" where
  "NextTimestamp ctx = (if ctx_timestamps ctx = [] then kCtimeMin else hd (ctx_timestamps ctx))"

section \<open>Stores\<close>

datatype ish_ref = Node_ISH nat | Output_ISH nat

text \<open>An input stream handler: its managers by address (\<open>None\<close> is null) and the sync set of
  the default handler, the only kind that is built.\<close>

record ish =
  ish_managers :: "nat option list"
  ss_ids :: "int list"
  ss_last_processed :: int

record osm =
  osm_name :: string
  osm_mirrors :: "(ish_ref \<times> int) list"

record 'v net =
  net_ism :: "nat \<Rightarrow> 'v ism"
  net_ish :: "ish_ref \<Rightarrow> ish"
  net_osm :: "nat \<Rightarrow> osm"

definition ptr_at :: "'p option list \<Rightarrow> int \<Rightarrow> 'p outcome" where
  "ptr_at ps i = (if 0 \<le> i \<and> i < int (length ps) then
      (case ps ! nat i of None \<Rightarrow> Inl Undefined | Some a \<Rightarrow> Inr a) else Inl Undefined)"

definition ptr_deref :: "'p option \<Rightarrow> 'p outcome" where
  "ptr_deref p = (case p of None \<Rightarrow> Inl Undefined | Some a \<Rightarrow> Inr a)"

definition upd_ism :: "nat \<Rightarrow> ('v ism \<Rightarrow> 'v ism) \<Rightarrow> 'v net \<Rightarrow> 'v net" where
  "upd_ism a f net = net\<lparr>net_ism := (net_ism net)(a := f (net_ism net a))\<rparr>"

lemma upd_ism_simps [simp]:
  "net_ism (upd_ism a f net) = (net_ism net)(a := f (net_ism net a))"
  "net_ish (upd_ism a f net) = net_ish net" "net_osm (upd_ism a f net) = net_osm net"
  by (simp_all add: upd_ism_def)

section \<open>Input stream handlers\<close>

definition GetIds :: "int list" where
  "GetIds = []"

definition DefaultInputStreamHandler :: "tag_map \<Rightarrow> ish" where
  "DefaultInputStreamHandler tm =
     \<lparr>ish_managers = replicate (nat (NStreams tm)) None, ss_ids = GetIds, ss_last_processed = 0\<rparr>"

text \<open>\<open>InitializeInputStreamManagers(&managers[base])\<close>.\<close>

definition InitializeInputStreamManagers :: "nat \<Rightarrow> ish \<Rightarrow> ish" where
  "InitializeInputStreamManagers base h =
     h\<lparr>ish_managers := map (\<lambda>i. Some (base + i)) [0..<length (ish_managers h)]\<rparr>"

definition SetupInputStreams :: "'v net \<Rightarrow> ish \<Rightarrow> 'v input_stream collection \<Rightarrow> 'v input_stream collection outcome" where
  "SetupInputStreams net h inputs =
     foldE (\<lambda>i c. bindE (ptr_at (ish_managers h) i) (\<lambda>a. bindE (c_at c i) (\<lambda>s.
         Inr (c_put c i (is_SetName (ism_name (net_ism net a)) s)))))
       (map int [0..<length (ish_managers h)]) inputs"

definition ish_each :: "('v ism \<Rightarrow> 'v ism) \<Rightarrow> ish \<Rightarrow> 'v net \<Rightarrow> 'v net outcome" where
  "ish_each f h net = foldE (\<lambda>p net. bindE (ptr_deref p) (\<lambda>a. Inr (upd_ism a f net))) (ish_managers h) net"

definition ish_PrepareForRun :: "ish \<Rightarrow> 'v net \<Rightarrow> 'v net outcome" where
  "ish_PrepareForRun h net = ish_each ism_PrepareForRun h net"

definition ish_Close :: "ish \<Rightarrow> 'v net \<Rightarrow> 'v net outcome" where
  "ish_Close h net = ish_each ism_Close h net"

definition ish_AddData :: "ish \<Rightarrow> int \<Rightarrow> 'v datum list \<Rightarrow> 'v net \<Rightarrow> 'v net outcome" where
  "ish_AddData h idx data net = bindE (ptr_at (ish_managers h) idx) (\<lambda>a. Inr (upd_ism a (ism_AddData data) net))"

definition ish_MoveData :: "ish \<Rightarrow> int \<Rightarrow> 'v datum list \<Rightarrow> 'v net \<Rightarrow> ('v datum list \<times> 'v net) outcome" where
  "ish_MoveData h idx data net = bindE (ptr_at (ish_managers h) idx) (\<lambda>a.
     Inr (fst (ism_MoveData data (net_ism net a)), upd_ism a (\<lambda>m. snd (ism_MoveData data m)) net))"

definition ish_SetNextTimestampBound :: "ish \<Rightarrow> int \<Rightarrow> int \<Rightarrow> 'v net \<Rightarrow> 'v net outcome" where
  "ish_SetNextTimestampBound h idx ts net =
     bindE (ptr_at (ish_managers h) idx) (\<lambda>a. Inr (upd_ism a (ism_SetNextTimestampBound ts) net))"

datatype readiness = kNotReady | kReadyForProcess | kReadyForClose

definition ss_PrepareForRun :: "ish \<Rightarrow> ish" where
  "ss_PrepareForRun h = h\<lparr>ss_last_processed := kCtimeMin\<rparr>"

definition ss_bounds :: "'v net \<Rightarrow> ish \<Rightarrow> (int \<times> int) outcome" where
  "ss_bounds net h = foldE (\<lambda>idx (min_bound, min_datum). bindE (ptr_at (ish_managers h) idx) (\<lambda>a.
       let cur = ism_NextTimestampOrBound (net_ism net a) in
       if ism_IsEmpty (net_ism net a) then Inr (min cur min_bound, min_datum)
       else Inr (min_bound, min cur min_datum)))
     (ss_ids h) (kCtimeMax, kCtimeMax)"

definition ss_GetReadiness :: "'v net \<Rightarrow> ish \<Rightarrow> (readiness \<times> int \<times> ish) outcome" where
  "ss_GetReadiness net h = bindE (ss_bounds net h) (\<lambda>(min_bound, min_datum).
     let ts = min min_bound min_datum in
     if ts \<ge> TimestampEnd then Inr (kReadyForClose, kCtimeMax, h\<lparr>ss_last_processed := TimestampEnd\<rparr>)
     else if min_bound > min_datum then Inr (kReadyForProcess, ts, h\<lparr>ss_last_processed := ts\<rparr>)
     else Inr (kNotReady, ts, h))"

text \<open>\<open>InputStreamHandler::Process\<close>: result, the bound it leaves, the handler and the context.\<close>

definition ish_Process ::
  "'v net \<Rightarrow> ish \<Rightarrow> int \<Rightarrow> 'v task_context \<Rightarrow> (bool \<times> int \<times> ish \<times> 'v task_context) outcome" where
  "ish_Process net h bound ctx =
     (if ish_managers h = [] then Inr (True, bound, h, ctx)
      else bindE (ss_GetReadiness net h) (\<lambda>(r, ts, h'). case r of
          kNotReady \<Rightarrow> Inr (True, ts, h', ctx)
        | kReadyForProcess \<Rightarrow> Inr (True, bound, h', PushTimestamp ts ctx)
        | kReadyForClose \<Rightarrow> Inr (False, bound, h', ctx)))"

definition ish_PostProcess :: "'v task_context \<Rightarrow> 'v task_context" where
  "ish_PostProcess ctx = (let ctx = PopTimestamp ctx in
     ctx\<lparr>ctx_inputs := (ctx_inputs ctx)\<lparr>c_data := map is_Clear (c_data (ctx_inputs ctx))\<rparr>\<rparr>)"

definition marshal :: "'v input_stream \<Rightarrow> 'v datum \<Rightarrow> bool \<Rightarrow> 'v input_stream" where
  "marshal s d done_flag = is_AddDatum d done_flag s"

definition SyncAt :: "ish \<Rightarrow> int \<Rightarrow> 'v input_stream collection \<times> 'v net \<Rightarrow> ('v input_stream collection \<times> 'v net) outcome" where
  "SyncAt h ts st = foldE (\<lambda>i (c, net). bindE (ptr_at (ish_managers h) i) (\<lambda>a.
       case ism_PopAt ts 0 (net_ism net a) of (d, n, done_flag, m') \<Rightarrow>
         bindE (c_at c i) (\<lambda>s. Inr (c_put c i (marshal s d done_flag), upd_ism a (\<lambda>_. m') net))))
     (map int [0..<nat (c_size (fst st))]) st"

function sync_loop :: "int \<Rightarrow> 'v ism \<Rightarrow> 'v input_stream \<Rightarrow> 'v ism \<times> 'v input_stream" where
  "sync_loop ts m s =
     (if ism_IsEmpty m then (m, s)
      else case ism_Pop False m of (d, done_flag, m') \<Rightarrow>
        if done_flag then (m', s)
        else sync_loop ts m' (marshal s (At (ts_wrap (ts - 1)) d) done_flag))"
  by pat_completeness auto

termination
  by (relation "measure (\<lambda>(ts, m, s). length (ism_queue m))")
    (auto simp: ism_IsEmpty_def ism_Pop_def Let_def)

declare sync_loop.simps [simp del]

definition sync_step :: "ish \<Rightarrow> int \<Rightarrow> 'v input_stream collection \<times> 'v net \<Rightarrow> ('v input_stream collection \<times> 'v net) outcome" where
  "sync_step h i = (\<lambda>(c, net). bindE (ptr_at (ish_managers h) i) (\<lambda>a. bindE (c_at c i) (\<lambda>s.
       case sync_loop (ism_NextTimestampOrBound (net_ism net a)) (net_ism net a) s of
         (m', s') \<Rightarrow> Inr (c_put c i s', upd_ism a (\<lambda>_. m') net))))"

definition Sync :: "ish \<Rightarrow> 'v input_stream collection \<times> 'v net \<Rightarrow> ('v input_stream collection \<times> 'v net) outcome" where
  "Sync h st = foldE (sync_step h) (map int [0..<nat (c_size (fst st))]) st"

definition Marshal :: "ish \<Rightarrow> 'v input_stream collection \<times> 'v net \<Rightarrow> ('v input_stream collection \<times> 'v net) outcome" where
  "Marshal h st = Sync h st"

section \<open>Output stream managers and handlers\<close>

definition osm_Initialize :: "string \<Rightarrow> osm \<Rightarrow> osm" where
  "osm_Initialize n m = m\<lparr>osm_name := n\<rparr>"

definition AddMirror :: "ish_ref \<Rightarrow> int \<Rightarrow> osm \<Rightarrow> osm" where
  "AddMirror r i m = m\<lparr>osm_mirrors := osm_mirrors m @ [(r, i)]\<rparr>"

definition upd_osm :: "nat \<Rightarrow> (osm \<Rightarrow> osm) \<Rightarrow> 'v net \<Rightarrow> 'v net" where
  "upd_osm a f net = net\<lparr>net_osm := (net_osm net)(a := f (net_osm net a))\<rparr>"

definition upd_ish :: "ish_ref \<Rightarrow> (ish \<Rightarrow> ish) \<Rightarrow> 'v net \<Rightarrow> 'v net" where
  "upd_ish r f net = net\<lparr>net_ish := (net_ish net)(r := f (net_ish net r))\<rparr>"

lemma upd_osm_simps [simp]:
  "net_osm (upd_osm a g net) = (net_osm net)(a := g (net_osm net a))"
  "net_ish (upd_osm a g net) = net_ish net" "net_ism (upd_osm a g net) = net_ism net"
  "net_ish (upd_ish r f net) = (net_ish net)(r := f (net_ish net r))"
  "net_ism (upd_ish r f net) = net_ism net" "net_osm (upd_ish r f net) = net_osm net"
  by (simp_all add: upd_osm_def upd_ish_def)

record osh =
  osh_managers :: "nat option list"

definition OutputStreamHandler :: "tag_map \<Rightarrow> osh" where
  "OutputStreamHandler tm = \<lparr>osh_managers = replicate (nat (NStreams tm)) None\<rparr>"

definition InitializeOutputStreamManagers :: "nat \<Rightarrow> osh \<Rightarrow> osh" where
  "InitializeOutputStreamManagers base h =
     h\<lparr>osh_managers := map (\<lambda>i. Some (base + i)) [0..<length (osh_managers h)]\<rparr>"

definition SetupOutputStreams :: "'v net \<Rightarrow> osh \<Rightarrow> 'v output_stream collection \<Rightarrow> 'v output_stream collection outcome" where
  "SetupOutputStreams net h outputs =
     foldE (\<lambda>i c. bindE (ptr_at (osh_managers h) i) (\<lambda>a. bindE (c_at c i) (\<lambda>s.
         Inr (c_put c i (os_SetSpec (osm_name (net_osm net a)) s)))))
       (map int [0..<length (osh_managers h)]) outputs"

text \<open>The loop over the mirrors of one stream: every mirror but the last gets a copy, the last
  gets the data moved; the moved list is cleared by the caller.\<close>

fun send_mirrors :: "(ish_ref \<times> int) list \<Rightarrow> 'v datum list \<Rightarrow> 'v net \<Rightarrow> ('v datum list \<times> 'v net) outcome" where
  "send_mirrors [] data net = Inr (data, net)"
| "send_mirrors [(r, i)] data net = ish_MoveData (net_ish net r) i data net"
| "send_mirrors ((r, i) # m # ms) data net =
     bindE (ish_AddData (net_ish net r) i data net) (send_mirrors (m # ms) data)"

definition propagate_stream ::
  "osh \<Rightarrow> int \<Rightarrow> 'v output_stream collection \<times> 'v net \<Rightarrow> ('v output_stream collection \<times> 'v net) outcome" where
  "propagate_stream h i = (\<lambda>(c, net).
     bindE (ptr_at (osh_managers h) i) (\<lambda>a. bindE (c_at c i) (\<lambda>s.
       bindE (send_mirrors (osm_mirrors (net_osm net a)) (os_queue s) net) (\<lambda>(data, net').
         Inr (c_put c i (s\<lparr>os_queue := []\<rparr>), net')))))"

definition osh_Propagate ::
  "osh \<Rightarrow> 'v output_stream collection \<times> 'v net \<Rightarrow> ('v output_stream collection \<times> 'v net) outcome" where
  "osh_Propagate h st = foldE (propagate_stream h) (map int [0..<nat (c_size (fst st))]) st"

definition osh_PostProcess :: "osh \<Rightarrow> 'v task_context \<times> 'v net \<Rightarrow> ('v task_context \<times> 'v net) outcome" where
  "osh_PostProcess h = (\<lambda>(ctx, net). bindE (osh_Propagate h (ctx_outputs ctx, net))
     (\<lambda>(c, net'). Inr (ctx\<lparr>ctx_outputs := c\<rparr>, net')))"

section \<open>Graph output streams\<close>

record gos =
  gos_ish :: "ish_ref option"
  gos_ism :: "nat option"

text \<open>\<open>GraphOutputStream::Initialize\<close>, with the address of the manager and the reference of
  the handler it allocates; both pointers stay null when the name is not accepted.\<close>

definition gos_Initialize :: "string \<Rightarrow> nat \<Rightarrow> nat \<Rightarrow> nat \<Rightarrow> 'v net \<Rightarrow> (int \<times> gos \<times> 'v net) outcome" where
  "gos_Initialize name osm k addr net =
     bindE (NewTagMap [name]) (\<lambda>tm. case tm of
         None \<Rightarrow> Inr (- 1, \<lparr>gos_ish = None, gos_ism = None\<rparr>, net)
       | Some tm \<Rightarrow>
           let net1 = upd_ish (Output_ISH k)
                 (\<lambda>_. InitializeInputStreamManagers addr
                    \<lparr>ish_managers = replicate (nat (NStreams tm)) None, ss_ids = [], ss_last_processed = 0\<rparr>) net;
               net2 = upd_ism addr (\<lambda>_. ism_Initialize name ISM0) net1
           in Inr (0, \<lparr>gos_ish = Some (Output_ISH k), gos_ism = Some addr\<rparr>, upd_osm osm (AddMirror (Output_ISH k) 0) net2))"

definition gos_PrepareForRun :: "gos \<Rightarrow> 'v net \<Rightarrow> 'v net outcome" where
  "gos_PrepareForRun g net = bindE (ptr_deref (gos_ish g)) (\<lambda>r. ish_PrepareForRun (net_ish net r) net)"

definition gos_Close :: "gos \<Rightarrow> 'v net \<Rightarrow> 'v net outcome" where
  "gos_Close g net = bindE (ptr_deref (gos_ism g)) (\<lambda>a. Inr (upd_ism a ism_Close net))"

definition gos_Name :: "'v net \<Rightarrow> gos \<Rightarrow> string outcome" where
  "gos_Name net g = bindE (ptr_deref (gos_ism g)) (\<lambda>a. Inr (ism_name (net_ism net a)))"

definition gos_Head :: "'v net \<Rightarrow> gos \<Rightarrow> 'v datum outcome" where
  "gos_Head net g = bindE (ptr_deref (gos_ism g)) (\<lambda>a. Inr (ism_Head (net_ism net a)))"

definition gos_Clear :: "gos \<Rightarrow> 'v net \<Rightarrow> 'v net outcome" where
  "gos_Clear g net = bindE (ptr_deref (gos_ism g)) (\<lambda>a. Inr (upd_ism a ism_Clear net))"

section \<open>Delivery to mirrors\<close>

text \<open>The contract of a delivery: it reaches one inbox, appends there, and moves no mirror.\<close>

locale mirror_delivery =
  fixes deliver :: "'m \<Rightarrow> 'd list \<Rightarrow> 'n \<Rightarrow> 'n outcome"
    and inbox :: "'n \<Rightarrow> 'a \<Rightarrow> 'd list"
    and target :: "'n \<Rightarrow> 'm \<Rightarrow> 'a option"
  assumes deliver_ok: "target n m = Some a \<Longrightarrow> \<exists>n'. deliver m ds n = Inr n'"
    and deliver_inbox: "target n m = Some a \<Longrightarrow> deliver m ds n = Inr n' \<Longrightarrow>
      inbox n' b = inbox n b @ (if b = a then ds else [])"
    and deliver_target: "deliver m ds n = Inr n' \<Longrightarrow> target n' = target n"
begin

text \<open>A broadcast reaches every inbox as often as it has mirrors, in order and complete.\<close>

lemma broadcast_exact:
  assumes "\<forall>m\<in>set ms. target n m \<noteq> None"
  shows "\<exists>n'. foldE (\<lambda>m. deliver m ds) ms n = Inr n' \<and> target n' = target n \<and>
    (\<forall>b. inbox n' b = inbox n b @ concat (map (\<lambda>m. if target n m = Some b then ds else []) ms))"
  using assms
proof (induction ms arbitrary: n)
  case (Cons m ms)
  obtain a where a: "target n m = Some a" using Cons.prems by auto
  obtain n1 where n1: "deliver m ds n = Inr n1" using deliver_ok [OF a] by auto
  have t: "target n1 = target n" by (rule deliver_target [OF n1])
  have "\<forall>m\<in>set ms. target n1 m \<noteq> None" using Cons.prems t by simp
  then obtain n' where n': "foldE (\<lambda>m. deliver m ds) ms n1 = Inr n'" "target n' = target n1"
    "\<forall>b. inbox n' b = inbox n1 b @ concat (map (\<lambda>m. if target n1 m = Some b then ds else []) ms)"
    using Cons.IH by blast
  show ?case
    using n' t deliver_inbox [OF a n1] a by (intro exI [of _ n']) (simp add: n1)
qed simp

end

definition net_deliver :: "ish_ref \<times> int \<Rightarrow> 'v datum list \<Rightarrow> 'v net \<Rightarrow> 'v net outcome" where
  "net_deliver m ds net = ish_AddData (net_ish net (fst m)) (snd m) ds net"

definition net_inbox :: "'v net \<Rightarrow> nat \<Rightarrow> 'v datum list" where
  "net_inbox net a = ism_queue (net_ism net a)"

definition net_target :: "'v net \<Rightarrow> ish_ref \<times> int \<Rightarrow> nat option" where
  "net_target net m = (case ptr_at (ish_managers (net_ish net (fst m))) (snd m) of
     Inl _ \<Rightarrow> None | Inr a \<Rightarrow> Some a)"

lemma net_target_Some: "net_target net m = Some a \<longleftrightarrow> ptr_at (ish_managers (net_ish net (fst m))) (snd m) = Inr a"
  by (simp add: net_target_def split: sum.splits)

lemma net_deliver_Inr:
  "net_deliver m ds net = Inr net' \<longleftrightarrow> (\<exists>a. net_target net m = Some a \<and> net' = upd_ism a (ism_AddData ds) net)"
  by (auto simp: net_deliver_def ish_AddData_def net_target_Some bindE_Inr_iff)

lemma net_target_upd_ism [simp]: "net_target (upd_ism a f net) = net_target net"
  by (simp add: net_target_def fun_eq_iff)

interpretation mirrors: mirror_delivery net_deliver net_inbox net_target
  by unfold_locales (auto simp: net_deliver_Inr net_inbox_def)

lemma send_mirrors_broadcast:
  "send_mirrors ms data net = bindE (foldE (\<lambda>m. net_deliver m data) ms net) (\<lambda>n. Inr (data, n))"
proof (induction ms data net rule: send_mirrors.induct)
  case (2 r i data net)
  show ?case
    by (cases "ptr_at (ish_managers (net_ish net r)) i")
      (simp_all add: net_deliver_def ish_AddData_def ish_MoveData_def upd_ism_def)
next
  case (3 r i m ms data net)
  show ?case
    by (cases "ish_AddData (net_ish net r) i data net") (simp_all add: net_deliver_def 3)
qed simp

lemma foldE_deliver_frame:
  "foldE (\<lambda>m. net_deliver m ds) ms net = Inr net' \<Longrightarrow> net_osm net' = net_osm net \<and> net_ish net' = net_ish net"
  by (induction ms arbitrary: net) (auto simp: bindE_Inr_iff net_deliver_Inr)

definition mirrors_ok :: "'v net \<Rightarrow> nat \<Rightarrow> bool" where
  "mirrors_ok net a \<longleftrightarrow> (\<forall>m\<in>set (osm_mirrors (net_osm net a)). net_target net m \<noteq> None)"

text \<open>What reaches inbox \<open>b\<close> when the stream of manager \<open>a\<close> propagates \<open>ds\<close>.\<close>

definition mirrored :: "'v net \<Rightarrow> nat \<Rightarrow> 'v datum list \<Rightarrow> nat \<Rightarrow> 'v datum list" where
  "mirrored net a ds b =
     concat (map (\<lambda>m. if net_target net m = Some b then ds else []) (osm_mirrors (net_osm net a)))"

lemma send_mirrors_exact:
  assumes "mirrors_ok net a"
  shows "\<exists>net'. send_mirrors (osm_mirrors (net_osm net a)) ds net = Inr (ds, net') \<and>
    net_osm net' = net_osm net \<and> net_ish net' = net_ish net \<and>
    (\<forall>b. net_inbox net' b = net_inbox net b @ mirrored net a ds b)"
proof -
  obtain net' where n: "foldE (\<lambda>m. net_deliver m ds) (osm_mirrors (net_osm net a)) net = Inr net'"
    "\<forall>b. net_inbox net' b = net_inbox net b @ mirrored net a ds b"
    using mirrors.broadcast_exact [of "osm_mirrors (net_osm net a)" net ds] assms
    by (auto simp: mirrors_ok_def mirrored_def)
  then show ?thesis using foldE_deliver_frame [OF n(1)] by (simp add: send_mirrors_broadcast)
qed

lemma mirrored_cong:
  "net_osm net' = net_osm net \<Longrightarrow> net_ish net' = net_ish net \<Longrightarrow> mirrored net' = mirrored net"
  "net_osm net' = net_osm net \<Longrightarrow> net_ish net' = net_ish net \<Longrightarrow> mirrors_ok net' = mirrors_ok net"
  by (simp_all add: mirrored_def mirrors_ok_def net_target_def fun_eq_iff)

text \<open>A collection and a handler that fit together: one manager pointer per stream.\<close>

definition fits :: "nat option list \<Rightarrow> 'a collection \<Rightarrow> bool" where
  "fits ps c \<longleftrightarrow> c_size c = int (length (c_data c)) \<and> length ps = length (c_data c) \<and> None \<notin> set ps"

lemma fits_at:
  assumes "fits ps c" "i < length (c_data c)"
  obtains a where "ps ! i = Some a" "ptr_at ps (int i) = Inr a" "a \<in> the ` set ps"
proof -
  have "ps ! i \<in> set ps" using assms by (simp add: fits_def)
  moreover have "ps ! i \<noteq> None" using assms by (auto simp: fits_def in_set_conv_nth)
  ultimately show thesis
    using that assms by (force simp: ptr_at_def fits_def image_iff)
qed

text \<open>The streams before position \<open>k\<close> have been propagated and emptied.\<close>

lemma propagate_prefix:
  assumes "fits (osh_managers h) c" "\<forall>a\<in>the ` set (osh_managers h). mirrors_ok net a"
    "k \<le> length (c_data c)"
  shows "\<exists>net'. foldE (propagate_stream h) (map int [0..<k]) (c, net) =
      Inr (c\<lparr>c_data := map (\<lambda>s. s\<lparr>os_queue := []\<rparr>) (take k (c_data c)) @ drop k (c_data c)\<rparr>, net') \<and>
    net_osm net' = net_osm net \<and> net_ish net' = net_ish net \<and>
    (\<forall>b. net_inbox net' b = net_inbox net b @
       concat (map (\<lambda>i. mirrored net (the (osh_managers h ! i)) (os_queue (c_data c ! i)) b) [0..<k]))"
  using assms(3)
proof (induction k)
  case (Suc k)
  let ?clr = "\<lambda>s. s\<lparr>os_queue := []\<rparr>"
  let ?c = "\<lambda>k. c\<lparr>c_data := map ?clr (take k (c_data c)) @ drop k (c_data c)\<rparr>"
  obtain net1 where n1: "foldE (propagate_stream h) (map int [0..<k]) (c, net) = Inr (?c k, net1)"
    "net_osm net1 = net_osm net" "net_ish net1 = net_ish net"
    "\<forall>b. net_inbox net1 b = net_inbox net b @
      concat (map (\<lambda>i. mirrored net (the (osh_managers h ! i)) (os_queue (c_data c ! i)) b) [0..<k])"
    using Suc by auto
  have k: "k < length (c_data c)" using Suc.prems by simp
  obtain a where a: "osh_managers h ! k = Some a" "ptr_at (osh_managers h) (int k) = Inr a"
    "a \<in> the ` set (osh_managers h)" by (rule fits_at [OF assms(1) k])
  have s: "c_at (?c k) (int k) = Inr (c_data c ! k)" using k by (simp add: c_at_def nth_append)
  have "mirrors_ok net1 a" using assms(2) a(3) mirrored_cong(2) [OF n1(2,3)] by auto
  then obtain net2 where n2: "send_mirrors (osm_mirrors (net_osm net1 a)) (os_queue (c_data c ! k)) net1 =
      Inr (os_queue (c_data c ! k), net2)" "net_osm net2 = net_osm net1" "net_ish net2 = net_ish net1"
    "\<forall>b. net_inbox net2 b = net_inbox net1 b @ mirrored net1 a (os_queue (c_data c ! k)) b"
    using send_mirrors_exact by blast
  have "c_put (?c k) (int k) (?clr (c_data c ! k)) = ?c (Suc k)"
    using k by (simp add: c_put_def list_update_append take_Suc_conv_app_nth
        Cons_nth_drop_Suc [symmetric])
  then have "propagate_stream h (int k) (?c k, net1) = Inr (?c (Suc k), net2)"
    using n2(1) a(2) s by (simp add: propagate_stream_def)
  then show ?case
    using n1 n2(2-4) a(1) mirrored_cong(1) [OF n1(2,3)] by (simp add: foldE_append)
qed simp

lemma osh_Propagate_frame:
  assumes "fits (osh_managers h) c" "\<forall>a\<in>the ` set (osh_managers h). mirrors_ok net a"
  shows "\<exists>c' net'. osh_Propagate h (c, net) = Inr (c', net') \<and>
    c_data c' = map (\<lambda>s. s\<lparr>os_queue := []\<rparr>) (c_data c) \<and>
    net_osm net' = net_osm net \<and> net_ish net' = net_ish net \<and>
    (\<forall>b. net_inbox net' b = net_inbox net b @ concat (map
       (\<lambda>i. mirrored net (the (osh_managers h ! i)) (os_queue (c_data c ! i)) b) [0..<length (c_data c)]))"
  using propagate_prefix [OF assms, of "length (c_data c)"] assms(1)
  by (auto simp: osh_Propagate_def fits_def)

text \<open>C5: propagation is complete and exact: after a node's outputs are propagated, every input
  queue of the graph has received, behind what it held, the data of each output stream once
  for each mirror that points to it, in order; the output streams are empty, and no mirror
  or handler has changed.\<close>

theorem osh_Propagate_exact:
  assumes "fits (osh_managers h) c" "\<forall>a\<in>the ` set (osh_managers h). mirrors_ok net a"
  shows "\<exists>c' net'. osh_Propagate h (c, net) = Inr (c', net') \<and>
    c_data c' = map (\<lambda>s. s\<lparr>os_queue := []\<rparr>) (c_data c) \<and>
    net_osm net' = net_osm net \<and> net_ish net' = net_ish net \<and>
    (\<forall>b. net_inbox net' b = net_inbox net b @ concat (map
       (\<lambda>i. mirrored net (the (osh_managers h ! i)) (os_queue (c_data c ! i)) b) [0..<length (c_data c)]))"
  by (rule osh_Propagate_frame [OF assms])

theorem osh_Propagate_exact_witness:
  "\<exists>c' net'. osh_Propagate \<lparr>osh_managers = [Some 0]\<rparr>
     (\<lparr>c_tags = \<lparr>tm_data = [], tm_names = [''x''], tm_total = 1\<rparr>,
       c_data = [\<lparr>os_name = ''x'', os_queue = [Datum_ts (7::int) 1, Datum_ts 8 2], os_closed = False\<rparr>]\<rparr>,
      \<lparr>net_ism = (\<lambda>_. ISM0), net_ish = (\<lambda>_. \<lparr>ish_managers = [Some 3, Some 4], ss_ids = [], ss_last_processed = 0\<rparr>),
       net_osm = (\<lambda>_. \<lparr>osm_name = ''x'', osm_mirrors = [(Node_ISH 0, 1), (Node_ISH 0, 0), (Node_ISH 1, 1)]\<rparr>)\<rparr>) =
     Inr (c', net') \<and> net_inbox net' 3 = [Datum_ts 7 1, Datum_ts 8 2] \<and>
     net_inbox net' 4 = [Datum_ts 7 1, Datum_ts 8 2, Datum_ts 7 1, Datum_ts 8 2] \<and> net_inbox net' 5 = []"
proof -
  let ?h = "\<lparr>osh_managers = [Some 0]\<rparr>"
  let ?c = "\<lparr>c_tags = \<lparr>tm_data = [], tm_names = [''x''], tm_total = 1\<rparr>,
       c_data = [\<lparr>os_name = ''x'', os_queue = [Datum_ts (7::int) 1, Datum_ts 8 2], os_closed = False\<rparr>]\<rparr>"
  let ?net = "\<lparr>net_ism = (\<lambda>_. ISM0), net_ish = (\<lambda>_. \<lparr>ish_managers = [Some 3, Some 4], ss_ids = [], ss_last_processed = 0\<rparr>),
       net_osm = (\<lambda>_. \<lparr>osm_name = ''x'', osm_mirrors = [(Node_ISH 0, 1), (Node_ISH 0, 0), (Node_ISH 1, 1)]\<rparr>)\<rparr>"
  have "fits (osh_managers ?h) ?c" "\<forall>a\<in>the ` set (osh_managers ?h). mirrors_ok ?net a"
    by (simp_all add: fits_def c_size_def NStreams_def mirrors_ok_def net_target_def ptr_at_def)
  from osh_Propagate_exact [OF this] show ?thesis
    by (auto simp: mirrored_def net_target_def ptr_at_def net_inbox_def ISM0_def)
qed

section \<open>Marshalling\<close>

text \<open>What one pass over a manager hands to the task: everything, except that the last datum of
  a closed manager is popped and then dropped.\<close>

definition sync_taken :: "'v ism \<Rightarrow> 'v datum list" where
  "sync_taken m = (if ism_bound m = kCtimeMax then butlast (ism_queue m) else ism_queue m)"

lemma sync_loop_spec:
  assumes "\<not> is_done s"
  shows "sync_loop ts m s = (m\<lparr>ism_queue := []\<rparr>,
    s\<lparr>is_queue := is_queue s @ map (At (ts_wrap (ts - 1))) (sync_taken m)\<rparr>)"
  using assms
proof (induction ts m s rule: sync_loop.induct)
  case (1 ts m s)
  show ?case
  proof (cases "ism_queue m")
    case Nil
    then show ?thesis by (simp add: sync_loop.simps [of ts m s] ism_IsEmpty_def sync_taken_def)
  next
    case (Cons d q)
    let ?m = "m\<lparr>ism_queue := q\<rparr>" and ?s = "marshal s (At (ts_wrap (ts - 1)) d) False"
    have pop: "ism_Pop False m = (d, ism_IsDone ?m, ?m)" by (simp add: ism_Pop_def Cons Let_def)
    have s: "?s = s\<lparr>is_queue := is_queue s @ [At (ts_wrap (ts - 1)) d]\<rparr>"
      using "1.prems" by (simp add: marshal_def is_AddDatum_def)
    show ?thesis
    proof (cases "ism_IsDone ?m")
      case True
      then show ?thesis
        by (simp add: sync_loop.simps [of ts m s] ism_IsEmpty_def Cons pop sync_taken_def
            ism_IsDone_def TimestampDone_def)
    next
      case False
      have "sync_loop ts ?m ?s = (?m\<lparr>ism_queue := []\<rparr>,
          ?s\<lparr>is_queue := is_queue ?s @ map (At (ts_wrap (ts - 1))) (sync_taken ?m)\<rparr>)"
        using "1.IH" [OF _ pop [symmetric] refl False] False "1.prems" s
        by (simp add: ism_IsEmpty_def Cons)
      moreover have "sync_taken m = d # sync_taken ?m"
        using False by (auto simp: sync_taken_def Cons ism_IsDone_def TimestampDone_def)
      ultimately show ?thesis using False s
        by (simp add: sync_loop.simps [of ts m s] ism_IsEmpty_def Cons pop)
    qed
  qed
qed

text \<open>One pass over the managers of a node, read slot by slot.\<close>

definition sync_slot :: "'v ism \<Rightarrow> 'v input_stream \<Rightarrow> 'v input_stream" where
  "sync_slot m s = s\<lparr>is_queue := is_queue s @
     map (At (ts_wrap (ism_NextTimestampOrBound m - 1))) (sync_taken m)\<rparr>"

lemma sync_prefix:
  assumes "fits (ish_managers h) c" "distinct (ish_managers h)" "\<forall>s\<in>set (c_data c). \<not> is_done s"
    "k \<le> length (c_data c)"
  shows "foldE (sync_step h) (map int [0..<k]) (c, net) =
    Inr (c\<lparr>c_data := map2 (\<lambda>p s. sync_slot (net_ism net (the p)) s) (take k (ish_managers h)) (take k (c_data c))
           @ drop k (c_data c)\<rparr>,
         net\<lparr>net_ism := \<lambda>a. if Some a \<in> set (take k (ish_managers h))
           then (net_ism net a)\<lparr>ism_queue := []\<rparr> else net_ism net a\<rparr>)"
  using assms(4)
proof (induction k)
  case (Suc k)
  let ?c = "\<lambda>k. c\<lparr>c_data := map2 (\<lambda>p s. sync_slot (net_ism net (the p)) s)
    (take k (ish_managers h)) (take k (c_data c)) @ drop k (c_data c)\<rparr>"
  let ?net = "\<lambda>k. net\<lparr>net_ism := \<lambda>a. if Some a \<in> set (take k (ish_managers h))
    then (net_ism net a)\<lparr>ism_queue := []\<rparr> else net_ism net a\<rparr>"
  have k: "k < length (c_data c)" and kh: "k < length (ish_managers h)"
    using Suc.prems assms(1) by (simp_all add: fits_def)
  obtain a where a: "ish_managers h ! k = Some a" "ptr_at (ish_managers h) (int k) = Inr a"
    by (rule fits_at [OF assms(1) k])
  have fresh: "Some a \<notin> set (take k (ish_managers h))"
    using assms(2) a(1) kh by (metis distinct_take take_Suc_conv_app_nth distinct_append
        disjoint_iff list.set_intros(1))
  let ?s = "c_data c ! k" and ?m = "net_ism net a"
  have s: "c_at (?c k) (int k) = Inr ?s" using k kh by (simp add: c_at_def nth_append)
  have "\<not> is_done ?s" using assms(3) k by simp
  from sync_loop_spec [OF this, of "ism_NextTimestampOrBound ?m" ?m]
  have "sync_step h (int k) (?c k, ?net k) =
      Inr (c_put (?c k) (int k) (sync_slot ?m ?s), upd_ism a (\<lambda>_. ?m\<lparr>ism_queue := []\<rparr>) (?net k))"
    using a(2) s fresh by (simp add: sync_step_def sync_slot_def)
  moreover have "c_put (?c k) (int k) (sync_slot ?m ?s) = ?c (Suc k)"
    using k kh a(1) by (simp add: c_put_def list_update_append take_Suc_conv_app_nth
        Cons_nth_drop_Suc [symmetric])
  moreover have "upd_ism a (\<lambda>_. ?m\<lparr>ism_queue := []\<rparr>) (?net k) = ?net (Suc k)"
    using kh a(1) by (auto simp: upd_ism_def take_Suc_conv_app_nth fun_eq_iff)
  ultimately show ?case using Suc by (simp add: foldE_append)
qed simp

lemma Marshal_slot:
  assumes "fits (ish_managers h) c" "distinct (ish_managers h)" "\<forall>s\<in>set (c_data c). \<not> is_done s"
  shows "\<exists>c' net'. Marshal h (c, net) = Inr (c', net') \<and> length (c_data c') = length (c_data c) \<and>
    (\<forall>i < length (c_data c). is_queue (c_data c' ! i) = is_queue (c_data c ! i) @
       (let m = net_ism net (the (ish_managers h ! i)) in
        map (At (ts_wrap (ism_NextTimestampOrBound m - 1)))
          (if ism_bound m = kCtimeMax then butlast (ism_queue m) else ism_queue m))) \<and>
    (\<forall>a. net_inbox net' a = (if Some a \<in> set (ish_managers h) then [] else net_inbox net a))"
proof -
  have len: "length (ish_managers h) = length (c_data c)" "nat (c_size c) = length (c_data c)"
    using assms(1) by (simp_all add: fits_def)
  show ?thesis
    using sync_prefix [OF assms order_refl, of net] len
    by (simp add: Marshal_def Sync_def sync_slot_def sync_taken_def Let_def net_inbox_def)
qed

text \<open>C8: \<open>Marshal\<close> empties every input queue of the node and hands its data, in order, to the
  input stream of the same slot, all stamped one before the timestamp of the first of them;
  of a closed manager it hands over all but the last datum. Managers of other nodes stay
  as they were.\<close>

theorem Marshal_exact:
  assumes "fits (ish_managers h) c" "distinct (ish_managers h)" "\<forall>s\<in>set (c_data c). \<not> is_done s"
  shows "\<exists>c' net'. Marshal h (c, net) = Inr (c', net') \<and> length (c_data c') = length (c_data c) \<and>
    (\<forall>i < length (c_data c). is_queue (c_data c' ! i) = is_queue (c_data c ! i) @
       (let m = net_ism net (the (ish_managers h ! i)) in
        map (At (ts_wrap (ism_NextTimestampOrBound m - 1)))
          (if ism_bound m = kCtimeMax then butlast (ism_queue m) else ism_queue m))) \<and>
    (\<forall>a. net_inbox net' a = (if Some a \<in> set (ish_managers h) then [] else net_inbox net a))"
  by (rule Marshal_slot [OF assms])

theorem Marshal_exact_witness:
  "\<exists>c' net'. Marshal \<lparr>ish_managers = [Some 2], ss_ids = [], ss_last_processed = 0\<rparr>
     (\<lparr>c_tags = \<lparr>tm_data = [], tm_names = [''x''], tm_total = 1\<rparr>, c_data = [InputStream0]\<rparr>,
      \<lparr>net_ism = (\<lambda>_. \<lparr>ism_name = ''x'', ism_queue = [Datum_ts (7::int) 5, Datum_ts 8 9], ism_bound = 10, ism_closed = False\<rparr>),
       net_ish = (\<lambda>_. \<lparr>ish_managers = [], ss_ids = [], ss_last_processed = 0\<rparr>),
       net_osm = (\<lambda>_. \<lparr>osm_name = [], osm_mirrors = []\<rparr>)\<rparr>) = Inr (c', net') \<and>
     is_queue (c_data c' ! 0) = [Datum_ts 7 4, Datum_ts 8 4] \<and> net_inbox net' 2 = []"
proof -
  let ?h = "\<lparr>ish_managers = [Some 2], ss_ids = [], ss_last_processed = 0\<rparr>"
  let ?c = "\<lparr>c_tags = \<lparr>tm_data = [], tm_names = [''x''], tm_total = 1\<rparr>, c_data = [InputStream0]\<rparr>"
  let ?net = "\<lparr>net_ism = (\<lambda>_. \<lparr>ism_name = ''x'', ism_queue = [Datum_ts (7::int) 5, Datum_ts 8 9], ism_bound = 10, ism_closed = False\<rparr>),
       net_ish = (\<lambda>_. \<lparr>ish_managers = [], ss_ids = [], ss_last_processed = 0\<rparr>),
       net_osm = (\<lambda>_. \<lparr>osm_name = [], osm_mirrors = []\<rparr>)\<rparr>"
  have w: "ts_wrap 4 = 4" "kCtimeMax \<noteq> 10" by code_simp+
  have "fits (ish_managers ?h) ?c" "distinct (ish_managers ?h)" "\<forall>s\<in>set (c_data ?c). \<not> is_done s"
    by (simp_all add: fits_def c_size_def NStreams_def InputStream0_def)
  from Marshal_exact [OF this, of ?net] w show ?thesis
    by (auto simp: InputStream0_def ism_NextTimestampOrBound_def Datum_ts_def At_def Timestamp_def Let_def)
qed

section \<open>Stream names\<close>

text \<open>A step moves data between managers and renames none.\<close>

definition stream_names :: "'v net \<Rightarrow> nat \<Rightarrow> string" where
  "stream_names net a = ism_name (net_ism net a)"

lemma names_upd_ism: "(\<And>m. ism_name (f m) = ism_name m) \<Longrightarrow> stream_names (upd_ism a f net) = stream_names net"
  by (auto simp: stream_names_def fun_eq_iff)

lemma sync_loop_name: "sync_loop ts m s = (m', s') \<Longrightarrow> ism_name m' = ism_name m"
proof (induction ts m s rule: sync_loop.induct)
  case (1 ts m s)
  obtain d fl m1 where p: "ism_Pop False m = (d, fl, m1)" by (rule prod_cases3)
  then have n: "ism_name m1 = ism_name m" by (auto simp: ism_Pop_def Let_def split: if_splits)
  show ?case
  proof (cases "ism_IsEmpty m \<or> fl")
    case True
    then show ?thesis using "1.prems" n by (auto simp: sync_loop.simps [of ts m s] p split: if_splits)
  next
    case False
    then show ?thesis using "1.IH" [OF _ p [symmetric] refl] "1.prems" n by (simp add: sync_loop.simps [of ts m s] p)
  qed
qed

lemma sync_step_names:
  assumes "sync_step h i st = Inr st'"
  shows "stream_names (snd st') = stream_names (snd st)"
proof -
  obtain c net where st: "st = (c, net)" by (cases st)
  then obtain a s where a: "ptr_at (ish_managers h) i = Inr a" "c_at c i = Inr s"
    using assms by (auto simp: sync_step_def bindE_Inr_iff)
  obtain m' s' where l: "sync_loop (ism_NextTimestampOrBound (net_ism net a)) (net_ism net a) s = (m', s')" by fastforce
  then have "snd st' = upd_ism a (\<lambda>_. m') net" using assms a by (auto simp: sync_step_def st)
  then show ?thesis using sync_loop_name [OF l] by (auto simp: st stream_names_def fun_eq_iff)
qed

lemma Marshal_names: "Marshal h (c, net) = Inr (c', net') \<Longrightarrow> stream_names net' = stream_names net"
  unfolding Marshal_def Sync_def
  by (drule foldE_frame [where g = "\<lambda>st. stream_names (snd st)"]) (simp_all add: sync_step_names)

lemma send_mirrors_names: "send_mirrors ms ds net = Inr (ds', net') \<Longrightarrow> stream_names net' = stream_names net"
  unfolding send_mirrors_broadcast
  by (auto simp: bindE_Inr_iff net_deliver_def ish_AddData_def names_upd_ism elim!: foldE_frame [where g = stream_names])

lemma propagate_stream_names: "propagate_stream h i st = Inr st' \<Longrightarrow> stream_names (snd st') = stream_names (snd st)"
  by (cases st) (auto simp: propagate_stream_def bindE_Inr_iff dest: send_mirrors_names)

lemma Propagate_names: "osh_Propagate h (c, net) = Inr (c', net') \<Longrightarrow> stream_names net' = stream_names net"
  unfolding osh_Propagate_def
  by (drule foldE_frame [where g = "\<lambda>st. stream_names (snd st)"]) (simp_all add: propagate_stream_names)

section \<open>Readiness\<close>

text \<open>The timestamps at the heads of the non-empty queues of a sync set, and the bounds of the
  empty ones.\<close>

definition ss_isms :: "'v net \<Rightarrow> ish \<Rightarrow> 'v ism list" where
  "ss_isms net h = map (\<lambda>i. net_ism net (the (ish_managers h ! nat i))) (ss_ids h)"

definition ss_heads :: "'v net \<Rightarrow> ish \<Rightarrow> int set" where
  "ss_heads net h = {Timestamp (hd (ism_queue m)) | m. m \<in> set (ss_isms net h) \<and> ism_queue m \<noteq> []}"

definition ss_waits :: "'v net \<Rightarrow> ish \<Rightarrow> int set" where
  "ss_waits net h = {ism_bound m | m. m \<in> set (ss_isms net h) \<and> ism_queue m = []}"

definition least_with :: "int \<Rightarrow> int \<Rightarrow> int set \<Rightarrow> bool" where
  "least_with x k A \<longleftrightarrow> x \<in> insert k A \<and> (\<forall>a\<in>insert k A. x \<le> a)"

lemma least_with_min: "least_with x k A \<Longrightarrow> least_with (min a x) k (insert a A)"
  by (auto simp: least_with_def min_def)

lemma ptr_at_the: "ptr_at ps i = Inr a \<Longrightarrow> the (ps ! nat i) = a"
  by (auto simp: ptr_at_def split: if_splits option.splits)

lemma ss_bounds_least:
  assumes "\<forall>i\<in>set (ss_ids h). \<exists>a. ptr_at (ish_managers h) i = Inr a"
  shows "\<exists>b d. ss_bounds net h = Inr (b, d) \<and> least_with b kCtimeMax (ss_waits net h) \<and>
    least_with d kCtimeMax (ss_heads net h)"
proof -
  let ?f = "\<lambda>i (min_bound, min_datum). bindE (ptr_at (ish_managers h) i) (\<lambda>a.
       let cur = ism_NextTimestampOrBound (net_ism net a) in
       if ism_IsEmpty (net_ism net a) then Inr (min cur min_bound, min_datum)
       else Inr (min_bound, min cur min_datum))"
  let ?m = "\<lambda>i. net_ism net (the (ish_managers h ! nat i))"
  let ?W = "\<lambda>ids. {ism_bound m | m. m \<in> ?m ` set ids \<and> ism_queue m = []}"
  let ?H = "\<lambda>ids. {Timestamp (hd (ism_queue m)) | m. m \<in> ?m ` set ids \<and> ism_queue m \<noteq> []}"
  have "\<exists>b d. foldE ?f ids (kCtimeMax, kCtimeMax) = Inr (b, d) \<and> least_with b kCtimeMax (?W ids) \<and>
      least_with d kCtimeMax (?H ids)" if "\<forall>i\<in>set ids. \<exists>a. ptr_at (ish_managers h) i = Inr a" for ids
    using that
  proof (induction ids rule: rev_induct)
    case (snoc i ids)
    then obtain b d a where bd: "foldE ?f ids (kCtimeMax, kCtimeMax) = Inr (b, d)"
      "least_with b kCtimeMax (?W ids)" "least_with d kCtimeMax (?H ids)"
      and a: "ptr_at (ish_managers h) i = Inr a" by auto
    note the_a = ptr_at_the [OF a]
    show ?case
    proof (cases "ism_queue (net_ism net a) = []")
      case True
      then have "?W (ids @ [i]) = insert (ism_bound (net_ism net a)) (?W ids)" "?H (ids @ [i]) = ?H ids"
        using the_a by auto
      then show ?thesis using bd a True least_with_min
        by (simp add: foldE_append ism_IsEmpty_def ism_NextTimestampOrBound_def)
    next
      case False
      then have "?H (ids @ [i]) = insert (Timestamp (hd (ism_queue (net_ism net a)))) (?H ids)"
        "?W (ids @ [i]) = ?W ids" using the_a by auto
      then show ?thesis using bd a False least_with_min
        by (simp add: foldE_append ism_IsEmpty_def ism_NextTimestampOrBound_def)
    qed
  qed (simp add: least_with_def)
  from this [OF assms] show ?thesis
    by (simp add: ss_bounds_def ss_waits_def ss_heads_def ss_isms_def)
qed

text \<open>C35: a sync set whose streams exist reports that it can be processed exactly if some queue
  has a datum at its head that is no later than any other head, earlier than the bound of
  every empty stream, and before the end of time; it then returns that timestamp. It asks to
  be closed exactly if no head and no bound lies before the end of time.\<close>

theorem ss_GetReadiness_spec:
  assumes "\<forall>i\<in>set (ss_ids h). \<exists>a. ptr_at (ish_managers h) i = Inr a"
  shows "\<exists>r ts h'. ss_GetReadiness net h = Inr (r, ts, h') \<and>
    (r = kReadyForProcess \<longleftrightarrow> (\<exists>t\<in>ss_heads net h. t < TimestampEnd \<and>
       (\<forall>u\<in>ss_heads net h. t \<le> u) \<and> (\<forall>b\<in>ss_waits net h. t < b))) \<and>
    (r = kReadyForProcess \<longrightarrow> ts \<in> ss_heads net h \<and> (\<forall>u\<in>ss_heads net h. ts \<le> u)) \<and>
    (r = kReadyForClose \<longleftrightarrow> (\<forall>t\<in>ss_heads net h \<union> ss_waits net h. TimestampEnd \<le> t))"
proof -
  obtain b d where bd: "ss_bounds net h = Inr (b, d)" "least_with b kCtimeMax (ss_waits net h)"
    "least_with d kCtimeMax (ss_heads net h)"
    using ss_bounds_least [OF assms] by blast
  have e: "TimestampEnd < kCtimeMax" by (simp add: TimestampEnd_def)
  have b: "\<forall>t\<in>ss_waits net h. b \<le> t" "b \<le> kCtimeMax" "b = kCtimeMax \<or> b \<in> ss_waits net h"
    and d: "\<forall>t\<in>ss_heads net h. d \<le> t" "d \<le> kCtimeMax" "d = kCtimeMax \<or> d \<in> ss_heads net h"
    using bd(2,3) by (auto simp: least_with_def)
  have close: "TimestampEnd \<le> min b d \<longleftrightarrow> (\<forall>t\<in>ss_heads net h \<union> ss_waits net h. TimestampEnd \<le> t)"
    using b d e by (auto intro: order_trans)
  have run: "min b d < TimestampEnd \<and> d < b \<longleftrightarrow> (\<exists>t\<in>ss_heads net h. t < TimestampEnd \<and>
       (\<forall>u\<in>ss_heads net h. t \<le> u) \<and> (\<forall>b\<in>ss_waits net h. t < b))" (is "?l \<longleftrightarrow> ?r")
  proof
    assume l: ?l
    then have "d \<in> ss_heads net h" using b(2) d(3) by auto
    then show ?r using l b d by (intro bexI [of _ d]) auto
  next
    assume ?r
    then obtain t where t: "t \<in> ss_heads net h" "t < TimestampEnd" "\<forall>u\<in>ss_heads net h. t \<le> u"
      "\<forall>b\<in>ss_waits net h. t < b" by blast
    then have "d = t" using d e by force
    then show ?l using t b(3) e by auto
  qed
  have res: "ss_GetReadiness net h =
      (if TimestampEnd \<le> min b d then Inr (kReadyForClose, kCtimeMax, h\<lparr>ss_last_processed := TimestampEnd\<rparr>)
       else if d < b then Inr (kReadyForProcess, min b d, h\<lparr>ss_last_processed := min b d\<rparr>)
       else Inr (kNotReady, min b d, h))"
    by (simp add: ss_GetReadiness_def bd(1) Let_def)
  have "min b d \<in> ss_heads net h \<and> (\<forall>u\<in>ss_heads net h. min b d \<le> u)" if "d < b"
    using that b(2) d by (auto simp: min_def)
  then show ?thesis
    using close run
    by (cases "TimestampEnd \<le> min b d"; cases "d < b"; simp only: res if_True if_False)
      (use e in \<open>auto simp: not_le\<close>, meson UnI1 not_le)
qed

theorem ss_GetReadiness_spec_witness:
  "\<exists>r ts h'. ss_GetReadiness
     \<lparr>net_ism = (\<lambda>a. if a = 0 then \<lparr>ism_name = ''a'', ism_queue = [Datum_ts (1::int) 4], ism_bound = 5, ism_closed = False\<rparr>
         else \<lparr>ism_name = ''b'', ism_queue = [], ism_bound = 9, ism_closed = False\<rparr>),
       net_ish = (\<lambda>_. \<lparr>ish_managers = [], ss_ids = [], ss_last_processed = 0\<rparr>),
       net_osm = (\<lambda>_. \<lparr>osm_name = [], osm_mirrors = []\<rparr>)\<rparr>
     \<lparr>ish_managers = [Some 0, Some 1], ss_ids = [0, 1], ss_last_processed = 0\<rparr> = Inr (r, ts, h') \<and>
     r = kReadyForProcess \<and> ts = 4"
proof -
  let ?net = "\<lparr>net_ism = (\<lambda>a. if a = 0 then \<lparr>ism_name = ''a'', ism_queue = [Datum_ts (1::int) 4], ism_bound = 5, ism_closed = False\<rparr>
         else \<lparr>ism_name = ''b'', ism_queue = [], ism_bound = 9, ism_closed = False\<rparr>),
       net_ish = (\<lambda>_. \<lparr>ish_managers = [], ss_ids = [], ss_last_processed = 0\<rparr>),
       net_osm = (\<lambda>_. \<lparr>osm_name = [], osm_mirrors = []\<rparr>)\<rparr>"
  let ?h = "\<lparr>ish_managers = [Some 0, Some 1], ss_ids = [0, 1], ss_last_processed = 0\<rparr>"
  have "\<forall>i\<in>set (ss_ids ?h). \<exists>a. ptr_at (ish_managers ?h) i = Inr a" by (simp add: ptr_at_def)
  note spec = ss_GetReadiness_spec [OF this, of ?net]
  have "ss_heads ?net ?h = {4}" "ss_waits ?net ?h = {9}"
    by (force simp: ss_heads_def ss_waits_def ss_isms_def)+
  moreover have "(4::int) < TimestampEnd" by code_simp
  ultimately show ?thesis using spec by auto
qed

text \<open>The default handler watches no stream, so it never lets a node with inputs proceed.\<close>

lemma default_handler_never_ready:
  assumes "0 < NStreams tm"
  shows "\<exists>h'. ish_Process net (InitializeInputStreamManagers a (DefaultInputStreamHandler tm)) bound ctx =
    Inr (False, bound, h', ctx)"
  using assms
  by (simp add: ish_Process_def InitializeInputStreamManagers_def DefaultInputStreamHandler_def GetIds_def
      ss_GetReadiness_def ss_bounds_def ts_defs Let_def)

section \<open>Collections over tag maps\<close>

text \<open>A collection over a tag map that was built has one element per configured stream;
  \<open>Get\<close> answers for exactly the tags and indices of the map (it aborts for any other
  non-negative index), and writing to one stream leaves the others as they were.\<close>

lemma Collection_get_set:
  assumes "NewTagMap fs = Inr (Some tm)" "int i < NStreams_tag tm t" "int j < NStreams_tag tm u"
    "length (c_data c) = length (c_data (Collection z tm))" "c_tags c = tm"
  shows "length (c_data c) = length fs \<and> Get c t (int i) \<noteq> Inl Aborted \<and>
    Get c t (NStreams_tag tm t + int k) = Inl Aborted \<and>
    (\<exists>x c'. Get c t (int i) = Inr x \<and> Modify c t (int i) f = Inr c' \<and>
       Get c' u (int j) = (if (u, j) = (t, i) then Inr (f x) else Get c u (int j)))"
proof -
  have facts: "NStreams tm = int (length fs)"
    "bij_betw (\<lambda>(t, i). FindByTagIndex tm t (int i)) {(t, i). int i < NStreams_tag tm t} {0 ..< NStreams tm}"
    using tag_map_bij [OF assms(1)] by blast+
  let ?f = "\<lambda>(t, i). FindByTagIndex tm t (int i)"
  have mem: "?f (t, i) \<in> {0 ..< NStreams tm}" "?f (u, j) \<in> {0 ..< NStreams tm}"
    using bij_betwE [OF facts(2)] assms(2,3) by blast+
  have inj: "?f (u, j) = ?f (t, i) \<longleftrightarrow> (u, j) = (t, i)"
    using inj_on_eq_iff [OF bij_betw_imp_inj_on [OF facts(2)], of "(u, j)" "(t, i)"] assms(2,3) by simp
  have len: "length (c_data c) = length fs"
    using assms(4) facts(1) by (auto simp: Collection_def)
  have "FindByTagIndex tm t (NStreams_tag tm t + int k) = - 1"
    by (simp add: FindByTagIndex_def NStreams_tag_def count_of_def split: option.splits)
  moreover have "FindByTagIndex tm u (int j) = FindByTagIndex tm t (int i) \<longleftrightarrow> (u, j) = (t, i)"
    using inj by simp
  then have "nat (FindByTagIndex tm u (int j)) = nat (FindByTagIndex tm t (int i)) \<longleftrightarrow> (u, j) = (t, i)"
    using mem by auto
  ultimately show ?thesis
    using mem len facts(1) assms(5)
    by (auto simp: Get_def Slot_def c_at_def Modify_def c_put_def Let_def nth_list_update)
qed

lemma Collection_get_set_example:
  "\<exists>tm c'. NewTagMap [''A:0:x'', ''A:1:y''] = Inr (Some tm) \<and>
     Modify (Collection (0::nat) tm) ''A'' 0 Suc = Inr c' \<and> Get c' ''A'' 1 = Get (Collection 0 tm) ''A'' 1"
proof -
  define tm where "tm = (case NewTagMap [''A:0:x'', ''A:1:y''] of Inr (Some tm) \<Rightarrow> tm
    | _ \<Rightarrow> \<lparr>tm_data = [], tm_names = [], tm_total = 0\<rparr>)"
  have ok: "NewTagMap [''A:0:x'', ''A:1:y''] = Inr (Some tm)"
    and n: "int 0 < NStreams_tag tm ''A''" "int 1 < NStreams_tag tm ''A''"
    unfolding tm_def by code_simp+
  have "c_tags (Collection (0::nat) tm) = tm" by (simp add: Collection_def)
  from Collection_get_set [OF ok n refl this, of 0 Suc] ok show ?thesis by auto
qed

end
