(* ===== verification/Side_Data.thy ===== *)
theory Side_Data
  imports Datum Tags
begin

text \<open>
  Side data: \<open>input_side_data.h/.cc\<close> and \<open>output_side_data.h/.cc\<close>. A node's input side data
  are a vector of slots filled by the output side data they mirror; a slot is written once
  and reset after the node has processed. Handlers are referred to by the index of their
  node, so the store of a graph is a function from node indices to handlers.
\<close>

section \<open>Input side data\<close>

record 'v isdh =
  isd_data :: "'v datum list option"

definition isd_handler0 :: "'v isdh" where
  "isd_handler0 = \<lparr>isd_data = None\<rparr>"

fun collect_side :: "string list \<Rightarrow> (string \<times> 'v datum) list \<Rightarrow> 'v datum list option" where
  "collect_side [] all = Some []"
| "collect_side (n # ns) all = (case map_of all n of
     None \<Rightarrow> None
   | Some d \<Rightarrow> (case collect_side ns all of None \<Rightarrow> None | Some ds \<Rightarrow> Some (d # ds)))"

definition prepareInputSideData :: "tag_map \<Rightarrow> (string \<times> 'v datum) list \<Rightarrow> 'v datum list option" where
  "prepareInputSideData tm all = collect_side (Names tm) all"

definition isd_PrepareForRun :: "tag_map \<Rightarrow> (string \<times> 'v datum) list \<Rightarrow> 'v isdh \<Rightarrow> int \<times> 'v isdh" where
  "isd_PrepareForRun tm all h = (case prepareInputSideData tm all of
     None \<Rightarrow> (- 1, h)
   | Some ds \<Rightarrow> (0, h\<lparr>isd_data := Some ds\<rparr>))"

text \<open>\<open>Dtype::Validate\<close> accepts every datum.\<close>

definition Validate :: "'v datum \<Rightarrow> int" where
  "Validate d = 0"

definition isd_Set :: "int \<Rightarrow> 'v datum \<Rightarrow> 'v isdh \<Rightarrow> (int \<times> 'v isdh) outcome" where
  "isd_Set i d h = (case isd_data h of
     None \<Rightarrow> Inl Undefined
   | Some ds \<Rightarrow>
       if \<not> (0 \<le> i \<and> i < int (length ds)) then Inl Out_of_range
       else if \<not> IsEmpty (ds ! nat i) then Inr (- 1, h)
       else if Validate d \<noteq> 0 then Inr (- 1, h)
       else Inr (0, h\<lparr>isd_data := Some (ds[nat i := d])\<rparr>))"

definition isd_PostProcess :: "'v isdh \<Rightarrow> 'v isdh outcome" where
  "isd_PostProcess h = (case isd_data h of
     None \<Rightarrow> Inl Undefined
   | Some ds \<Rightarrow> Inr (h\<lparr>isd_data := Some (map Datum_Reset ds)\<rparr>))"

section \<open>Output side data\<close>

record 'v osd =
  osd_name :: string
  osd_datum :: "'v datum"
  osd_mirrors :: "(nat \<times> int) list"

definition osd0 :: "'v osd" where
  "osd0 = \<lparr>osd_name = [], osd_datum = Datum0, osd_mirrors = []\<rparr>"

definition osd_Initialize :: "string \<Rightarrow> 'v osd \<Rightarrow> 'v osd" where
  "osd_Initialize n o1 = o1\<lparr>osd_name := n\<rparr>"

definition osd_AddMirror :: "nat \<Rightarrow> int \<Rightarrow> 'v osd \<Rightarrow> 'v osd" where
  "osd_AddMirror n i o1 = o1\<lparr>osd_mirrors := osd_mirrors o1 @ [(n, i)]\<rparr>"

definition side_push :: "'v datum \<Rightarrow> nat \<times> int \<Rightarrow> (nat \<Rightarrow> 'v isdh) \<Rightarrow> (nat \<Rightarrow> 'v isdh) outcome" where
  "side_push d m st = bindE (isd_Set (snd m) d (st (fst m))) (\<lambda>(rc, h). Inr (st(fst m := h)))"

definition osd_Set :: "'v datum \<Rightarrow> 'v osd \<Rightarrow> (nat \<Rightarrow> 'v isdh) \<Rightarrow> ('v osd \<times> (nat \<Rightarrow> 'v isdh)) outcome" where
  "osd_Set d o1 st =
     (let o1 = o1\<lparr>osd_datum := d\<rparr> in
      bindE (foldE (side_push (osd_datum o1)) (osd_mirrors o1) st) (\<lambda>st'. Inr (o1, st')))"

section \<open>Write-once slots\<close>

text \<open>The contract between a producer and the slots it mirrors to: a push fills its slot if
  that is empty, never overwrites a value, and touches no other slot.\<close>

locale write_once =
  fixes push :: "'d \<Rightarrow> 'm \<Rightarrow> 's \<Rightarrow> 's outcome"
    and slot :: "'s \<Rightarrow> 'm \<Rightarrow> 'd option"
    and empty_datum :: "'d \<Rightarrow> bool"
  assumes push_ok: "slot s m \<noteq> None \<Longrightarrow> \<exists>s'. push d m s = Inr s'"
    and push_slot: "push d m s = Inr s' \<Longrightarrow> slot s' m' =
      (if m' = m then (case slot s m of None \<Rightarrow> None | Some e \<Rightarrow> Some (if empty_datum e then d else e)) else slot s m')"
begin

lemma push_all:
  assumes "\<forall>m\<in>set ms. slot s m \<noteq> None"
  shows "\<exists>s'. foldE (push d) ms s = Inr s' \<and>
    (\<forall>m. slot s' m = (if m \<in> set ms then map_option (\<lambda>e. if empty_datum e then d else e) (slot s m) else slot s m))"
  using assms
proof (induction ms arbitrary: s)
  case (Cons m ms)
  obtain s1 where s1: "push d m s = Inr s1" using push_ok Cons.prems by force
  have sl: "slot s1 m' = (if m' = m then map_option (\<lambda>e. if empty_datum e then d else e) (slot s m) else slot s m')" for m'
    using push_slot [OF s1, of m'] by (simp add: map_option_case)
  then have "\<forall>m\<in>set ms. slot s1 m \<noteq> None" using Cons.prems by auto
  then obtain s' where s': "foldE (push d) ms s1 = Inr s'" "\<forall>m. slot s' m =
      (if m \<in> set ms then map_option (\<lambda>e. if empty_datum e then d else e) (slot s1 m) else slot s1 m)"
    using Cons.IH by blast
  have "map_option (\<lambda>e. if empty_datum e then d else e) (map_option (\<lambda>e. if empty_datum e then d else e) x) =
      map_option (\<lambda>e. if empty_datum e then d else e) x" for x
    by (cases x) auto
  then show ?case using s1 s' sl by (intro exI [of _ s']) auto
qed simp

end

definition side_slot :: "(nat \<Rightarrow> 'v isdh) \<Rightarrow> nat \<times> int \<Rightarrow> 'v datum option" where
  "side_slot st m = (case isd_data (st (fst m)) of
     None \<Rightarrow> None
   | Some ds \<Rightarrow> if 0 \<le> snd m \<and> snd m < int (length ds) then Some (ds ! nat (snd m)) else None)"

lemma isd_Set_cases:
  assumes "isd_Set i d h = Inr (rc, h')"
  obtains ds where "isd_data h = Some ds" "0 \<le> i" "i < int (length ds)"
    "isd_data h' = Some (if IsEmpty (ds ! nat i) then ds[nat i := d] else ds)"
  using assms by (auto simp: isd_Set_def Validate_def split: option.splits if_splits)

interpretation side: write_once side_push side_slot IsEmpty
proof unfold_locales
  fix st :: "nat \<Rightarrow> 'v isdh" and m d
  assume "side_slot st m \<noteq> None"
  then show "\<exists>st'. side_push d m st = Inr st'"
    by (auto simp: side_slot_def side_push_def isd_Set_def Validate_def split: option.splits if_splits)
next
  fix st st' :: "nat \<Rightarrow> 'v isdh" and m m' d
  assume "side_push d m st = Inr st'"
  then obtain rc h where h: "isd_Set (snd m) d (st (fst m)) = Inr (rc, h)" "st' = st(fst m := h)"
    by (auto simp: side_push_def bindE_Inr_iff)
  obtain ds where ds: "isd_data (st (fst m)) = Some ds" "0 \<le> snd m" "snd m < int (length ds)"
    "isd_data h = Some (if IsEmpty (ds ! nat (snd m)) then ds[nat (snd m) := d] else ds)"
    by (rule isd_Set_cases [OF h(1)])
  show "side_slot st' m' = (if m' = m then (case side_slot st m of None \<Rightarrow> None
      | Some e \<Rightarrow> Some (if IsEmpty e then d else e)) else side_slot st m')"
    using h(2) ds by (cases m; cases m') (auto simp: side_slot_def nth_list_update nat_eq_iff2)
qed

text \<open>Setting an output side datum writes it to every mirrored slot that is still empty,
  keeps the value of every mirrored slot that already has one, and leaves every other slot of
  every node as it was; it succeeds whenever the mirrors point to prepared slots.\<close>

lemma osd_Set_exact:
  assumes "\<forall>m\<in>set (osd_mirrors o1). side_slot st m \<noteq> None"
  shows "\<exists>o2 st'. osd_Set d o1 st = Inr (o2, st') \<and> osd_datum o2 = d \<and> osd_mirrors o2 = osd_mirrors o1 \<and>
    (\<forall>m. side_slot st' m = (if m \<in> set (osd_mirrors o1)
       then map_option (\<lambda>e. if IsEmpty e then d else e) (side_slot st m) else side_slot st m))"
proof -
  obtain st' where st': "foldE (side_push d) (osd_mirrors o1) st = Inr st'" "\<forall>m. side_slot st' m =
      (if m \<in> set (osd_mirrors o1) then map_option (\<lambda>e. if IsEmpty e then d else e) (side_slot st m)
       else side_slot st m)"
    using side.push_all [OF assms, of d] by blast
  then show ?thesis by (simp add: osd_Set_def Let_def)
qed

lemma osd_Set_exact_example:
  "\<exists>o2 st'. osd_Set (Datum_ts (5::int) 1) \<lparr>osd_name = ''a'', osd_datum = Datum0, osd_mirrors = [(0, 0), (1, 1)]\<rparr>
     (\<lambda>n. \<lparr>isd_data = Some [Datum0, if n = 1 then Datum_ts 9 9 else Datum0]\<rparr>) = Inr (o2, st') \<and>
     side_slot st' (0, 0) = Some (Datum_ts 5 1) \<and> side_slot st' (1, 1) = Some (Datum_ts 9 9) \<and>
     side_slot st' (1, 0) = Some Datum0"
proof -
  let ?o = "\<lparr>osd_name = ''a'', osd_datum = Datum0, osd_mirrors = [(0, 0), (1, 1)]\<rparr>"
  let ?st = "\<lambda>n. \<lparr>isd_data = Some [Datum0, if n = 1 then Datum_ts (9::int) 9 else Datum0]\<rparr>"
  have "\<forall>m\<in>set (osd_mirrors ?o). side_slot ?st m \<noteq> None" by (simp add: side_slot_def)
  from osd_Set_exact [OF this, of "Datum_ts 5 1"] show ?thesis
    by (auto simp: side_slot_def)
qed

text \<open>Preparing a node's side data succeeds exactly if every name it asks for is known.\<close>

lemma collect_side_Some:
  "collect_side ns all =
     (if \<forall>n\<in>set ns. map_of all n \<noteq> None then Some (map (\<lambda>n. the (map_of all n)) ns) else None)"
  by (induction ns) (auto split: option.splits)

lemma prepareInputSideData_iff:
  "prepareInputSideData tm all \<noteq> None \<longleftrightarrow> (\<forall>n\<in>set (Names tm). map_of all n \<noteq> None)"
  using collect_side_Some [of "Names tm" all] by (auto simp: prepareInputSideData_def)

end
