(* ===== verification/Graph_Config.thy ===== *)
theory Graph_Config
  imports Tags
begin

text \<open>
  From a protobuf graph description to the resolved graph: \<open>utils/names.cc\<close>,
  \<open>node_config.cc\<close>, \<open>graph_config.h\<close>, \<open>graph_config.cc\<close>. The messages of \<open>dni.proto\<close> are
  records with the fields the code reads. A null \<open>TagMap\<close> that is handed to \<open>DtypeSet\<close>, whose
  constructor follows the pointer, gives \<open>Inl Undefined\<close>.
\<close>

section \<open>Messages\<close>

record node_proto =
  np_name :: string
  np_task :: string
  np_input_stream :: "string list"
  np_output_stream :: "string list"
  np_input_side_data :: "string list"
  np_output_side_data :: "string list"
  np_input_stream_info :: "string list"

record graph_proto =
  gp_node :: "node_proto list"
  gp_input_stream :: "string list"
  gp_output_stream :: "string list"
  gp_input_side_data :: "string list"

section \<open>Node names\<close>

definition base_name :: "node_proto \<Rightarrow> string" where
  "base_name n = (if np_name n = [] then np_task n else np_name n)"

definition CanonicalNodeName :: "graph_proto \<Rightarrow> nat \<Rightarrow> string" where
  "CanonicalNodeName g node_id =
     (let b = base_name (gp_node g ! node_id);
          same = filter (\<lambda>i. base_name (gp_node g ! i) = b) [0..<length (gp_node g)];
          count = length same;
          sq = length (filter (\<lambda>i. i < node_id) same)
      in if count \<le> 1 then b else b @ ''_'' @ to_string (int sq))"

section \<open>Node configuration\<close>

datatype node_type = UNKNOWN | TASK | DATA_GENERATOR | GRAPH_INPUT_STREAM

record node_ref =
  nr_type :: node_type
  nr_index :: int

record node_config =
  nc_name :: string
  nc_task :: string
  nc_inputs :: tag_map
  nc_outputs :: tag_map
  nc_input_side_data :: tag_map
  nc_output_side_data :: tag_map

definition NodeConfig_Initialize :: "string \<Rightarrow> node_proto \<Rightarrow> (int \<times> node_config) outcome" where
  "NodeConfig_Initialize name node =
     bindE (NewTagMap (np_input_stream node)) (\<lambda>i.
     bindE (NewTagMap (np_output_stream node)) (\<lambda>out.
     bindE (NewTagMap (np_input_side_data node)) (\<lambda>si.
     bindE (NewTagMap (np_output_side_data node)) (\<lambda>so.
       case (i, out, si, so) of
         (Some i, Some out, Some si, Some so) \<Rightarrow>
           Inr (0, \<lparr>nc_name = name, nc_task = np_task node, nc_inputs = i, nc_outputs = out,
             nc_input_side_data = si, nc_output_side_data = so\<rparr>)
       | _ \<Rightarrow> Inl Undefined))))"

record node_info =
  ni_cfg :: node_config
  ni_ref :: node_ref
  ni_predecessors :: "string list"
  input_stream_base_index :: int
  output_stream_base_index :: int
  input_side_data_base_index :: int
  output_side_data_base_index :: int

text \<open>The check of \<open>input_stream_info\<close>: every entry names a different input stream.\<close>

fun check_info :: "tag_map \<Rightarrow> string list \<Rightarrow> bool list \<Rightarrow> int outcome" where
  "check_info tm [] id_used = Inr 0"
| "check_info tm (s # ss) id_used =
     bindE (ParseTagIndex s ([], 0)) (\<lambda>(rc, tag, index).
       let slot = FindByTagIndex tm tag index in
       if slot < 0 then Inr (- 1)
       else if slot \<ge> int (length id_used) then Inl Undefined
       else if id_used ! nat slot then Inr (- 1)
       else check_info tm ss (id_used[nat slot := True]))"

text \<open>The four base indices of a fresh \<open>NodeInfo\<close> are indeterminate; \<open>-1\<close> stands for them.\<close>

definition NodeInfo_Initialize :: "graph_proto \<Rightarrow> node_proto \<Rightarrow> nat \<Rightarrow> (int \<times> node_info) outcome" where
  "NodeInfo_Initialize g node index =
     bindE (NodeConfig_Initialize (CanonicalNodeName g index) node) (\<lambda>(rc, cfg).
       let info = \<lparr>ni_cfg = cfg, ni_ref = \<lparr>nr_type = TASK, nr_index = int index\<rparr>, ni_predecessors = [],
             input_stream_base_index = - 1, output_stream_base_index = - 1,
             input_side_data_base_index = - 1, output_side_data_base_index = - 1\<rparr>
       in if rc \<noteq> 0 then Inr (- 1, info)
          else if np_input_stream_info node \<noteq> [] then
            bindE (check_info (nc_inputs cfg) (np_input_stream_info node)
                (replicate (nat (NStreams (nc_inputs cfg))) False)) (\<lambda>rc. Inr (rc, info))
          else Inr (0, info))"

definition AddPredecessor :: "string \<Rightarrow> node_info \<Rightarrow> node_info" where
  "AddPredecessor p n = n\<lparr>ni_predecessors := us_insert p (ni_predecessors n)\<rparr>"

section \<open>Edges\<close>

record edge_info =
  ei_name :: string
  ei_parent :: node_ref
  ei_upstream :: int

definition Edge :: "string \<Rightarrow> node_ref \<Rightarrow> edge_info" where
  "Edge name ref = \<lparr>ei_name = name, ei_parent = ref, ei_upstream = - 1\<rparr>"

text \<open>One kind of edges of a graph (streams, or side data): the inputs, the outputs, and for
  each output name its index and its node.\<close>

record edges =
  e_inputs :: "edge_info list"
  e_outputs :: "edge_info list"
  e_to_index :: "(string \<times> int) list"
  e_to_node :: "(string \<times> string) list"

definition edges0 :: edges where
  "edges0 = \<lparr>e_inputs = [], e_outputs = [], e_to_index = [], e_to_node = []\<rparr>"

definition add_graph_edge :: "string \<Rightarrow> node_ref \<Rightarrow> edges \<Rightarrow> edges" where
  "add_graph_edge name ref es = es\<lparr>e_outputs := e_outputs es @ [Edge name ref],
     e_to_index := um_insert name (int (length (e_outputs es))) (e_to_index es)\<rparr>"

definition add_output_edge :: "node_info \<Rightarrow> string \<Rightarrow> edges \<Rightarrow> edges" where
  "add_output_edge node name es = es\<lparr>e_outputs := e_outputs es @ [Edge name (ni_ref node)],
     e_to_index := um_insert name (int (length (e_outputs es))) (e_to_index es),
     e_to_node := um_insert name (nc_name (ni_cfg node)) (e_to_node es)\<rparr>"

definition add_input_edge :: "string \<Rightarrow> node_info \<times> edges \<Rightarrow> node_info \<times> edges" where
  "add_input_edge name = (\<lambda>(node, es).
     let edge = Edge name (ni_ref node) in
     case map_of (e_to_index es) name of
       None \<Rightarrow> (node, es\<lparr>e_inputs := e_inputs es @ [edge]\<rparr>)
     | Some k \<Rightarrow>
         ((case map_of (e_to_node es) name of None \<Rightarrow> node | Some p \<Rightarrow> AddPredecessor p node),
          es\<lparr>e_inputs := e_inputs es @ [edge\<lparr>ei_upstream := k\<rparr>]\<rparr>))"

definition initializeNodeSideData :: "node_info \<times> edges \<Rightarrow> int \<times> node_info \<times> edges" where
  "initializeNodeSideData = (\<lambda>(node, es).
     let node = node\<lparr>input_side_data_base_index := int (length (e_inputs es))\<rparr>;
         (node, es) = fold add_input_edge (Names (nc_input_side_data (ni_cfg node))) (node, es);
         node = node\<lparr>output_side_data_base_index := int (length (e_outputs es))\<rparr>;
         es = fold (add_output_edge node) (Names (nc_output_side_data (ni_cfg node))) es
     in (0, node, es))"

definition initializeNodeStreams :: "node_info \<times> edges \<Rightarrow> int \<times> node_info \<times> edges" where
  "initializeNodeStreams = (\<lambda>(node, es).
     let node = node\<lparr>output_stream_base_index := int (length (e_outputs es))\<rparr>;
         es = fold (add_output_edge node) (Names (nc_outputs (ni_cfg node))) es;
         node = node\<lparr>input_stream_base_index := int (length (e_inputs es))\<rparr>;
         (node, es) = fold add_input_edge (Names (nc_inputs (ni_cfg node))) (node, es)
     in (0, node, es))"

text \<open>The loop over the nodes, with its two early returns.\<close>

fun each_node ::
  "(node_info \<times> edges \<Rightarrow> int \<times> node_info \<times> edges) \<Rightarrow> node_info list \<Rightarrow> edges \<Rightarrow> int \<times> node_info list \<times> edges" where
  "each_node f [] es = (0, [], es)"
| "each_node f (n # ns) es =
     (if nr_type (ni_ref n) \<noteq> TASK then (- 1, n # ns, es)
      else case f (n, es) of (rc, n', es') \<Rightarrow>
        if rc \<noteq> 0 then (- 1, n' # ns, es')
        else case each_node f ns es' of (rc, ns', es'') \<Rightarrow> (rc, n' # ns', es''))"

record parsed_config =
  pc_proto :: graph_proto
  pc_nodes :: "node_info list"
  pc_streams :: edges
  pc_side :: edges

fun init_nodes :: "graph_proto \<Rightarrow> node_proto list \<Rightarrow> nat \<Rightarrow> (int \<times> node_info list) outcome" where
  "init_nodes g [] i = Inr (0, [])"
| "init_nodes g (n # ns) i =
     bindE (NodeInfo_Initialize g n i) (\<lambda>(rc, info).
       if rc \<noteq> 0 then Inr (- 1, [info])
       else bindE (init_nodes g ns (Suc i)) (\<lambda>(rc, infos). Inr (rc, info # infos)))"

definition pc_InitializeNodes :: "parsed_config \<Rightarrow> (int \<times> parsed_config) outcome" where
  "pc_InitializeNodes pc = bindE (init_nodes (pc_proto pc) (gp_node (pc_proto pc)) 0)
     (\<lambda>(rc, infos). Inr (rc, pc\<lparr>pc_nodes := infos\<rparr>))"

definition pc_InitializeSideData :: "parsed_config \<Rightarrow> (int \<times> parsed_config) outcome" where
  "pc_InitializeSideData pc =
     bindE (if gp_input_side_data (pc_proto pc) = [] then Inr (Some (pc_side pc))
            else bindE (NewTagMap (gp_input_side_data (pc_proto pc))) (\<lambda>tm. Inr (map_option (\<lambda>tm.
              fold (\<lambda>name. add_graph_edge name \<lparr>nr_type = UNKNOWN, nr_index = - 1\<rparr>) (Names tm) (pc_side pc)) tm)))
       (\<lambda>side. case side of
          None \<Rightarrow> Inr (- 1, pc)
        | Some es \<Rightarrow> (case each_node initializeNodeSideData (pc_nodes pc) es of
            (rc, ns, es') \<Rightarrow> Inr (rc, pc\<lparr>pc_nodes := ns, pc_side := es'\<rparr>)))"

definition graph_input_edges :: "nat \<Rightarrow> string list \<Rightarrow> edges \<Rightarrow> edges" where
  "graph_input_edges node_size names es =
     fold (\<lambda>(i, name). add_graph_edge name \<lparr>nr_type = GRAPH_INPUT_STREAM, nr_index = int i + int node_size\<rparr>)
       (enumerate 0 names) es"

definition pc_InitializeStreams :: "parsed_config \<Rightarrow> (int \<times> parsed_config) outcome" where
  "pc_InitializeStreams pc =
     bindE (NewTagMap (gp_input_stream (pc_proto pc))) (\<lambda>tm. case tm of
       None \<Rightarrow> Inr (- 1, pc)
     | Some tm \<Rightarrow>
         let es = graph_input_edges (length (gp_node (pc_proto pc))) (Names tm) (pc_streams pc) in
         (case each_node initializeNodeStreams (pc_nodes pc) es of (rc, ns, es') \<Rightarrow>
            let pc' = pc\<lparr>pc_nodes := ns, pc_streams := es'\<rparr> in
            if rc \<noteq> 0 then Inr (- 1, pc')
            else bindE (NewTagMap (gp_output_stream (pc_proto pc))) (\<lambda>tm.
              Inr (if tm = None then - 1 else 0, pc'))))"

text \<open>\<open>need_sorting\<close> is handed down as a pointer that nothing writes through, so the branch that
  sorts the nodes and starts over is never taken.\<close>

definition pc_Initialize :: "graph_proto \<Rightarrow> (int \<times> parsed_config) outcome" where
  "pc_Initialize config =
     (let pc = \<lparr>pc_proto = config, pc_nodes = [], pc_streams = edges0, pc_side = edges0\<rparr>;
          need_sorting = False
      in bindE (pc_InitializeNodes pc) (\<lambda>(rc, pc).
         if rc \<noteq> 0 then Inr (- 1, pc)
         else bindE (pc_InitializeSideData pc) (\<lambda>(rc, pc).
           if rc \<noteq> 0 then Inr (- 1, pc)
           else bindE (pc_InitializeStreams pc) (\<lambda>(rc, pc).
             if rc \<noteq> 0 then Inr (- 1, pc)
             else if need_sorting then
               bindE (pc_InitializeSideData (pc\<lparr>pc_streams := edges0, pc_side := edges0\<rparr>)) (\<lambda>(rc, pc).
                 if rc \<noteq> 0 then Inr (- 1, pc)
                 else bindE (pc_InitializeStreams pc) (\<lambda>(rc, pc).
                   if rc \<noteq> 0 then Inr (- 1, pc) else Inr (0, pc)))
             else Inr (0, pc)))))"

definition OutputStreamIndex :: "parsed_config \<Rightarrow> string \<Rightarrow> int" where
  "OutputStreamIndex pc name = (case map_of (e_to_index (pc_streams pc)) name of None \<Rightarrow> - 1 | Some k \<Rightarrow> k)"

definition OutputSideDataIndex :: "parsed_config \<Rightarrow> string \<Rightarrow> int" where
  "OutputSideDataIndex pc name = (case map_of (e_to_index (pc_side pc)) name of None \<Rightarrow> - 1 | Some k \<Rightarrow> k)"

section \<open>Canonical names\<close>

lemma split_last_sep:
  assumes "a @ c # x = b @ c # y" "c \<notin> set x" "c \<notin> set y"
  shows "a = b \<and> x = y"
proof -
  have "rev x @ c # rev a = rev y @ c # rev b" using assms(1) by (metis append.assoc append_Cons append_Nil rev.simps(2) rev_append)
  moreover have "takeWhile (\<lambda>z. z \<noteq> c) (rev x @ c # rev a) = rev x"
    "takeWhile (\<lambda>z. z \<noteq> c) (rev y @ c # rev b) = rev y"
    using assms(2,3) by (auto simp: takeWhile_append takeWhile_eq_all_conv)
  ultimately show ?thesis by (metis append_eq_append_conv list.inject rev_rev_ident)
qed

lemma to_string_no_underscore: "0 \<le> k \<Longrightarrow> CHR ''_'' \<notin> set (to_string k)"
proof
  assume "0 \<le> k" "CHR ''_'' \<in> set (to_string k)"
  then have "isdigit CHR ''_''" using nat_string_isdigit by (simp add: to_string_def)
  moreover have "\<not> isdigit CHR ''_''" by code_simp
  ultimately show False by simp
qed

lemma filter_below_less:
  assumes "i < j" "j < n" "P i"
  shows "length (filter (\<lambda>k. k < i) (filter P [0..<n])) < length (filter (\<lambda>k. k < j) (filter P [0..<n]))"
proof -
  let ?S = "\<lambda>m. {k. k < n \<and> P k \<and> k < m}"
  have "length (filter (\<lambda>k. k < m) (filter P [0..<n])) = card (?S m)" for m
  proof -
    have "set (filter (\<lambda>k. k < m) (filter P [0..<n])) = ?S m" by auto
    then show ?thesis using distinct_card [of "filter (\<lambda>k. k < m) (filter P [0..<n])"] by simp
  qed
  moreover have "card (?S i) < card (?S j)"
  proof (rule psubset_card_mono)
    have "i \<in> ?S j" "i \<notin> ?S i" using assms by simp_all
    moreover have "?S i \<subseteq> ?S j" using assms(1) by (auto intro: less_trans)
    ultimately show "?S i \<subset> ?S j" by blast
  qed simp
  ultimately show ?thesis by simp
qed

lemma filter_two:
  assumes "i < j" "j < n" "P i" "P j"
  shows "1 < length (filter P [0..<n])"
proof -
  have "card {i, j} \<le> card (set (filter P [0..<n]))" using assms by (intro card_mono) auto
  then show ?thesis using assms(1) distinct_card [of "filter P [0..<n]"] by simp
qed

lemma CanonicalNodeName_same_base:
  assumes "i < j" "j < length (gp_node g)" "base_name (gp_node g ! i) = base_name (gp_node g ! j)"
  shows "CanonicalNodeName g i \<noteq> CanonicalNodeName g j"
proof -
  define P where "P = (\<lambda>k. base_name (gp_node g ! k) = base_name (gp_node g ! j))"
  have P: "P i" "P j" using assms(3) by (simp_all add: P_def)
  have "CanonicalNodeName g m = base_name (gp_node g ! j) @ ''_'' @
      to_string (int (length (filter (\<lambda>k. k < m) (filter P [0..<length (gp_node g)]))))"
    if "m = i \<or> m = j" for m
    using filter_two [of i j _ P, OF assms(1,2) P] that assms(3) by (auto simp: CanonicalNodeName_def Let_def P_def)
  then show ?thesis
    using filter_below_less [of i j _ P, OF assms(1,2) P(1)] to_string_inj
    by (metis append_same_eq nat_neq_iff of_nat_0_le_iff of_nat_eq_iff same_append_eq)
qed

lemma CanonicalNodeName_form:
  "CanonicalNodeName g i = base_name (gp_node g ! i) \<or>
   (\<exists>k. CanonicalNodeName g i = base_name (gp_node g ! i) @ ''_'' @ to_string (int k))"
  by (auto simp: CanonicalNodeName_def Let_def)

text \<open>The canonical names of the nodes of a graph are pairwise different, whatever names
  repeat, as long as no configured name is another one followed by an underscore and a
  number.\<close>

lemma CanonicalNodeName_distinct:
  assumes "\<forall>m\<in>set (gp_node g). \<forall>n\<in>set (gp_node g). \<forall>k::nat. base_name m \<noteq> base_name n @ ''_'' @ to_string (int k)"
  shows "distinct (map (CanonicalNodeName g) [0..<length (gp_node g)])"
proof -
  have ne: "CanonicalNodeName g i \<noteq> CanonicalNodeName g j" if ij: "i < j" "j < length (gp_node g)" for i j
  proof (cases "base_name (gp_node g ! i) = base_name (gp_node g ! j)")
    case True
    then show ?thesis using CanonicalNodeName_same_base ij by blast
  next
    case False
    have mem: "gp_node g ! i \<in> set (gp_node g)" "gp_node g ! j \<in> set (gp_node g)" using ij by auto
    let ?a = "base_name (gp_node g ! i)" and ?b = "base_name (gp_node g ! j)"
    have "?a @ ''_'' @ to_string (int k) \<noteq> ?b @ ''_'' @ to_string (int l)" for k l
      using split_last_sep [of ?a "CHR ''_''" "to_string (int k)" ?b "to_string (int l)"] False
      by (auto simp: to_string_no_underscore)
    moreover have "?a \<noteq> ?b @ ''_'' @ to_string (int k)" "?b \<noteq> ?a @ ''_'' @ to_string (int k)" for k
      using assms mem by blast+
    ultimately show ?thesis
      using CanonicalNodeName_form [of g i] CanonicalNodeName_form [of g j] False by metis
  qed
  show ?thesis
    unfolding distinct_conv_nth using ne by (auto simp: nat_neq_iff) (metis ne)
qed

section \<open>Resolution of edges\<close>

text \<open>
  \<open>src_ok b outs n u\<close>: position \<open>u\<close> holds an output named \<open>n\<close> of the graph or of a node not
  after \<open>b\<close>. \<open>in_ok d outs e\<close>: the input \<open>e\<close> of node \<open>i\<close> refers to such an output for
  \<open>b = i - d\<close>, or has no upstream and every output of its name belongs to a later node. The offset
  is 0 for streams, whose outputs are entered before the inputs of the same node, and 1 for side data.
\<close>

definition src_ok :: "int \<Rightarrow> edge_info list \<Rightarrow> string \<Rightarrow> int \<Rightarrow> bool" where
  "src_ok b outs n u \<longleftrightarrow> 0 \<le> u \<and> u < int (length outs) \<and> ei_name (outs ! nat u) = n \<and>
     (nr_type (ei_parent (outs ! nat u)) = TASK \<longrightarrow> nr_index (ei_parent (outs ! nat u)) \<le> b)"

definition in_ok :: "int \<Rightarrow> edge_info list \<Rightarrow> edge_info \<Rightarrow> bool" where
  "in_ok d outs e \<longleftrightarrow> (let b = nr_index (ei_parent e) - d in
     (ei_upstream e = - 1 \<and> (\<forall>out\<in>set outs. ei_name out = ei_name e \<longrightarrow>
        nr_type (ei_parent out) = TASK \<and> b < nr_index (ei_parent out))) \<or>
     src_ok b outs (ei_name e) (ei_upstream e))"

definition edges_inv :: "int \<Rightarrow> int \<Rightarrow> int \<Rightarrow> edges \<Rightarrow> bool" where
  "edges_inv d k b es \<longleftrightarrow>
     (\<forall>n u. map_of (e_to_index es) n = Some u \<longrightarrow> src_ok b (e_outputs es) n u) \<and>
     dom (map_of (e_to_index es)) = ei_name ` set (e_outputs es) \<and>
     (\<forall>e\<in>set (e_inputs es). nr_index (ei_parent e) - d \<le> k \<and> in_ok d (e_outputs es) e)"

lemma src_ok_mono: "src_ok b outs n u \<Longrightarrow> b \<le> b' \<Longrightarrow> src_ok b' (outs @ xs) n u"
  by (auto simp: src_ok_def nth_append)

lemma edges_inv_mono: "edges_inv d k b es \<Longrightarrow> k \<le> k' \<Longrightarrow> b \<le> b' \<Longrightarrow> edges_inv d k' b' es"
  using src_ok_mono [of b "e_outputs es" _ _ b' "[]"] by (fastforce simp: edges_inv_def)

text \<open>Entering an output edge, of the graph or of a node after all nodes with inputs.\<close>

definition enter_output :: "string \<Rightarrow> node_ref \<Rightarrow> edges \<Rightarrow> edges" where
  "enter_output name ref es = es\<lparr>e_outputs := e_outputs es @ [Edge name ref],
     e_to_index := um_insert name (int (length (e_outputs es))) (e_to_index es)\<rparr>"

lemma enter_output_inv:
  assumes "edges_inv d k b es"
    and "e_inputs es = [] \<and> nr_type ref \<noteq> TASK \<or> nr_type ref = TASK \<and> k < nr_index ref \<and> nr_index ref \<le> b"
  shows "edges_inv d k b (enter_output name ref es)"
proof -
  let ?o = "e_outputs es @ [Edge name ref]"
  have "src_ok b ?o n u" if "map_of (um_insert name (int (length (e_outputs es))) (e_to_index es)) n = Some u" for n u
  proof (cases "n = name")
    case True
    then show ?thesis using that assms(2) by (auto simp: um_lookup_update src_ok_def Edge_def)
  next
    case False
    then show ?thesis using that assms(1) src_ok_mono by (fastforce simp: um_lookup_update edges_inv_def)
  qed
  moreover have "in_ok d ?o e" if "e \<in> set (e_inputs es)" for e
    using that assms src_ok_mono [of _ "e_outputs es" _ _ _ "[Edge name ref]"]
    by (fastforce simp: edges_inv_def in_ok_def Let_def Edge_def)
  ultimately show ?thesis
    using assms(1) by (auto simp: edges_inv_def enter_output_def um_lookup_update Edge_def)
qed

lemma add_graph_edge_enter: "add_graph_edge name ref es = enter_output name ref es"
  by (simp add: add_graph_edge_def enter_output_def)

lemma add_output_edge_enter:
  "add_output_edge node name es = (enter_output name (ni_ref node) es)
     \<lparr>e_to_node := um_insert name (nc_name (ni_cfg node)) (e_to_node es)\<rparr>"
  by (simp add: add_output_edge_def enter_output_def)

lemma edges_inv_to_node [simp]: "edges_inv d k b (es\<lparr>e_to_node := x\<rparr>) = edges_inv d k b es"
  by (simp add: edges_inv_def)

lemma fold_add_output:
  assumes "edges_inv d k b es" "nr_type (ni_ref node) = TASK" "k < nr_index (ni_ref node)" "nr_index (ni_ref node) \<le> b"
  shows "edges_inv d k b (fold (add_output_edge node) names es)"
  using assms(1)
  by (induction names arbitrary: es) (simp_all add: add_output_edge_enter enter_output_inv assms)

lemma fold_add_output_lists:
  "e_inputs (fold (add_output_edge node) names es) = e_inputs es"
  "e_outputs (fold (add_output_edge node) names es) = e_outputs es @ map (\<lambda>n. Edge n (ni_ref node)) names"
  "map_of (e_to_node (fold (add_output_edge node) names es)) n =
     (if n \<in> set names then Some (nc_name (ni_cfg node)) else map_of (e_to_node es) n)"
  by (induction names arbitrary: es) (simp_all add: add_output_edge_def um_lookup_update)

text \<open>Entering the inputs of a node.\<close>

definition resolve_edge :: "edges \<Rightarrow> node_ref \<Rightarrow> string \<Rightarrow> edge_info" where
  "resolve_edge es ref n = (case map_of (e_to_index es) n of
     None \<Rightarrow> Edge n ref | Some u \<Rightarrow> (Edge n ref)\<lparr>ei_upstream := u\<rparr>)"

definition same_node :: "node_info \<Rightarrow> node_info \<Rightarrow> bool" where
  "same_node n n' \<longleftrightarrow> ni_cfg n' = ni_cfg n \<and> ni_ref n' = ni_ref n"

lemma fold_add_input:
  "\<exists>node'. fold add_input_edge names (node, es) =
      (node', es\<lparr>e_inputs := e_inputs es @ map (resolve_edge es (ni_ref node)) names\<rparr>) \<and>
    same_node node node' \<and>
    input_stream_base_index node' = input_stream_base_index node \<and>
    output_stream_base_index node' = output_stream_base_index node \<and>
    input_side_data_base_index node' = input_side_data_base_index node \<and>
    output_side_data_base_index node' = output_side_data_base_index node \<and>
    set (ni_predecessors node') \<subseteq> set (ni_predecessors node) \<union> {p. \<exists>n\<in>set names. map_of (e_to_node es) n = Some p}"
proof (induction names arbitrary: node es)
  case (Cons n names)
  define es1 where "es1 = es\<lparr>e_inputs := e_inputs es @ [resolve_edge es (ni_ref node) n]\<rparr>"
  obtain node1 where n1: "add_input_edge n (node, es) = (node1, es1)" "same_node node node1"
    "input_stream_base_index node1 = input_stream_base_index node"
    "output_stream_base_index node1 = output_stream_base_index node"
    "input_side_data_base_index node1 = input_side_data_base_index node"
    "output_side_data_base_index node1 = output_side_data_base_index node"
    "set (ni_predecessors node1) \<subseteq> set (ni_predecessors node) \<union> {p. map_of (e_to_node es) n = Some p}"
    by (cases "map_of (e_to_index es) n"; cases "map_of (e_to_node es) n")
      (auto simp: add_input_edge_def AddPredecessor_def same_node_def es1_def resolve_edge_def Let_def)
  have "resolve_edge es1 = resolve_edge es" by (simp add: es1_def resolve_edge_def fun_eq_iff)
  moreover have "map_of (e_to_node es1) = map_of (e_to_node es)" by (simp add: es1_def)
  ultimately show ?case
    using Cons [of node1 es1] n1 by (fastforce simp: es1_def same_node_def)
qed (simp add: same_node_def)

lemma add_inputs_inv:
  assumes "edges_inv d k b es" "nr_index ref - d = b" "k \<le> b"
  shows "edges_inv d b b (es\<lparr>e_inputs := e_inputs es @ map (resolve_edge es ref) names\<rparr>)"
proof -
  have "in_ok d (e_outputs es) (resolve_edge es ref n) \<and> nr_index (ei_parent (resolve_edge es ref n)) - d \<le> b" for n
  proof (cases "map_of (e_to_index es) n")
    case None
    then have "n \<notin> ei_name ` set (e_outputs es)" using assms(1) by (metis domIff edges_inv_def)
    then show ?thesis using None assms(2) by (auto simp: resolve_edge_def in_ok_def Edge_def Let_def)
  next
    case (Some u)
    then show ?thesis using assms(1,2) by (simp add: resolve_edge_def in_ok_def Edge_def Let_def edges_inv_def)
  qed
  then show ?thesis using edges_inv_mono [OF assms(1) assms(3) order_refl] by (auto simp: edges_inv_def)
qed

section \<open>The loop over the nodes\<close>

text \<open>Both passes over the nodes keep an invariant indexed by the position reached and establish
  a fact about every node they leave behind.\<close>

lemma each_node_induct:
  assumes "each_node f ns es = (0, ns', es')" "I i es"
    and step: "\<And>j es rc n' es'. j < length ns \<Longrightarrow> I (i + j) es \<Longrightarrow> nr_type (ni_ref (ns ! j)) = TASK \<Longrightarrow>
      f (ns ! j, es) = (rc, n', es') \<Longrightarrow> rc = 0 \<and> I (Suc (i + j)) es' \<and> Q (i + j) (ns ! j) n'"
  shows "I (i + length ns) es' \<and> length ns' = length ns \<and> (\<forall>j < length ns. Q (i + j) (ns ! j) (ns' ! j))"
  using assms
proof (induction ns arbitrary: es i ns')
  case (Cons n ns)
  obtain rc n1 es1 where f: "f (n, es) = (rc, n1, es1)" by (cases "f (n, es)")
  have ty: "nr_type (ni_ref n) = TASK" using Cons.prems(1) by (auto split: if_splits)
  have s1: "rc = 0" "I (Suc i) es1" "Q i n n1"
    using Cons.prems(3) [of 0 es rc n1 es1] Cons.prems(2) ty f by auto
  obtain ns1 where r: "each_node f ns es1 = (0, ns1, es')" "ns' = n1 # ns1"
    using Cons.prems(1) ty f s1(1) by (auto split: prod.splits)
  have "I (Suc i + length ns) es' \<and> length ns1 = length ns \<and> (\<forall>j<length ns. Q (Suc i + j) (ns ! j) (ns1 ! j))"
  proof (rule Cons.IH [OF r(1) s1(2)])
    fix j es rc n' es'
    assume "j < length ns" "I (Suc i + j) es" "nr_type (ni_ref (ns ! j)) = TASK" "f (ns ! j, es) = (rc, n', es')"
    then show "rc = 0 \<and> I (Suc (Suc i + j)) es' \<and> Q (Suc i + j) (ns ! j) n'"
      using Cons.prems(3) [of "Suc j" es rc n' es'] by simp
  qed
  then show ?case using s1(3) r(2) by (auto simp: nth_Cons split: nat.splits)
qed simp

text \<open>Producers: the node an output name is attributed to is one of the first \<open>k\<close> nodes.\<close>

definition producers_inv :: "(nat \<Rightarrow> node_config) \<Rightarrow> (node_config \<Rightarrow> string list) \<Rightarrow> nat \<Rightarrow> edges \<Rightarrow> bool" where
  "producers_inv cfg outs k es \<longleftrightarrow> (\<forall>n p. map_of (e_to_node es) n = Some p \<longrightarrow>
     (\<exists>j < k. p = nc_name (cfg j) \<and> n \<in> set (outs (cfg j))))"

definition feeds :: "(nat \<Rightarrow> node_config) \<Rightarrow> (node_config \<Rightarrow> string list) \<Rightarrow> string list \<Rightarrow> nat \<Rightarrow> string set" where
  "feeds cfg outs names k = {nc_name (cfg j) | j. j < k \<and> set (outs (cfg j)) \<inter> set names \<noteq> {}}"

lemma producers_feeds:
  "producers_inv cfg outs k es \<Longrightarrow> {p. \<exists>n\<in>set names. map_of (e_to_node es) n = Some p} \<subseteq> feeds cfg outs names k"
  by (fastforce simp: producers_inv_def feeds_def)

lemma producers_add:
  assumes "producers_inv cfg outs k es" "ni_cfg node = cfg k"
  shows "producers_inv cfg outs (Suc k) (fold (add_output_edge node) (outs (cfg k)) es)"
proof -
  have "\<exists>j<Suc k. p = nc_name (cfg j) \<and> n \<in> set (outs (cfg j))"
    if lk: "map_of (e_to_node (fold (add_output_edge node) (outs (cfg k)) es)) n = Some p" for n p
  proof (cases "n \<in> set (outs (cfg k))")
    case True
    then show ?thesis using that assms(2) by (auto simp: fold_add_output_lists)
  next
    case False
    then obtain j where "j < k" "p = nc_name (cfg j)" "n \<in> set (outs (cfg j))"
      using lk assms(1) by (auto simp: fold_add_output_lists(3) producers_inv_def)
    then show ?thesis by (intro exI [of _ j]) simp
  qed
  then show ?thesis by (simp add: producers_inv_def)
qed

abbreviation out_streams :: "node_config \<Rightarrow> string list" where
  "out_streams c \<equiv> Names (nc_outputs c)"

abbreviation out_side :: "node_config \<Rightarrow> string list" where
  "out_side c \<equiv> Names (nc_output_side_data c)"

definition same_side :: "node_info \<Rightarrow> node_info \<Rightarrow> bool" where
  "same_side n n' \<longleftrightarrow> input_side_data_base_index n' = input_side_data_base_index n \<and>
     output_side_data_base_index n' = output_side_data_base_index n"

lemma initializeNodeStreams_step:
  assumes "edges_inv 0 (int i - 1) (int i - 1) es" "producers_inv cfg out_streams i es"
    "ni_ref node = \<lparr>nr_type = TASK, nr_index = int i\<rparr>" "ni_cfg node = cfg i"
    "initializeNodeStreams (node, es) = (rc, node', es')"
  shows "rc = 0 \<and> edges_inv 0 (int i) (int i) es' \<and> producers_inv cfg out_streams (Suc i) es' \<and>
    same_node node node' \<and> same_side node node' \<and> output_stream_base_index node' = int (length (e_outputs es)) \<and>
    input_stream_base_index node' = int (length (e_inputs es)) \<and>
    map ei_name (e_outputs es') = map ei_name (e_outputs es) @ Names (nc_outputs (cfg i)) \<and>
    map ei_name (e_inputs es') = map ei_name (e_inputs es) @ Names (nc_inputs (cfg i)) \<and>
    set (ni_predecessors node') \<subseteq> set (ni_predecessors node) \<union> feeds cfg out_streams (Names (nc_inputs (cfg i))) (Suc i)"
proof -
  let ?n0 = "node\<lparr>output_stream_base_index := int (length (e_outputs es))\<rparr>"
  let ?es1 = "fold (add_output_edge ?n0) (Names (nc_outputs (cfg i))) es"
  let ?n1 = "?n0\<lparr>input_stream_base_index := int (length (e_inputs ?es1))\<rparr>"
  let ?es2 = "?es1\<lparr>e_inputs := e_inputs ?es1 @ map (resolve_edge ?es1 (ni_ref ?n1)) (Names (nc_inputs (cfg i)))\<rparr>"
  have inv1: "edges_inv 0 (int i - 1) (int i) ?es1"
    using fold_add_output [of 0 "int i - 1" "int i" es ?n0] edges_inv_mono [OF assms(1)] assms(3) by simp
  have inv2: "edges_inv 0 (int i) (int i) ?es2"
    using add_inputs_inv [OF inv1, of "ni_ref ?n1"] assms(3) by simp
  have prod: "producers_inv cfg out_streams (Suc i) ?es1"
    using producers_add [OF assms(2), of ?n0] assms(4) by simp
  obtain n2 where n2: "fold add_input_edge (Names (nc_inputs (cfg i))) (?n1, ?es1) = (n2, ?es2)"
    "same_node ?n1 n2" "input_stream_base_index n2 = input_stream_base_index ?n1"
    "output_stream_base_index n2 = output_stream_base_index ?n1" "same_side ?n1 n2"
    "set (ni_predecessors n2) \<subseteq> set (ni_predecessors ?n1) \<union>
       {p. \<exists>n\<in>set (Names (nc_inputs (cfg i))). map_of (e_to_node ?es1) n = Some p}"
    using fold_add_input [of "Names (nc_inputs (cfg i))" ?n1 ?es1] unfolding same_side_def by blast
  have res: "rc = 0" "node' = n2" "es' = ?es2"
    using assms(4,5) n2(1) by (simp_all add: initializeNodeStreams_def Let_def)
  have names: "ei_name (resolve_edge e r n) = n" for e r n
    by (simp add: resolve_edge_def Edge_def split: option.splits)
  have preds: "set (ni_predecessors n2) \<subseteq> set (ni_predecessors node) \<union>
      feeds cfg out_streams (Names (nc_inputs (cfg i))) (Suc i)"
    using n2(6) producers_feeds [OF prod, of "Names (nc_inputs (cfg i))"] by fastforce
  show ?thesis
    using inv2 prod n2(2-5) preds
    by (simp add: res fold_add_output_lists(1,2) same_node_def same_side_def producers_inv_def comp_def names Edge_def)
qed

lemma initializeNodeSideData_step:
  assumes "edges_inv 1 (int i - 2) (int i - 1) es" "producers_inv cfg out_side i es"
    "ni_ref node = \<lparr>nr_type = TASK, nr_index = int i\<rparr>" "ni_cfg node = cfg i"
    "initializeNodeSideData (node, es) = (rc, node', es')"
  shows "rc = 0 \<and> edges_inv 1 (int i - 1) (int i) es' \<and> producers_inv cfg out_side (Suc i) es' \<and>
    same_node node node' \<and> output_side_data_base_index node' = int (length (e_outputs es)) \<and>
    input_side_data_base_index node' = int (length (e_inputs es)) \<and>
    map ei_name (e_outputs es') = map ei_name (e_outputs es) @ Names (nc_output_side_data (cfg i)) \<and>
    map ei_name (e_inputs es') = map ei_name (e_inputs es) @ Names (nc_input_side_data (cfg i)) \<and>
    set (ni_predecessors node') \<subseteq> set (ni_predecessors node) \<union> feeds cfg out_side (Names (nc_input_side_data (cfg i))) i"
proof -
  let ?n0 = "node\<lparr>input_side_data_base_index := int (length (e_inputs es))\<rparr>"
  let ?es1 = "es\<lparr>e_inputs := e_inputs es @ map (resolve_edge es (ni_ref ?n0)) (Names (nc_input_side_data (cfg i)))\<rparr>"
  obtain n1 where n1: "fold add_input_edge (Names (nc_input_side_data (cfg i))) (?n0, es) = (n1, ?es1)"
    "same_node ?n0 n1" "input_side_data_base_index n1 = input_side_data_base_index ?n0"
    "set (ni_predecessors n1) \<subseteq> set (ni_predecessors ?n0) \<union>
       {p. \<exists>n\<in>set (Names (nc_input_side_data (cfg i))). map_of (e_to_node es) n = Some p}"
    using fold_add_input [of "Names (nc_input_side_data (cfg i))" ?n0 es] by blast
  let ?n2 = "n1\<lparr>output_side_data_base_index := int (length (e_outputs es))\<rparr>"
  let ?es2 = "fold (add_output_edge ?n2) (Names (nc_output_side_data (cfg i))) ?es1"
  have ref: "ni_ref ?n2 = \<lparr>nr_type = TASK, nr_index = int i\<rparr>" "ni_cfg ?n2 = cfg i"
    using n1(2) assms(3,4) by (simp_all add: same_node_def)
  have "edges_inv 1 (int i - 1) (int i - 1) ?es1"
    using add_inputs_inv [OF assms(1), of "ni_ref ?n0"] assms(3) by simp
  then have inv: "edges_inv 1 (int i - 1) (int i) ?es2"
    using fold_add_output [of 1 "int i - 1" "int i" ?es1 ?n2] edges_inv_mono ref by fastforce
  have "producers_inv cfg out_side i ?es1" using assms(2) by (simp add: producers_inv_def)
  then have prod: "producers_inv cfg out_side (Suc i) ?es2"
    using producers_add [of cfg out_side i ?es1 ?n2] ref by simp
  have res: "rc = 0" "node' = ?n2" "es' = ?es2"
    using assms(4,5) n1(1,2) ref(2) by (auto simp: initializeNodeSideData_def Let_def same_node_def)
  have names: "ei_name (resolve_edge e r n) = n" for e r n
    by (simp add: resolve_edge_def Edge_def split: option.splits)
  have "set (ni_predecessors n1) \<subseteq> set (ni_predecessors node) \<union>
      feeds cfg out_side (Names (nc_input_side_data (cfg i))) i"
    using n1(4) producers_feeds [OF assms(2), of "Names (nc_input_side_data (cfg i))"] by fastforce
  then show ?thesis
    using inv prod n1(2,3) by (simp add: res fold_add_output_lists(1,2) same_node_def comp_def names Edge_def)
qed

section \<open>The parsed configuration\<close>

definition nodes_match :: "graph_proto \<Rightarrow> nat \<Rightarrow> node_proto list \<Rightarrow> node_info list \<Rightarrow> bool" where
  "nodes_match g i ps ns \<longleftrightarrow> length ns = length ps \<and> (\<forall>j < length ps.
     ni_ref (ns ! j) = \<lparr>nr_type = TASK, nr_index = int (i + j)\<rparr> \<and>
     nc_name (ni_cfg (ns ! j)) = CanonicalNodeName g (i + j) \<and>
     NewTagMap (np_input_stream (ps ! j)) = Inr (Some (nc_inputs (ni_cfg (ns ! j)))) \<and>
     NewTagMap (np_output_stream (ps ! j)) = Inr (Some (nc_outputs (ni_cfg (ns ! j)))) \<and>
     NewTagMap (np_input_side_data (ps ! j)) = Inr (Some (nc_input_side_data (ni_cfg (ns ! j)))) \<and>
     NewTagMap (np_output_side_data (ps ! j)) = Inr (Some (nc_output_side_data (ni_cfg (ns ! j)))))"

lemma NodeInfo_Initialize_ok:
  assumes "NodeInfo_Initialize g p i = Inr (0, n)"
  shows "ni_ref n = \<lparr>nr_type = TASK, nr_index = int i\<rparr> \<and> ni_predecessors n = [] \<and>
    nc_name (ni_cfg n) = CanonicalNodeName g i \<and>
    NewTagMap (np_input_stream p) = Inr (Some (nc_inputs (ni_cfg n))) \<and>
    NewTagMap (np_output_stream p) = Inr (Some (nc_outputs (ni_cfg n))) \<and>
    NewTagMap (np_input_side_data p) = Inr (Some (nc_input_side_data (ni_cfg n))) \<and>
    NewTagMap (np_output_side_data p) = Inr (Some (nc_output_side_data (ni_cfg n)))"
proof -
  obtain rc cfg where c: "NodeConfig_Initialize (CanonicalNodeName g i) p = Inr (rc, cfg)"
    using assms by (auto simp: NodeInfo_Initialize_def bindE_Inr_iff)
  then obtain ti ts si so where t: "NewTagMap (np_input_stream p) = Inr ti" "NewTagMap (np_output_stream p) = Inr ts"
    "NewTagMap (np_input_side_data p) = Inr si" "NewTagMap (np_output_side_data p) = Inr so"
    by (auto simp: NodeConfig_Initialize_def bindE_Inr_iff)
  have "nc_name cfg = CanonicalNodeName g i \<and> ti = Some (nc_inputs cfg) \<and> ts = Some (nc_outputs cfg) \<and>
      si = Some (nc_input_side_data cfg) \<and> so = Some (nc_output_side_data cfg)"
    using c t by (cases ti; cases ts; cases si; cases so) (auto simp: NodeConfig_Initialize_def)
  moreover have "ni_cfg n = cfg \<and> ni_ref n = \<lparr>nr_type = TASK, nr_index = int i\<rparr> \<and> ni_predecessors n = []"
    using assms c by (auto simp: NodeInfo_Initialize_def bindE_Inr_iff Let_def split: if_splits)
  ultimately show ?thesis using t by simp
qed

lemma init_nodes_match:
  "init_nodes g ps i = Inr (0, ns) \<Longrightarrow> nodes_match g i ps ns \<and> (\<forall>n\<in>set ns. ni_predecessors n = [])"
proof (induction g ps i arbitrary: ns rule: init_nodes.induct)
  case (2 g p ps i)
  obtain rc n where n: "NodeInfo_Initialize g p i = Inr (rc, n)"
    using "2.prems" by (auto simp: bindE_Inr_iff)
  with "2.prems" obtain ns1 where r: "rc = 0" "init_nodes g ps (Suc i) = Inr (0, ns1)" "ns = n # ns1"
    by (auto simp: bindE_Inr_iff split: if_splits)
  have ih: "nodes_match g (Suc i) ps ns1 \<and> (\<forall>n\<in>set ns1. ni_predecessors n = [])"
    using "2.IH" r(1,2) by blast
  note n0 = NodeInfo_Initialize_ok [OF n [unfolded r(1)]]
  have "nodes_match g i (p # ps) (n # ns1)"
    unfolding nodes_match_def
  proof (intro conjI allI impI, goal_cases)
    case 1
    then show ?case using ih by (simp add: nodes_match_def)
  qed (use ih n0 in \<open>auto simp: nodes_match_def nth_Cons split: nat.splits\<close>)
  then show ?case using ih n0 r(3) by simp
qed (simp add: nodes_match_def)

lemma fold_graph_edges:
  assumes "\<forall>r\<in>set rs. nr_type (snd r) \<noteq> TASK" "edges_inv d k b es" "e_inputs es = []"
  shows "edges_inv d k b (fold (\<lambda>(n, ref). add_graph_edge n ref) rs es) \<and>
    e_inputs (fold (\<lambda>(n, ref). add_graph_edge n ref) rs es) = [] \<and>
    e_to_node (fold (\<lambda>(n, ref). add_graph_edge n ref) rs es) = e_to_node es \<and>
    map ei_name (e_outputs (fold (\<lambda>(n, ref). add_graph_edge n ref) rs es)) = map ei_name (e_outputs es) @ map fst rs"
  using assms
proof (induction rs arbitrary: es)
  case (Cons r rs)
  obtain n ref where r: "r = (n, ref)" by (cases r)
  let ?es = "enter_output n ref es"
  have "edges_inv d k b ?es" using Cons.prems r by (intro enter_output_inv) auto
  then show ?case
    using Cons.IH [of ?es] Cons.prems r by (simp add: add_graph_edge_enter) (simp add: enter_output_def Edge_def)
qed simp

lemma edges0_inv: "edges_inv d k b edges0"
  by (simp add: edges_inv_def edges0_def)

text \<open>Streams and side data of consecutive nodes follow one another without gap.\<close>

definition upto_node :: "(nat \<Rightarrow> string list) \<Rightarrow> nat \<Rightarrow> string list" where
  "upto_node f k = concat (map f [0..<k])"

lemma upto_node_simps [simp]: "upto_node f 0 = []" "upto_node f (Suc k) = upto_node f k @ f k"
  by (simp_all add: upto_node_def)

lemma upto_node_nth: "i < n \<Longrightarrow> k < length (f i) \<Longrightarrow>
   length (upto_node f i) + k < length (upto_node f n) \<and> upto_node f n ! (length (upto_node f i) + k) = f i ! k"
proof (induction n)
  case (Suc n)
  then show ?case by (cases "i = n") (auto simp: nth_append)
qed simp

lemma streams_pass:
  assumes "each_node initializeNodeStreams ns es = (0, ns', es')"
    and refs: "\<forall>j < length ns. ni_ref (ns ! j) = \<lparr>nr_type = TASK, nr_index = int j\<rparr>"
    and "edges_inv 0 (- 1) (- 1) es" "e_inputs es = []" "e_to_node es = []" "map ei_name (e_outputs es) = gs"
    and cfg: "\<And>j. j < length ns \<Longrightarrow> ni_cfg (ns ! j) = cfg j"
  shows "edges_inv 0 (int (length ns) - 1) (int (length ns) - 1) es' \<and> length ns' = length ns \<and>
    map ei_name (e_inputs es') = upto_node (\<lambda>j. Names (nc_inputs (cfg j))) (length ns) \<and>
    map ei_name (e_outputs es') = gs @ upto_node (\<lambda>j. Names (nc_outputs (cfg j))) (length ns) \<and>
    (\<forall>j < length ns. same_node (ns ! j) (ns' ! j) \<and> same_side (ns ! j) (ns' ! j) \<and>
      input_stream_base_index (ns' ! j) = int (length (upto_node (\<lambda>j. Names (nc_inputs (cfg j))) j)) \<and>
      output_stream_base_index (ns' ! j) = int (length gs + length (upto_node (\<lambda>j. Names (nc_outputs (cfg j))) j)) \<and>
      set (ni_predecessors (ns' ! j)) \<subseteq> set (ni_predecessors (ns ! j)) \<union>
        feeds cfg out_streams (Names (nc_inputs (cfg j))) (Suc j))"
proof -
  let ?ins = "upto_node (\<lambda>j. Names (nc_inputs (cfg j)))" and ?outs = "upto_node (\<lambda>j. Names (nc_outputs (cfg j)))"
  let ?I = "\<lambda>k es. edges_inv 0 (int k - 1) (int k - 1) es \<and> producers_inv cfg out_streams k es \<and>
    map ei_name (e_inputs es) = ?ins k \<and> map ei_name (e_outputs es) = gs @ ?outs k"
  let ?Q = "\<lambda>j n n'. same_node n n' \<and> same_side n n' \<and> input_stream_base_index n' = int (length (?ins j)) \<and>
      output_stream_base_index n' = int (length gs + length (?outs j)) \<and>
      set (ni_predecessors n') \<subseteq> set (ni_predecessors n) \<union> feeds cfg out_streams (Names (nc_inputs (cfg j))) (Suc j)"
  have "?I (0 + length ns) es' \<and> length ns' = length ns \<and> (\<forall>j < length ns. ?Q (0 + j) (ns ! j) (ns' ! j))"
  proof (rule each_node_induct [where I = ?I and Q = ?Q and i = 0, OF assms(1)])
    show "?I 0 es" using assms(3-6) by (simp add: producers_inv_def)
  next
    fix j es rc n' es'
    assume j: "j < length ns" and I: "?I (0 + j) es" and f: "initializeNodeStreams (ns ! j, es) = (rc, n', es')"
    have len: "length (e_inputs es) = length (?ins j)" "length (e_outputs es) = length gs + length (?outs j)"
      using I by (metis add_0 length_map, metis add_0 length_append length_map)
    show "rc = 0 \<and> ?I (Suc (0 + j)) es' \<and> ?Q (0 + j) (ns ! j) n'"
      using initializeNodeStreams_step [of j es cfg "ns ! j" rc n' es'] I f refs j len by (simp add: cfg)
  qed
  then show ?thesis by simp
qed

lemma side_pass:
  assumes "each_node initializeNodeSideData ns es = (0, ns', es')"
    and refs: "\<forall>j < length ns. ni_ref (ns ! j) = \<lparr>nr_type = TASK, nr_index = int j\<rparr>"
    and "edges_inv 1 (- 2) (- 1) es" "e_inputs es = []" "e_to_node es = []" "map ei_name (e_outputs es) = gs"
    and cfg: "\<And>j. j < length ns \<Longrightarrow> ni_cfg (ns ! j) = cfg j"
  shows "edges_inv 1 (int (length ns) - 2) (int (length ns) - 1) es' \<and> length ns' = length ns \<and>
    map ei_name (e_inputs es') = upto_node (\<lambda>j. Names (nc_input_side_data (cfg j))) (length ns) \<and>
    map ei_name (e_outputs es') = gs @ upto_node (\<lambda>j. Names (nc_output_side_data (cfg j))) (length ns) \<and>
    (\<forall>j < length ns. same_node (ns ! j) (ns' ! j) \<and>
      input_side_data_base_index (ns' ! j) = int (length (upto_node (\<lambda>j. Names (nc_input_side_data (cfg j))) j)) \<and>
      output_side_data_base_index (ns' ! j) = int (length gs + length (upto_node (\<lambda>j. Names (nc_output_side_data (cfg j))) j)) \<and>
      set (ni_predecessors (ns' ! j)) \<subseteq> set (ni_predecessors (ns ! j)) \<union>
        feeds cfg out_side (Names (nc_input_side_data (cfg j))) j)"
proof -
  let ?ins = "upto_node (\<lambda>j. Names (nc_input_side_data (cfg j)))"
    and ?outs = "upto_node (\<lambda>j. Names (nc_output_side_data (cfg j)))"
  let ?I = "\<lambda>k es. edges_inv 1 (int k - 2) (int k - 1) es \<and> producers_inv cfg out_side k es \<and>
    map ei_name (e_inputs es) = ?ins k \<and> map ei_name (e_outputs es) = gs @ ?outs k"
  let ?Q = "\<lambda>j n n'. same_node n n' \<and> input_side_data_base_index n' = int (length (?ins j)) \<and>
      output_side_data_base_index n' = int (length gs + length (?outs j)) \<and>
      set (ni_predecessors n') \<subseteq> set (ni_predecessors n) \<union> feeds cfg out_side (Names (nc_input_side_data (cfg j))) j"
  have "?I (0 + length ns) es' \<and> length ns' = length ns \<and> (\<forall>j < length ns. ?Q (0 + j) (ns ! j) (ns' ! j))"
  proof (rule each_node_induct [where I = ?I and Q = ?Q and i = 0, OF assms(1)])
    show "?I 0 es" using assms(3-6) by (simp add: producers_inv_def)
  next
    fix j es rc n' es'
    assume j: "j < length ns" and I: "?I (0 + j) es" and f: "initializeNodeSideData (ns ! j, es) = (rc, n', es')"
    have len: "length (e_inputs es) = length (?ins j)" "length (e_outputs es) = length gs + length (?outs j)"
      using I by (metis add_0 length_map, metis add_0 length_append length_map)
    show "rc = 0 \<and> ?I (Suc (0 + j)) es' \<and> ?Q (0 + j) (ns ! j) n'"
      using initializeNodeSideData_step [of j es cfg "ns ! j" rc n' es'] I f refs j len by (simp add: cfg)
  qed
  then show ?thesis by simp
qed

lemma side_data_start:
  assumes "pc_InitializeSideData \<lparr>pc_proto = g, pc_nodes = ns, pc_streams = edges0, pc_side = edges0\<rparr> = Inr (0, pc')"
  shows "\<exists>es sgs. edges_inv 1 (- 2) (- 1) es \<and> e_inputs es = [] \<and> e_to_node es = [] \<and>
    map ei_name (e_outputs es) = sgs \<and> length sgs = length (gp_input_side_data g) \<and> each_node initializeNodeSideData ns es = (0, pc_nodes pc', pc_side pc') \<and>
    pc_proto pc' = g \<and> pc_streams pc' = edges0"
proof -
  let ?ref = "\<lparr>nr_type = UNKNOWN, nr_index = - 1\<rparr>"
  define r where "r = (if gp_input_side_data g = [] then Inr (Some edges0)
    else bindE (NewTagMap (gp_input_side_data g)) (\<lambda>tm. Inr (map_option (\<lambda>tm.
      fold (\<lambda>name. add_graph_edge name ?ref) (Names tm) edges0) tm)))"
  have eq: "bindE r (\<lambda>side. case side of
        None \<Rightarrow> Inr (- 1, \<lparr>pc_proto = g, pc_nodes = ns, pc_streams = edges0, pc_side = edges0\<rparr>)
      | Some es \<Rightarrow> (case each_node initializeNodeSideData ns es of
          (rc, ns, es') \<Rightarrow> Inr (rc, \<lparr>pc_proto = g, pc_nodes = ns, pc_streams = edges0, pc_side = es'\<rparr>))) = Inr (0, pc')"
    using assms by (cases "gp_input_side_data g = []")
      (simp_all add: pc_InitializeSideData_def r_def cong: option.case_cong prod.case_cong if_cong)
  then obtain es where rs: "r = Inr (Some es)" by (cases r) (auto split: option.split_asm)
  obtain rc ns1 es1 where e: "each_node initializeNodeSideData ns es = (rc, ns1, es1)"
    by (cases "each_node initializeNodeSideData ns es")
  have "rc = 0 \<and> pc' = \<lparr>pc_proto = g, pc_nodes = ns1, pc_streams = edges0, pc_side = es1\<rparr>"
    using eq e rs by auto
  then have es: "each_node initializeNodeSideData ns es = (0, pc_nodes pc', pc_side pc')"
    "pc_proto pc' = g" "pc_streams pc' = edges0" using e by auto
  have start: "\<exists>names ref. es = fold (\<lambda>n. add_graph_edge n ref) names edges0 \<and> nr_type ref \<noteq> TASK \<and>
      length names = length (gp_input_side_data g)"
  proof (cases "gp_input_side_data g = []")
    case True
    then have "es = fold (\<lambda>n. add_graph_edge n ?ref) [] edges0" using rs by (simp add: r_def)
    then show ?thesis using True by (intro exI [of _ "[]"] exI [of _ ?ref]) simp
  next
    case False
    then obtain tm where "NewTagMap (gp_input_side_data g) = Inr (Some tm)"
      "es = fold (\<lambda>n. add_graph_edge n ?ref) (Names tm) edges0"
      using rs by (auto simp: r_def bindE_Inr_iff)
    then show ?thesis using tag_map_bij by (intro exI [of _ "Names tm"] exI [of _ ?ref]) simp
  qed
  have e0: "e_inputs edges0 = []" "e_to_node edges0 = []" "map ei_name (e_outputs edges0) = []" by (simp_all add: edges0_def)
  obtain names ref where n: "es = fold (\<lambda>n. add_graph_edge n ref) names edges0" "nr_type ref \<noteq> TASK"
    "length names = length (gp_input_side_data g)" using start by blast
  have "es = fold (\<lambda>(n, ref). add_graph_edge n ref) (map (\<lambda>n. (n, ref)) names) edges0"
    using n(1) by (simp add: fold_map comp_def)
  then have "edges_inv 1 (- 2) (- 1) es \<and> e_inputs es = [] \<and> e_to_node es = [] \<and> map ei_name (e_outputs es) = names"
    using fold_graph_edges [OF _ edges0_inv e0(1), of "map (\<lambda>n. (n, ref)) names" 1 "- 2" "- 1"] n(2) e0
    by (simp add: comp_def)
  then show ?thesis using es n(3) by blast
qed

lemma streams_start:
  assumes "pc_InitializeStreams pc = Inr (0, pc')" "pc_streams pc = edges0" "pc_proto pc = g"
  shows "\<exists>es gs. edges_inv 0 (- 1) (- 1) es \<and> e_inputs es = [] \<and> e_to_node es = [] \<and>
    map ei_name (e_outputs es) = gs \<and> length gs = length (gp_input_stream g) \<and> each_node initializeNodeStreams (pc_nodes pc) es = (0, pc_nodes pc', pc_streams pc') \<and>
    pc_proto pc' = g \<and> pc_side pc' = pc_side pc"
proof -
  obtain tm where tm: "NewTagMap (gp_input_stream g) = Inr (Some tm)"
    using assms(1,3) by (cases "NewTagMap (gp_input_stream g)")
      (auto simp: pc_InitializeStreams_def split: option.split_asm)
  obtain rc ns1 es1 where e: "each_node initializeNodeStreams (pc_nodes pc)
      (graph_input_edges (length (gp_node g)) (Names tm) edges0) = (rc, ns1, es1)"
    by (cases "each_node initializeNodeStreams (pc_nodes pc)
      (graph_input_edges (length (gp_node g)) (Names tm) edges0)")
  have "rc = 0 \<and> pc' = pc\<lparr>pc_nodes := ns1, pc_streams := es1\<rparr>"
    using assms tm e by (auto simp: pc_InitializeStreams_def Let_def bindE_Inr_iff split: if_split_asm)
  then have n: "each_node initializeNodeStreams (pc_nodes pc)
        (graph_input_edges (length (gp_node g)) (Names tm) edges0) = (0, pc_nodes pc', pc_streams pc')"
      "pc_proto pc' = g" "pc_side pc' = pc_side pc"
    using e assms(3) by auto
  let ?rs = "map (\<lambda>(i, name). (name, \<lparr>nr_type = GRAPH_INPUT_STREAM, nr_index = int i + int (length (gp_node g))\<rparr>))
    (enumerate 0 (Names tm))"
  have "graph_input_edges (length (gp_node g)) (Names tm) edges0 = fold (\<lambda>(n, ref). add_graph_edge n ref) ?rs edges0"
    by (simp add: graph_input_edges_def fold_map comp_def case_prod_unfold)
  moreover have ty: "\<forall>r\<in>set ?rs. nr_type (snd r) \<noteq> TASK" by auto
  have e0: "e_inputs edges0 = []" "e_to_node edges0 = []" "map ei_name (e_outputs edges0) = []"
    by (simp_all add: edges0_def)
  note built = fold_graph_edges [OF ty edges0_inv e0(1), of 0 "- 1" "- 1", unfolded e0(2,3) append_Nil]
  have "length (map fst ?rs) = length (gp_input_stream g)" using tag_map_bij [OF tm] by simp
  ultimately show ?thesis
    using built n by (intro exI [of _ "fold (\<lambda>(n, ref). add_graph_edge n ref) ?rs edges0"] exI [of _ "map fst ?rs"]) simp
qed

text \<open>What a successful \<open>Initialize\<close> leaves behind, in terms of the configured names.\<close>

lemma pc_Initialize_ok:
  assumes "pc_Initialize g = Inr (0, pc)"
  obtains cfg gs sgs where
    "length (pc_nodes pc) = length (gp_node g)"
    "\<And>i. i < length (gp_node g) \<Longrightarrow> nc_name (cfg i) = CanonicalNodeName g i \<and>
      NewTagMap (np_input_stream (gp_node g ! i)) = Inr (Some (nc_inputs (cfg i))) \<and>
      NewTagMap (np_output_stream (gp_node g ! i)) = Inr (Some (nc_outputs (cfg i)))"
    "\<And>i. i < length (gp_node g) \<Longrightarrow> ni_cfg (pc_nodes pc ! i) = cfg i \<and>
      ni_ref (pc_nodes pc ! i) = \<lparr>nr_type = TASK, nr_index = int i\<rparr> \<and>
      input_stream_base_index (pc_nodes pc ! i) = int (length (upto_node (\<lambda>j. Names (nc_inputs (cfg j))) i)) \<and>
      output_stream_base_index (pc_nodes pc ! i) = int (length gs + length (upto_node (\<lambda>j. Names (nc_outputs (cfg j))) i)) \<and>
      input_side_data_base_index (pc_nodes pc ! i) = int (length (upto_node (\<lambda>j. Names (nc_input_side_data (cfg j))) i)) \<and>
      output_side_data_base_index (pc_nodes pc ! i) = int (length sgs + length (upto_node (\<lambda>j. Names (nc_output_side_data (cfg j))) i)) \<and>
      set (ni_predecessors (pc_nodes pc ! i)) \<subseteq> feeds cfg out_side (Names (nc_input_side_data (cfg i))) i \<union>
        feeds cfg out_streams (Names (nc_inputs (cfg i))) (Suc i)"
    "edges_inv 0 (int (length (gp_node g)) - 1) (int (length (gp_node g)) - 1) (pc_streams pc)"
    "edges_inv 1 (int (length (gp_node g)) - 2) (int (length (gp_node g)) - 1) (pc_side pc)"
    "map ei_name (e_inputs (pc_streams pc)) = upto_node (\<lambda>j. Names (nc_inputs (cfg j))) (length (gp_node g))"
    "map ei_name (e_outputs (pc_streams pc)) = gs @ upto_node (\<lambda>j. Names (nc_outputs (cfg j))) (length (gp_node g))"
    "map ei_name (e_inputs (pc_side pc)) = upto_node (\<lambda>j. Names (nc_input_side_data (cfg j))) (length (gp_node g))"
    "map ei_name (e_outputs (pc_side pc)) = sgs @ upto_node (\<lambda>j. Names (nc_output_side_data (cfg j))) (length (gp_node g))"
    "pc_proto pc = g" "length gs = length (gp_input_stream g)" "length sgs = length (gp_input_side_data g)"
proof -
  let ?pc0 = "\<lparr>pc_proto = g, pc_nodes = [], pc_streams = edges0, pc_side = edges0\<rparr>"
  obtain pc1 pc2 where steps: "pc_InitializeNodes ?pc0 = Inr (0, pc1)"
    "pc_InitializeSideData pc1 = Inr (0, pc2)" "pc_InitializeStreams pc2 = Inr (0, pc)"
    using assms by (auto simp: pc_Initialize_def Let_def bindE_Inr_iff split: if_splits)
  obtain ns0 where ns0: "init_nodes g (gp_node g) 0 = Inr (0, ns0)"
    "pc1 = \<lparr>pc_proto = g, pc_nodes = ns0, pc_streams = edges0, pc_side = edges0\<rparr>"
    using steps(1) by (auto simp: pc_InitializeNodes_def bindE_Inr_iff)
  have match: "nodes_match g 0 (gp_node g) ns0" "\<forall>n\<in>set ns0. ni_predecessors n = []"
    using init_nodes_match [OF ns0(1)] by auto
  then have len0: "length ns0 = length (gp_node g)" by (simp add: nodes_match_def)
  have refs0: "\<forall>j < length ns0. ni_ref (ns0 ! j) = \<lparr>nr_type = TASK, nr_index = int j\<rparr>"
    using match(1) by (simp add: nodes_match_def)
  obtain es1 sgs where side0: "edges_inv 1 (- 2) (- 1) es1" "e_inputs es1 = []" "e_to_node es1 = []"
    "map ei_name (e_outputs es1) = sgs" and lsgs: "length sgs = length (gp_input_side_data g)" and side1: "each_node initializeNodeSideData ns0 es1 = (0, pc_nodes pc2, pc_side pc2)"
    and pc2: "pc_proto pc2 = g" "pc_streams pc2 = edges0"
    using side_data_start steps(2) ns0(2) by metis
  define cfg where "cfg = (\<lambda>j. ni_cfg (ns0 ! j))"
  note side = side_pass [OF side1 refs0 side0, of cfg, unfolded cfg_def [THEN fun_cong], OF refl,
      folded cfg_def [THEN fun_cong]]
  obtain es2 gs where str0: "edges_inv 0 (- 1) (- 1) es2" "e_inputs es2 = []" "e_to_node es2 = []"
    "map ei_name (e_outputs es2) = gs" and lgs: "length gs = length (gp_input_stream g)" and str1: "each_node initializeNodeStreams (pc_nodes pc2) es2 = (0, pc_nodes pc, pc_streams pc)"
    and pc: "pc_proto pc = g" "pc_side pc = pc_side pc2"
    using streams_start steps(3) pc2 by metis
  have refs2: "\<forall>j < length (pc_nodes pc2). ni_ref (pc_nodes pc2 ! j) = \<lparr>nr_type = TASK, nr_index = int j\<rparr>"
    using side refs0 by (auto simp: same_node_def)
  have cfg2: "ni_cfg (pc_nodes pc2 ! j) = cfg j" if "j < length (pc_nodes pc2)" for j
    using side that by (auto simp: same_node_def cfg_def)
  note str = streams_pass [of _ _ _ _ _ cfg, OF str1 refs2 str0 cfg2, simplified]
  have len2: "length (pc_nodes pc2) = length (gp_node g)" using side len0 by simp
  show thesis
  proof (rule that [of cfg gs sgs], goal_cases)
    case (2 i)
    then show ?case using match(1) by (simp add: nodes_match_def cfg_def)
  next
    case (3 i)
    then have i: "i < length ns0" "i < length (pc_nodes pc2)" by (simp_all add: len0 len2)
    have "ni_predecessors (ns0 ! i) = []" using match(2) i(1) by simp
    then show ?case
      using str side i refs2 cfg2 [OF i(2)] by (fastforce simp: same_node_def same_side_def)
  qed (use str side len0 len2 pc lgs lsgs in simp_all)
qed

section \<open>Properties\<close>

text \<open>What the index of the outputs holds: the position of an output of the name looked up, for
  exactly the names there are.\<close>

lemma edges_inv_index:
  assumes "edges_inv d k b es"
  shows "(if n \<in> ei_name ` set (e_outputs es)
    then \<exists>u. map_of (e_to_index es) n = Some u \<and> 0 \<le> u \<and> u < int (length (e_outputs es)) \<and> ei_name (e_outputs es ! nat u) = n
    else map_of (e_to_index es) n = None)"
proof (cases "map_of (e_to_index es) n")
  case None
  then have "n \<notin> dom (map_of (e_to_index es))" by (simp add: domIff)
  then show ?thesis using None assms unfolding edges_inv_def by simp
next
  case (Some u)
  then have "n \<in> dom (map_of (e_to_index es))" by blast
  moreover have "src_ok b (e_outputs es) n u" using Some assms unfolding edges_inv_def by blast
  ultimately show ?thesis using Some assms unfolding edges_inv_def src_ok_def by simp
qed

lemma OutputStreamIndex_inj:
  assumes "pc_Initialize g = Inr (0, pc)" "OutputStreamIndex pc m = OutputStreamIndex pc n" "0 \<le> OutputStreamIndex pc n"
  shows "m = n"
proof (rule pc_Initialize_ok [OF assms(1)], goal_cases)
  case (1 cfg gs sgs)
  note inv = edges_inv_index [OF "1"(4)]
  show ?case
    using assms(2,3) inv [of m] inv [of n]
    by (auto simp: OutputStreamIndex_def split: option.split_asm if_split_asm)
qed

text \<open>C20: in a graph that is accepted every input stream of a node is connected to an output of
  the same name, of the graph or of the node itself or an earlier one; it is left unconnected
  only if the graph has no such input and only later nodes produce the name. For side data the
  producer is strictly earlier. The indices by name agree with the edges: \<open>OutputStreamIndex\<close>
  and \<open>OutputSideDataIndex\<close> give the position of an output that carries the name asked for,
  and -1 exactly for the names that no output carries.\<close>

theorem pc_edges_resolved:
  assumes "pc_Initialize g = Inr (0, pc)"
  shows "(\<forall>e\<in>set (e_inputs (pc_streams pc)). in_ok 0 (e_outputs (pc_streams pc)) e) \<and>
    (\<forall>e\<in>set (e_inputs (pc_side pc)). in_ok 1 (e_outputs (pc_side pc)) e) \<and>
    (\<forall>n. if n \<in> ei_name ` set (e_outputs (pc_streams pc))
      then 0 \<le> OutputStreamIndex pc n \<and> OutputStreamIndex pc n < int (length (e_outputs (pc_streams pc))) \<and>
        ei_name (e_outputs (pc_streams pc) ! nat (OutputStreamIndex pc n)) = n
      else OutputStreamIndex pc n = - 1) \<and>
    (\<forall>n. if n \<in> ei_name ` set (e_outputs (pc_side pc))
      then 0 \<le> OutputSideDataIndex pc n \<and> OutputSideDataIndex pc n < int (length (e_outputs (pc_side pc))) \<and>
        ei_name (e_outputs (pc_side pc) ! nat (OutputSideDataIndex pc n)) = n
      else OutputSideDataIndex pc n = - 1)"
proof (rule pc_Initialize_ok [OF assms], goal_cases)
  case (1 cfg gs sgs)
  note inv = "1"(4,5) and index = "1"(4,5) [THEN edges_inv_index]
  show ?case
  proof (intro conjI allI, goal_cases)
    case (3 n)
    show ?case using index(1) [of n] unfolding OutputStreamIndex_def by (simp split: if_split_asm) force
  next
    case (4 n)
    show ?case using index(2) [of n] unfolding OutputSideDataIndex_def by (simp split: if_split_asm) force
  qed (use inv in \<open>simp_all add: edges_inv_def\<close>)
qed

text \<open>A graph of two nodes, the second of which reads what the first writes.\<close>

definition chain_node :: "string \<Rightarrow> string \<Rightarrow> string \<Rightarrow> node_proto" where
  "chain_node t i out = \<lparr>np_name = [], np_task = t, np_input_stream = [i], np_output_stream = [out],
    np_input_side_data = [], np_output_side_data = [], np_input_stream_info = []\<rparr>"

definition chain_graph :: graph_proto where
  "chain_graph = \<lparr>gp_node = [chain_node ''A'' ''x'' ''y'', chain_node ''B'' ''y'' ''z''],
    gp_input_stream = [''x''], gp_output_stream = [''z''], gp_input_side_data = []\<rparr>"

definition chain_config :: parsed_config where
  "chain_config = (case pc_Initialize chain_graph of Inr (_, pc) \<Rightarrow> pc
     | Inl _ \<Rightarrow> \<lparr>pc_proto = chain_graph, pc_nodes = [], pc_streams = edges0, pc_side = edges0\<rparr>)"

lemma chain_config: "pc_Initialize chain_graph = Inr (0, chain_config)"
  by code_simp

theorem pc_edges_resolved_witness:
  "pc_Initialize chain_graph = Inr (0, chain_config) \<and>
   list_all (in_ok 0 (e_outputs (pc_streams chain_config))) (e_inputs (pc_streams chain_config)) \<and>
   map ei_upstream (e_inputs (pc_streams chain_config)) = [0, 1] \<and>
   map ei_name (e_outputs (pc_streams chain_config)) = [''x'', ''y'', ''z''] \<and>
   ei_name (e_outputs (pc_streams chain_config) ! nat (OutputStreamIndex chain_config ''z'')) = ''z'' \<and>
   OutputStreamIndex chain_config ''w'' = - 1"
proof -
  have names: "map ei_name (e_outputs (pc_streams chain_config)) = [''x'', ''y'', ''z'']"
    and ups: "map ei_upstream (e_inputs (pc_streams chain_config)) = [0, 1]" by code_simp+
  note res = pc_edges_resolved [OF chain_config]
  have mem: "ei_name ` set (e_outputs (pc_streams chain_config)) = {''x'', ''y'', ''z''}"
    using arg_cong [OF names, of set] by simp
  have "ei_name (e_outputs (pc_streams chain_config) ! nat (OutputStreamIndex chain_config ''z'')) = ''z''"
    using res [THEN conjunct2, THEN conjunct2, THEN conjunct1, THEN spec, of "''z''"] unfolding mem by simp
  moreover have "OutputStreamIndex chain_config ''w'' = - 1"
    using res [THEN conjunct2, THEN conjunct2, THEN conjunct1, THEN spec, of "''w''"] unfolding mem by simp
  ultimately show ?thesis using res [THEN conjunct1] chain_config names ups by (simp add: list_all_iff)
qed

text \<open>The names of the blocks.\<close>

lemma pc_block_names:
  assumes "pc_Initialize g = Inr (0, pc)" "i < length (pc_nodes pc)"
  shows "(let n = pc_nodes pc ! i; c = ni_cfg n in
    (\<forall>k < length (Names (nc_inputs c)). nat (input_stream_base_index n) + k < length (e_inputs (pc_streams pc)) \<and>
       ei_name (e_inputs (pc_streams pc) ! (nat (input_stream_base_index n) + k)) = Names (nc_inputs c) ! k) \<and>
    (\<forall>k < length (Names (nc_outputs c)). nat (output_stream_base_index n) + k < length (e_outputs (pc_streams pc)) \<and>
       ei_name (e_outputs (pc_streams pc) ! (nat (output_stream_base_index n) + k)) = Names (nc_outputs c) ! k) \<and>
    (\<forall>k < length (Names (nc_input_side_data c)). nat (input_side_data_base_index n) + k < length (e_inputs (pc_side pc)) \<and>
       ei_name (e_inputs (pc_side pc) ! (nat (input_side_data_base_index n) + k)) = Names (nc_input_side_data c) ! k) \<and>
    (\<forall>k < length (Names (nc_output_side_data c)). nat (output_side_data_base_index n) + k < length (e_outputs (pc_side pc)) \<and>
       ei_name (e_outputs (pc_side pc) ! (nat (output_side_data_base_index n) + k)) = Names (nc_output_side_data c) ! k))"
proof (rule pc_Initialize_ok [OF assms(1)], goal_cases)
  case (1 cfg gs sgs)
  note len = "1"(1) and node = "1"(3) and names = "1"(6-9)
  let ?N = "length (gp_node g)"
  have i: "i < ?N" using assms(2) len by simp
  have ofmap: "k < length xs \<and> ei_name (xs ! k) = n" if "map ei_name xs = ys" "k < length ys \<and> ys ! k = n" for xs ys k n
    using that by auto
  have pre: "length gs + length (upto_node f i) + k < length (gs @ upto_node f ?N) \<and>
      (gs @ upto_node f ?N) ! (length gs + length (upto_node f i) + k) = f i ! k"
    if "k < length (f i)" for f k and gs :: "string list"
    using upto_node_nth [where f = f, OF i that] by (simp add: nth_append)
  show ?case
    unfolding Let_def
  proof (intro conjI allI impI, goal_cases)
    case (1 k) then show ?case
      using ofmap [OF names(1)] upto_node_nth [OF i, of k "\<lambda>j. Names (nc_inputs (cfg j))"] node [OF i] by simp
  next
    case (2 k) then show ?case
      using ofmap [OF names(1)] upto_node_nth [OF i, of k "\<lambda>j. Names (nc_inputs (cfg j))"] node [OF i] by simp
  next
    case (3 k) then show ?case
      using ofmap [OF names(2) pre [of k "\<lambda>j. Names (nc_outputs (cfg j))"]] node [OF i] by (simp add: nat_add_distrib)
  next
    case (4 k) then show ?case
      using ofmap [OF names(2) pre [of k "\<lambda>j. Names (nc_outputs (cfg j))"]] node [OF i] by (simp add: nat_add_distrib)
  next
    case (5 k) then show ?case
      using ofmap [OF names(3)] upto_node_nth [OF i, of k "\<lambda>j. Names (nc_input_side_data (cfg j))"] node [OF i] by simp
  next
    case (6 k) then show ?case
      using ofmap [OF names(3)] upto_node_nth [OF i, of k "\<lambda>j. Names (nc_input_side_data (cfg j))"] node [OF i] by simp
  next
    case (7 k) then show ?case
      using ofmap [OF names(4) pre [of k "\<lambda>j. Names (nc_output_side_data (cfg j))"]] node [OF i] by (simp add: nat_add_distrib)
  next
    case (8 k) then show ?case
      using ofmap [OF names(4) pre [of k "\<lambda>j. Names (nc_output_side_data (cfg j))"]] node [OF i] by (simp add: nat_add_distrib)
  qed
qed

text \<open>Where the blocks lie: \<open>block_start names pc i\<close> is the number of names the nodes before \<open>i\<close> have.\<close>

definition block_start :: "(node_config \<Rightarrow> string list) \<Rightarrow> parsed_config \<Rightarrow> nat \<Rightarrow> nat" where
  "block_start names pc i = (\<Sum>j<i. length (names (ni_cfg (pc_nodes pc ! j))))"

lemma upto_node_start:
  assumes "\<And>j. j < i \<Longrightarrow> ni_cfg (pc_nodes pc ! j) = cfg j"
  shows "length (upto_node (\<lambda>j. names (cfg j)) i) = block_start names pc i"
  using assms by (induction i) (simp_all add: block_start_def)

lemma pc_block_bounds:
  assumes "pc_Initialize g = Inr (0, pc)"
  shows "(\<forall>i < length (pc_nodes pc).
      input_stream_base_index (pc_nodes pc ! i) = int (block_start (\<lambda>c. Names (nc_inputs c)) pc i) \<and>
      output_stream_base_index (pc_nodes pc ! i) = int (length (gp_input_stream g) + block_start out_streams pc i) \<and>
      input_side_data_base_index (pc_nodes pc ! i) = int (block_start (\<lambda>c. Names (nc_input_side_data c)) pc i) \<and>
      output_side_data_base_index (pc_nodes pc ! i) = int (length (gp_input_side_data g) + block_start out_side pc i)) \<and>
    length (e_inputs (pc_streams pc)) = block_start (\<lambda>c. Names (nc_inputs c)) pc (length (pc_nodes pc)) \<and>
    length (e_outputs (pc_streams pc)) = length (gp_input_stream g) + block_start out_streams pc (length (pc_nodes pc)) \<and>
    length (e_inputs (pc_side pc)) = block_start (\<lambda>c. Names (nc_input_side_data c)) pc (length (pc_nodes pc)) \<and>
    length (e_outputs (pc_side pc)) = length (gp_input_side_data g) + block_start out_side pc (length (pc_nodes pc))"
proof (rule pc_Initialize_ok [OF assms], goal_cases)
  case (1 cfg gs sgs)
  note len = "1"(1) and node = "1"(3) and names = "1"(6-9) [THEN arg_cong [where f = length]] and ext = "1"(11,12)
  have start: "length (upto_node (\<lambda>j. f (cfg j)) i) = block_start f pc i" if "i \<le> length (gp_node g)" for f i
    by (rule upto_node_start) (use node that in auto)
  note starts = start [of _ "\<lambda>c. Names (nc_inputs c)"] start [of _ out_streams]
    start [of _ "\<lambda>c. Names (nc_input_side_data c)"] start [of _ out_side]
  show ?case
    using node names len ext by (simp add: starts)
qed

text \<open>C24: the streams of an accepted graph are laid out node after node, in blocks that follow one
  another without gap or overlap: the block of node \<open>i\<close> starts behind those of all nodes before it
  (the outputs behind the inputs of the graph), the last block ends where the list of edges ends,
  the \<open>k\<close>-th input (output) stream of node \<open>i\<close> is the edge at its base index plus \<open>k\<close>, and it
  carries the \<open>k\<close>-th name of the node's tag map. The same holds of side data.\<close>

theorem pc_layout:
  assumes "pc_Initialize g = Inr (0, pc)" "i < length (pc_nodes pc)"
  shows "(let n = pc_nodes pc ! i; c = ni_cfg n in
    (\<forall>k < length (Names (nc_inputs c)). nat (input_stream_base_index n) + k < length (e_inputs (pc_streams pc)) \<and>
       ei_name (e_inputs (pc_streams pc) ! (nat (input_stream_base_index n) + k)) = Names (nc_inputs c) ! k) \<and>
    (\<forall>k < length (Names (nc_outputs c)). nat (output_stream_base_index n) + k < length (e_outputs (pc_streams pc)) \<and>
       ei_name (e_outputs (pc_streams pc) ! (nat (output_stream_base_index n) + k)) = Names (nc_outputs c) ! k) \<and>
    (\<forall>k < length (Names (nc_input_side_data c)). nat (input_side_data_base_index n) + k < length (e_inputs (pc_side pc)) \<and>
       ei_name (e_inputs (pc_side pc) ! (nat (input_side_data_base_index n) + k)) = Names (nc_input_side_data c) ! k) \<and>
    (\<forall>k < length (Names (nc_output_side_data c)). nat (output_side_data_base_index n) + k < length (e_outputs (pc_side pc)) \<and>
       ei_name (e_outputs (pc_side pc) ! (nat (output_side_data_base_index n) + k)) = Names (nc_output_side_data c) ! k) \<and>
    input_stream_base_index n = int (\<Sum>j<i. length (Names (nc_inputs (ni_cfg (pc_nodes pc ! j))))) \<and>
    output_stream_base_index n = int (length (gp_input_stream g) + (\<Sum>j<i. length (Names (nc_outputs (ni_cfg (pc_nodes pc ! j)))))) \<and>
    input_side_data_base_index n = int (\<Sum>j<i. length (Names (nc_input_side_data (ni_cfg (pc_nodes pc ! j))))) \<and>
    output_side_data_base_index n =
      int (length (gp_input_side_data g) + (\<Sum>j<i. length (Names (nc_output_side_data (ni_cfg (pc_nodes pc ! j))))))) \<and>
    length (e_inputs (pc_streams pc)) = (\<Sum>j<length (pc_nodes pc). length (Names (nc_inputs (ni_cfg (pc_nodes pc ! j))))) \<and>
    length (e_outputs (pc_streams pc)) =
      length (gp_input_stream g) + (\<Sum>j<length (pc_nodes pc). length (Names (nc_outputs (ni_cfg (pc_nodes pc ! j))))) \<and>
    length (e_inputs (pc_side pc)) = (\<Sum>j<length (pc_nodes pc). length (Names (nc_input_side_data (ni_cfg (pc_nodes pc ! j))))) \<and>
    length (e_outputs (pc_side pc)) =
      length (gp_input_side_data g) + (\<Sum>j<length (pc_nodes pc). length (Names (nc_output_side_data (ni_cfg (pc_nodes pc ! j)))))"
  using pc_block_names [OF assms] pc_block_bounds [OF assms(1)] assms(2) by (simp only: Let_def block_start_def) blast

theorem pc_layout_witness:
  "ei_name (e_inputs (pc_streams chain_config) ! 1) = ''y'' \<and> ei_name (e_outputs (pc_streams chain_config) ! 2) = ''z'' \<and>
   int (length (gp_input_stream chain_graph) + (\<Sum>j<1. length (Names (nc_outputs (ni_cfg (pc_nodes chain_config ! j)))))) = 2"
proof -
  have 1: "1 < length (pc_nodes chain_config)" by code_simp
  have "Names (nc_inputs (ni_cfg (pc_nodes chain_config ! 1))) = [''y'']"
    "Names (nc_outputs (ni_cfg (pc_nodes chain_config ! 1))) = [''z'']"
    "input_stream_base_index (pc_nodes chain_config ! 1) = 1"
    "output_stream_base_index (pc_nodes chain_config ! 1) = 2"
    by code_simp+
  then show ?thesis using pc_layout [OF chain_config 1] by (simp add: Let_def)
qed

text \<open>C30: every predecessor the scheduler waits for before it runs node \<open>i\<close> of an accepted graph
  is the name of a node that is not after \<open>i\<close> and produces one of its inputs; it is \<open>i\<close>
  itself only if the node reads a stream it writes. So the order of the configuration is an
  execution order whenever no node feeds itself.\<close>

theorem pc_predecessors_earlier:
  assumes "pc_Initialize g = Inr (0, pc)" "i < length (pc_nodes pc)" "p \<in> set (ni_predecessors (pc_nodes pc ! i))"
  shows "\<exists>j \<le> i. p = nc_name (ni_cfg (pc_nodes pc ! j)) \<and>
    (let a = ni_cfg (pc_nodes pc ! j); b = ni_cfg (pc_nodes pc ! i) in
      set (Names (nc_outputs a)) \<inter> set (Names (nc_inputs b)) \<noteq> {} \<or>
      j < i \<and> set (Names (nc_output_side_data a)) \<inter> set (Names (nc_input_side_data b)) \<noteq> {})"
proof (rule pc_Initialize_ok [OF assms(1)], goal_cases)
  case (1 cfg gs sgs)
  note len = "1"(1) and node = "1"(3)
  have i: "i < length (gp_node g)" using assms(2) len by simp
  have "p \<in> feeds cfg out_side (Names (nc_input_side_data (cfg i))) i \<union>
      feeds cfg out_streams (Names (nc_inputs (cfg i))) (Suc i)"
    using assms(3) node [OF i] by blast
  then obtain j where j: "j \<le> i" "p = nc_name (cfg j)"
    "set (Names (nc_outputs (cfg j))) \<inter> set (Names (nc_inputs (cfg i))) \<noteq> {} \<or>
     j < i \<and> set (Names (nc_output_side_data (cfg j))) \<inter> set (Names (nc_input_side_data (cfg i))) \<noteq> {}"
    unfolding feeds_def using less_Suc_eq_le less_imp_le_nat by blast
  then have "j < length (gp_node g)" using i by simp
  then show ?case using j node [of j] node [OF i] by (intro exI [of _ j]) (auto simp: Let_def)
qed

theorem pc_predecessors_earlier_witness:
  "set (ni_predecessors (pc_nodes chain_config ! 1)) = {''A''} \<and>
   (\<exists>j \<le> 1. ''A'' = nc_name (ni_cfg (pc_nodes chain_config ! j)))"
proof -
  have 1: "1 < length (pc_nodes chain_config)" "set (ni_predecessors (pc_nodes chain_config ! 1)) = {''A''}"
    by code_simp+
  have p: "''A'' \<in> set (ni_predecessors (pc_nodes chain_config ! 1))" by (simp only: 1(2)) simp
  show ?thesis using pc_predecessors_earlier [OF chain_config 1(1) p] 1(2) by blast
qed

end
