(* ===== verification/Node.thy ===== *)
theory Node
  imports Handlers Side_Data Graph_Config
begin

text \<open>
  A node of the graph: \<open>node.h\<close>, \<open>node.cc\<close>, with \<open>task.h\<close>, \<open>task_register.h\<close> and
  \<open>task_context_manager.cc\<close>. The tasks are virtual functions of registered classes: a record of
  functions \<open>task_code\<close> stands for them, and every definition that calls a task takes it as an
  argument. A task sees its context and its input side data, and returns what it wrote to its
  output side data as a list of assignments in order. Stream handlers, side data handlers and
  output side data live in the stores of the record \<open>world\<close>.
\<close>

section \<open>State\<close>

datatype node_status = kStateUninitialized | kStatePrepared | kStateOpened | kStateClosed

type_synonym ('t, 'v) task_fun =
  "'t \<Rightarrow> 'v task_context \<Rightarrow> 'v datum list \<Rightarrow> (int \<times> 't \<times> 'v task_context \<times> (int \<times> 'v datum) list) outcome"

record ('t, 'v) task_code =
  tk_new :: "string \<Rightarrow> 't option"
  tk_open :: "('t, 'v) task_fun"
  tk_process :: "('t, 'v) task_fun"
  tk_close :: "('t, 'v) task_fun"

record ('t, 'v) node =
  nd_id :: nat
  nd_info :: node_info
  nd_status :: node_status
  nd_task :: "'t option"
  nd_ctx :: "'v task_context option"
  nd_osh :: osh
  nd_osd :: "nat list"
  nd_input_stream_ready :: bool
  nd_input_side_data_ready :: bool

record 'v world =
  w_net :: "'v net"
  w_side :: "nat \<Rightarrow> 'v isdh"
  w_osd :: "nat \<Rightarrow> 'v osd"

definition upd_osd :: "nat \<Rightarrow> ('v osd \<Rightarrow> 'v osd) \<Rightarrow> 'v world \<Rightarrow> 'v world" where
  "upd_osd a f w = w\<lparr>w_osd := (w_osd w)(a := f (w_osd w a))\<rparr>"

definition upd_net :: "('v net \<Rightarrow> 'v net) \<Rightarrow> 'v world \<Rightarrow> 'v world" where
  "upd_net f w = w\<lparr>w_net := f (w_net w)\<rparr>"

lemma upd_simps [simp]:
  "w_net (upd_osd a f w) = w_net w" "w_side (upd_osd a f w) = w_side w"
  "w_osd (upd_osd a f w) = (w_osd w)(a := f (w_osd w a))"
  "w_net (upd_net g w) = g (w_net w)" "w_side (upd_net g w) = w_side w" "w_osd (upd_net g w) = w_osd w"
  by (simp_all add: upd_osd_def upd_net_def)

section \<open>Initialisation\<close>

definition initializeInputSideData :: "parsed_config \<Rightarrow> nat \<Rightarrow> node_info \<Rightarrow> 'v world \<Rightarrow> 'v world" where
  "initializeInputSideData pc i info w =
     fold (\<lambda>k w. let u = ei_upstream (e_inputs (pc_side pc) ! (nat (input_side_data_base_index info) + k)) in
         if u < 0 then w else upd_osd (nat u) (osd_AddMirror i (int k)) w)
       [0..<nat (NStreams (nc_input_side_data (ni_cfg info)))] w"

definition initializeOutputSideData :: "node_info \<Rightarrow> nat list" where
  "initializeOutputSideData info =
     map (\<lambda>k. nat (output_side_data_base_index info) + k) [0..<nat (NStreams (nc_output_side_data (ni_cfg info)))]"

definition initializeOutputStream :: "node_info \<Rightarrow> osh \<Rightarrow> osh" where
  "initializeOutputStream info h =
     (let base = output_stream_base_index info in
      if base < 0 then h else InitializeOutputStreamManagers (nat base) h)"

definition initializeInputStream :: "parsed_config \<Rightarrow> nat \<Rightarrow> node_info \<Rightarrow> 'v net \<Rightarrow> 'v net" where
  "initializeInputStream pc i info net =
     (let base = input_stream_base_index info in
      if base < 0 then net
      else fold (\<lambda>k net. let u = ei_upstream (e_inputs (pc_streams pc) ! (nat base + k)) in
          if u < 0 then net else upd_osm (nat u) (AddMirror (Node_ISH i) (int k)) net)
        [0..<nat (NStreams (nc_inputs (ni_cfg info)))]
        (upd_ish (Node_ISH i) (InitializeInputStreamManagers (nat base)) net))"

definition Node_Initialize :: "parsed_config \<Rightarrow> nat \<Rightarrow> 'v world \<Rightarrow> ('t, 'v) node \<times> 'v world" where
  "Node_Initialize pc i w =
     (let info = pc_nodes pc ! i;
          osd = initializeOutputSideData info;
          w = initializeInputSideData pc i info w;
          h = initializeOutputStream info (OutputStreamHandler (nc_outputs (ni_cfg info)));
          w = upd_net (upd_ish (Node_ISH i) (\<lambda>_. DefaultInputStreamHandler (nc_inputs (ni_cfg info)))) w;
          w = upd_net (initializeInputStream pc i info) w
      in (\<lparr>nd_id = i, nd_info = info, nd_status = kStateUninitialized, nd_task = None, nd_ctx = None,
           nd_osh = h, nd_osd = osd, nd_input_stream_ready = False, nd_input_side_data_ready = False\<rparr>, w))"

section \<open>Readiness flags\<close>

definition InputStreamReady :: "('t, 'v) node \<Rightarrow> ('t, 'v) node" where
  "InputStreamReady nd = (if nd_status nd \<noteq> kStatePrepared then nd else nd\<lparr>nd_input_stream_ready := True\<rparr>)"

definition InputSideDataReady :: "('t, 'v) node \<Rightarrow> ('t, 'v) node" where
  "InputSideDataReady nd = (if nd_status nd \<noteq> kStatePrepared then nd else nd\<lparr>nd_input_side_data_ready := True\<rparr>)"

definition IsReady :: "('t, 'v) node \<Rightarrow> bool" where
  "IsReady nd \<longleftrightarrow> nd_input_stream_ready nd \<and> nd_input_side_data_ready nd"

definition IsSource :: "'v world \<Rightarrow> ('t, 'v) node \<Rightarrow> bool" where
  "IsSource w nd \<longleftrightarrow> length (ish_managers (net_ish (w_net w) (Node_ISH (nd_id nd)))) = 0 \<and>
     length (osh_managers (nd_osh nd)) \<noteq> 0"

section \<open>Running\<close>

abbreviation node_ish :: "'v world \<Rightarrow> ('t, 'v) node \<Rightarrow> ish" where
  "node_ish w nd \<equiv> net_ish (w_net w) (Node_ISH (nd_id nd))"

definition on_net :: "('v net \<Rightarrow> 'v net outcome) \<Rightarrow> 'v world \<Rightarrow> 'v world outcome" where
  "on_net f w = bindE (f (w_net w)) (\<lambda>n. Inr (w\<lparr>w_net := n\<rparr>))"

text \<open>\<open>GetTaskByName\<close>: the factory throws for a name that is not registered.\<close>

definition GetTaskByName :: "('t, 'v) task_code \<Rightarrow> string \<Rightarrow> 't outcome" where
  "GetTaskByName tc name = (case tk_new tc name of None \<Rightarrow> Inl Invalid_argument | Some t \<Rightarrow> Inr t)"

definition Node_PrepareForRun ::
  "('t, 'v) task_code \<Rightarrow> (string \<times> 'v datum) list \<Rightarrow> ('t, 'v) node \<times> 'v world \<Rightarrow> (int \<times> ('t, 'v) node \<times> 'v world) outcome" where
  "Node_PrepareForRun tc all = (\<lambda>(nd, w).
     bindE (on_net (ish_PrepareForRun (node_ish w nd)) w) (\<lambda>w.
     case isd_PrepareForRun (nc_input_side_data (ni_cfg (nd_info nd))) all (w_side w (nd_id nd)) of (rc, sh) \<Rightarrow>
       let w = w\<lparr>w_side := (w_side w)(nd_id nd := sh)\<rparr> in
       if rc \<noteq> 0 then Inr (- 1, nd, w)
       else
         let ctx = TaskContext (nc_inputs (ni_cfg (nd_info nd))) (nc_outputs (ni_cfg (nd_info nd))) in
         bindE (SetupInputStreams (w_net w) (node_ish w nd) (ctx_inputs ctx)) (\<lambda>ci.
         bindE (SetupOutputStreams (w_net w) (nd_osh nd) (ctx_outputs ctx)) (\<lambda>co.
         bindE (GetTaskByName tc (nc_task (ni_cfg (nd_info nd)))) (\<lambda>t.
           Inr (0, nd\<lparr>nd_ctx := Some (ctx\<lparr>ctx_inputs := ci, ctx_outputs := co\<rparr>), nd_task := Some t,
                nd_status := kStatePrepared\<rparr>, w))))))"

text \<open>Assignments to output side data, in the order the task made them.\<close>

definition set_side :: "nat list \<Rightarrow> int \<times> 'v datum \<Rightarrow> 'v world \<Rightarrow> 'v world outcome" where
  "set_side osd x w =
     (if \<not> (0 \<le> fst x \<and> fst x < int (length osd)) then Inl Undefined
      else let a = osd ! nat (fst x) in
        bindE (osd_Set (snd x) (w_osd w a) (w_side w)) (\<lambda>(o1, side).
          Inr (w\<lparr>w_osd := (w_osd w)(a := o1), w_side := side\<rparr>)))"

text \<open>A virtual call of the task, with the null checks the machine makes.\<close>

definition call_task ::
  "('t, 'v) task_fun \<Rightarrow> ('t, 'v) node \<times> 'v world \<Rightarrow> (int \<times> ('t, 'v) node \<times> 'v world) outcome" where
  "call_task f = (\<lambda>(nd, w).
     bindE (ptr_deref (nd_task nd)) (\<lambda>t. bindE (ptr_deref (nd_ctx nd)) (\<lambda>ctx.
     bindE (ptr_deref (isd_data (w_side w (nd_id nd)))) (\<lambda>side.
     bindE (f t ctx side) (\<lambda>(rc, t', ctx', writes).
     bindE (foldE (set_side (nd_osd nd)) writes w) (\<lambda>w'.
       Inr (rc, nd\<lparr>nd_task := Some t', nd_ctx := Some ctx'\<rparr>, w')))))))"

text \<open>The result of the task's \<open>Open\<close> is dropped.\<close>

definition Node_Open ::
  "('t, 'v) task_code \<Rightarrow> ('t, 'v) node \<times> 'v world \<Rightarrow> (int \<times> ('t, 'v) node \<times> 'v world) outcome" where
  "Node_Open tc st = bindE (ptr_deref (nd_ctx (fst st))) (\<lambda>_.
     bindE (call_task (tk_open tc) st) (\<lambda>(rc, nd, w). Inr (0, nd\<lparr>nd_status := kStateOpened\<rparr>, w)))"

definition closeInputStreams :: "('t, 'v) node \<Rightarrow> 'v world \<Rightarrow> 'v world outcome" where
  "closeInputStreams nd w =
     (if nd_status nd = kStateClosed then Inr w else on_net (ish_Close (node_ish w nd)) w)"

definition Node_Close ::
  "('t, 'v) task_code \<Rightarrow> ('t, 'v) node \<times> 'v world \<Rightarrow> (int \<times> ('t, 'v) node \<times> 'v world) outcome" where
  "Node_Close tc = (\<lambda>(nd, w).
     if nd_status nd = kStateClosed then Inr (0, nd, w)
     else bindE (closeInputStreams nd w) (\<lambda>w.
       bindE (ptr_deref (nd_ctx nd)) (\<lambda>_.
       bindE (call_task (tk_close tc) (nd, w)) (\<lambda>(rc, nd, w). Inr (rc, nd\<lparr>nd_status := kStateClosed\<rparr>, w)))))"

definition Node_Process ::
  "('t, 'v) task_code \<Rightarrow> ('t, 'v) node \<times> 'v world \<Rightarrow> (int \<times> ('t, 'v) node \<times> 'v world) outcome" where
  "Node_Process tc = (\<lambda>(nd, w).
     bindE (ptr_deref (nd_ctx nd)) (\<lambda>ctx.
     if TimestampDone (NextTimestamp ctx) then
       bindE (Node_Close tc (nd, w)) (\<lambda>(rc, nd, w). Inr (0, nd, w))
     else
       bindE (Marshal (node_ish w nd) (ctx_inputs ctx, w_net w)) (\<lambda>(ci, net).
       bindE (call_task (tk_process tc) (nd\<lparr>nd_ctx := Some (ctx\<lparr>ctx_inputs := ci\<rparr>)\<rparr>, w\<lparr>w_net := net\<rparr>)) (\<lambda>(rc, nd, w).
       bindE (ptr_deref (nd_ctx nd)) (\<lambda>ctx.
       let ctx = ish_PostProcess ctx in
       bindE (isd_PostProcess (w_side w (nd_id nd))) (\<lambda>sh.
       let w = w\<lparr>w_side := (w_side w)(nd_id nd := sh)\<rparr> in
       bindE (osh_PostProcess (nd_osh nd) (ctx, w_net w)) (\<lambda>(ctx, net).
         Inr (rc, nd\<lparr>nd_ctx := Some ctx\<rparr>, w\<lparr>w_net := net\<rparr>))))))))"

definition Node_Finish :: "('t, 'v) node \<times> 'v world \<Rightarrow> (int \<times> ('t, 'v) node \<times> 'v world) outcome" where
  "Node_Finish = (\<lambda>(nd, w).
     let nd = nd\<lparr>nd_task := None\<rparr> in
     bindE (closeInputStreams nd w) (\<lambda>w. Inr (0, nd\<lparr>nd_status := kStateUninitialized\<rparr>, w)))"

section \<open>One run of a node\<close>

lemma Marshal_net:
  assumes "fits (ish_managers h) c" "distinct (ish_managers h)" "\<forall>s\<in>set (c_data c). \<not> is_done s"
    "Marshal h (c, net) = Inr (c', net')"
  shows "net_osm net' = net_osm net \<and> net_ish net' = net_ish net \<and>
    (\<forall>a. net_inbox net' a = (if Some a \<in> set (ish_managers h) then [] else net_inbox net a))"
proof -
  have "length (ish_managers h) = length (c_data c)" "nat (c_size c) = length (c_data c)"
    using assms(1) by (simp_all add: fits_def)
  then show ?thesis
    using sync_prefix [OF assms(1-3) order_refl, of net] assms(4)
    by (auto simp: Marshal_def Sync_def net_inbox_def)
qed

lemma Node_Process_result:
  assumes "nd_ctx nd = Some ctx" "nd_task nd = Some t" "isd_data (w_side w (nd_id nd)) = Some side"
    "NextTimestamp ctx < kCtimeMax"
    and inputs: "fits (ish_managers (node_ish w nd)) (ctx_inputs ctx)" "distinct (ish_managers (node_ish w nd))"
      "\<forall>s\<in>set (c_data (ctx_inputs ctx)). \<not> is_done s"
    and marshalled: "Marshal (node_ish w nd) (ctx_inputs ctx, w_net w) = Inr (ci, net1)"
    and task: "tk_process tc t (ctx\<lparr>ctx_inputs := ci\<rparr>) side = Inr (rc, t', ctx', [])"
    and outputs: "fits (osh_managers (nd_osh nd)) (ctx_outputs ctx')"
      "\<forall>a\<in>the ` set (osh_managers (nd_osh nd)). mirrors_ok (w_net w) a"
  shows "\<exists>nd' w' ctx''. Node_Process tc (nd, w) = Inr (rc, nd', w') \<and> nd_ctx nd' = Some ctx'' \<and>
    nd_task nd' = Some t' \<and> nd_status nd' = nd_status nd \<and>
    (\<forall>s\<in>set (c_data (ctx_inputs ctx'')). is_queue s = []) \<and> (\<forall>s\<in>set (c_data (ctx_outputs ctx'')). os_queue s = []) \<and>
    isd_data (w_side w' (nd_id nd)) = Some (map Datum_Reset side) \<and>
    (\<forall>b. net_inbox (w_net w') b =
      (if Some b \<in> set (ish_managers (node_ish w nd)) then [] else net_inbox (w_net w) b) @
      concat (map (\<lambda>i. mirrored (w_net w) (the (osh_managers (nd_osh nd) ! i))
        (os_queue (c_data (ctx_outputs ctx') ! i)) b) [0..<length (c_data (ctx_outputs ctx'))]))"
proof -
  note net1 = Marshal_net [OF inputs marshalled]
  have frame: "net_osm net1 = net_osm (w_net w)" "net_ish net1 = net_ish (w_net w)" using net1 by auto
  note cong = mirrored_cong [OF frame]
  have "\<forall>a\<in>the ` set (osh_managers (nd_osh nd)). mirrors_ok net1 a" using outputs(2) cong(2) by simp
  then obtain co net2 where out: "osh_Propagate (nd_osh nd) (ctx_outputs ctx', net1) = Inr (co, net2)"
    "c_data co = map (\<lambda>s. s\<lparr>os_queue := []\<rparr>) (c_data (ctx_outputs ctx'))"
    "\<forall>b. net_inbox net2 b = net_inbox net1 b @ concat (map (\<lambda>i. mirrored net1 (the (osh_managers (nd_osh nd) ! i))
       (os_queue (c_data (ctx_outputs ctx') ! i)) b) [0..<length (c_data (ctx_outputs ctx'))])"
    using osh_Propagate_frame [OF outputs(1)] by blast
  define ctx2 where "ctx2 = ish_PostProcess ctx'"
  have post: "ctx_outputs ctx2 = ctx_outputs ctx'" "\<forall>s\<in>set (c_data (ctx_inputs ctx2)). is_queue s = []"
    by (auto simp: ctx2_def ish_PostProcess_def PopTimestamp_def is_Clear_def Let_def)
  have "\<not> TimestampDone (NextTimestamp ctx)" using assms(4) by (simp add: TimestampDone_def)
  then have res: "Node_Process tc (nd, w) = Inr (rc,
      nd\<lparr>nd_ctx := Some (ctx2\<lparr>ctx_outputs := co\<rparr>), nd_task := Some t'\<rparr>,
      w\<lparr>w_side := (w_side w)(nd_id nd := (w_side w (nd_id nd))\<lparr>isd_data := Some (map Datum_Reset side)\<rparr>), w_net := net2\<rparr>)"
    using assms(1-3) marshalled task out(1) post(1)
    by (simp add: Node_Process_def call_task_def ptr_deref_def isd_PostProcess_def osh_PostProcess_def
        Let_def ctx2_def [symmetric])
  show ?thesis
    using post(2) out(2,3) net1 cong(1) by (simp add: res)
qed

text \<open>Processing a node takes everything from its input queues, runs the task once on it,
  delivers what the task wrote to the mirrors of its output streams, once per mirror and in
  order, and returns the task's result; afterwards the streams of its context and its side
  data are empty. Queues of other nodes only grow, by what was delivered to them.\<close>

lemma Node_Process_spec:
  assumes "nd_ctx nd = Some ctx" "nd_task nd = Some t" "isd_data (w_side w (nd_id nd)) = Some side"
    "NextTimestamp ctx < kCtimeMax"
    and inputs: "fits (ish_managers (node_ish w nd)) (ctx_inputs ctx)" "distinct (ish_managers (node_ish w nd))"
      "\<forall>s\<in>set (c_data (ctx_inputs ctx)). \<not> is_done s"
    and marshalled: "Marshal (node_ish w nd) (ctx_inputs ctx, w_net w) = Inr (ci, net1)"
    and task: "tk_process tc t (ctx\<lparr>ctx_inputs := ci\<rparr>) side = Inr (rc, t', ctx', [])"
    and outputs: "fits (osh_managers (nd_osh nd)) (ctx_outputs ctx')"
      "\<forall>a\<in>the ` set (osh_managers (nd_osh nd)). mirrors_ok (w_net w) a"
  shows "\<exists>nd' w' ctx''. Node_Process tc (nd, w) = Inr (rc, nd', w') \<and> nd_ctx nd' = Some ctx'' \<and>
    nd_task nd' = Some t' \<and> nd_status nd' = nd_status nd \<and>
    (\<forall>s\<in>set (c_data (ctx_inputs ctx'')). is_queue s = []) \<and> (\<forall>s\<in>set (c_data (ctx_outputs ctx'')). os_queue s = []) \<and>
    isd_data (w_side w' (nd_id nd)) = Some (map Datum_Reset side) \<and>
    (\<forall>b. net_inbox (w_net w') b =
      (if Some b \<in> set (ish_managers (node_ish w nd)) then [] else net_inbox (w_net w) b) @
      concat (map (\<lambda>i. mirrored (w_net w) (the (osh_managers (nd_osh nd) ! i))
        (os_queue (c_data (ctx_outputs ctx') ! i)) b) [0..<length (c_data (ctx_outputs ctx'))]))"
  by (rule Node_Process_result [OF assms])

text \<open>A node with one input and one output that passes its first datum on, doubled.\<close>

definition demo_tags :: tag_map where
  "demo_tags = \<lparr>tm_data = [('''', \<lparr>td_base = 0, td_count = 1\<rparr>)], tm_names = [''x''], tm_total = 1\<rparr>"

definition demo_task :: "(unit, int) task_fun" where
  "demo_task t ctx side = Inr (0, t, ctx\<lparr>ctx_outputs := (ctx_outputs ctx)\<lparr>c_data :=
     map (os_AddDatum (Datum_ts (2 * the (d_val (is_Value (c_data (ctx_inputs ctx) ! 0)))) 7)) (c_data (ctx_outputs ctx))\<rparr>\<rparr>, [])"

definition demo_code :: "(unit, int) task_code" where
  "demo_code = \<lparr>tk_new = (\<lambda>_. Some ()), tk_open = demo_task, tk_process = demo_task, tk_close = demo_task\<rparr>"

definition demo_info :: node_info where
  "demo_info = \<lparr>ni_cfg = \<lparr>nc_name = ''n'', nc_task = ''t'', nc_inputs = demo_tags, nc_outputs = demo_tags,
     nc_input_side_data = \<lparr>tm_data = [], tm_names = [], tm_total = 0\<rparr>,
     nc_output_side_data = \<lparr>tm_data = [], tm_names = [], tm_total = 0\<rparr>\<rparr>,
     ni_ref = \<lparr>nr_type = TASK, nr_index = 0\<rparr>, ni_predecessors = [],
     input_stream_base_index = 0, output_stream_base_index = 0,
     input_side_data_base_index = 0, output_side_data_base_index = 0\<rparr>"

definition demo_node :: "(unit, int) node" where
  "demo_node = \<lparr>nd_id = 0, nd_info = demo_info, nd_status = kStateOpened, nd_task = Some (),
     nd_ctx = Some (TaskContext demo_tags demo_tags), nd_osh = \<lparr>osh_managers = [Some 0]\<rparr>, nd_osd = [],
     nd_input_stream_ready = False, nd_input_side_data_ready = False\<rparr>"

definition demo_world :: "int world" where
  "demo_world = \<lparr>w_net = \<lparr>net_ism = (\<lambda>a. if a = 0 then ism_AddData [Datum_ts 21 5] ISM0 else ISM0),
       net_ish = (\<lambda>r. \<lparr>ish_managers = [Some (case r of Node_ISH n \<Rightarrow> n | Output_ISH n \<Rightarrow> n + 10)], ss_ids = [], ss_last_processed = 0\<rparr>),
       net_osm = (\<lambda>_. \<lparr>osm_name = ''x'', osm_mirrors = [(Node_ISH 1, 0), (Output_ISH 0, 0)]\<rparr>)\<rparr>,
     w_side = (\<lambda>_. \<lparr>isd_data = Some []\<rparr>), w_osd = (\<lambda>_. osd0)\<rparr>"

lemma Node_Process_spec_example:
  "\<exists>nd' w'. Node_Process demo_code (demo_node, demo_world) = Inr (0, nd', w') \<and>
     net_inbox (w_net w') 0 = [] \<and> net_inbox (w_net w') 1 = [Datum_ts 42 7] \<and> net_inbox (w_net w') 10 = [Datum_ts 42 7]"
proof -
  define ctx :: "int task_context" where "ctx = TaskContext demo_tags demo_tags"
  define r where "r = Marshal (node_ish demo_world demo_node) (ctx_inputs ctx, w_net demo_world)"
  have ctx: "nd_ctx demo_node = Some ctx" "nd_task demo_node = Some ()"
    "isd_data (w_side demo_world (nd_id demo_node)) = Some []" "NextTimestamp ctx < kCtimeMax"
    by (simp_all add: ctx_def demo_node_def demo_world_def NextTimestamp_def TaskContext_def ts_defs)
  have inp: "fits (ish_managers (node_ish demo_world demo_node)) (ctx_inputs ctx)"
    "distinct (ish_managers (node_ish demo_world demo_node))" "\<forall>s\<in>set (c_data (ctx_inputs ctx)). \<not> is_done s"
    by (simp_all add: fits_def ctx_def demo_node_def demo_world_def TaskContext_def Collection_def demo_tags_def
        c_size_def NStreams_def InputStream0_def)
  obtain ci net1 where m: "Marshal (node_ish demo_world demo_node) (ctx_inputs ctx, w_net demo_world) = Inr (ci, net1)"
    "is_queue (c_data ci ! 0) = [At 4 (Datum_ts 21 5)]"
    using Marshal_slot [OF inp] ts_wrap_id [of 4]
    by (fastforce simp: ctx_def demo_node_def demo_world_def TaskContext_def Collection_def demo_tags_def
        NStreams_def InputStream0_def ISM0_def ism_AddData_def ism_push_def ism_NextTimestampOrBound_def ts_defs ts_wrap_def)
  define ctx' where "ctx' = ctx\<lparr>ctx_inputs := ci, ctx_outputs := (ctx_outputs ctx)\<lparr>c_data :=
    [\<lparr>os_name = [], os_queue = [Datum_ts 42 7], os_closed = False\<rparr>]\<rparr>\<rparr>"
  have "tk_process demo_code () (ctx\<lparr>ctx_inputs := ci\<rparr>) [] = Inr (0, (), ctx', [])"
    using m(2) by (simp add: demo_code_def demo_task_def ctx'_def is_Value_def ctx_def TaskContext_def Collection_def
        demo_tags_def NStreams_def OutputStream0_def os_AddDatum_def os_addDatum_def ts_defs)
  moreover have "fits (osh_managers (nd_osh demo_node)) (ctx_outputs ctx')"
    "\<forall>a\<in>the ` set (osh_managers (nd_osh demo_node)). mirrors_ok (w_net demo_world) a"
    by (simp_all add: fits_def demo_node_def ctx'_def ctx_def TaskContext_def Collection_def demo_tags_def c_size_def
        NStreams_def mirrors_ok_def demo_world_def net_target_def ptr_at_def)
  ultimately show ?thesis
    using Node_Process_spec [OF ctx inp m(1)]
    by (fastforce simp: ctx'_def demo_node_def demo_world_def mirrored_def net_target_def ptr_at_def net_inbox_def ISM0_def)
qed

section \<open>Calls of a node\<close>

datatype 'v node_op =
    Op_Prepare "(string \<times> 'v datum) list"
  | Op_Open
  | Op_Process
  | Op_Close
  | Op_Finish
  | Op_StreamReady
  | Op_SideReady

fun node_apply :: "('t, 'v) task_code \<Rightarrow> 'v node_op \<Rightarrow> ('t, 'v) node \<times> 'v world \<Rightarrow> (int \<times> ('t, 'v) node \<times> 'v world) outcome" where
  "node_apply tc (Op_Prepare all) st = Node_PrepareForRun tc all st"
| "node_apply tc Op_Open st = Node_Open tc st"
| "node_apply tc Op_Process st = Node_Process tc st"
| "node_apply tc Op_Close st = Node_Close tc st"
| "node_apply tc Op_Finish st = Node_Finish st"
| "node_apply tc Op_StreamReady st = Inr (0, InputStreamReady (fst st), snd st)"
| "node_apply tc Op_SideReady st = Inr (0, InputSideDataReady (fst st), snd st)"

lemma call_task_null: "nd_task n = None \<Longrightarrow> call_task f (n, v) = Inl Undefined"
  by (simp add: call_task_def ptr_deref_def)

text \<open>A node that has been finished has no task: until it is prepared again, opening and
  processing it is undefined behaviour, never a silent success.\<close>

lemma node_finished_unusable:
  assumes "Node_Finish (nd, w) = Inr (rc, nd', w')" "nd_ctx nd = Some ctx" "NextTimestamp ctx < kCtimeMax"
  shows "nd_status nd' = kStateUninitialized \<and> Node_Open tc (nd', w') = Inl Undefined \<and>
    (\<exists>e. Node_Process tc (nd', w') = Inl e)"
proof -
  have nd': "nd_task nd' = None" "nd_ctx nd' = Some ctx" "nd_status nd' = kStateUninitialized"
    using assms(1,2) by (auto simp: Node_Finish_def Let_def bindE_Inr_iff)
  have "\<exists>e. Node_Process tc (nd', w') = Inl e"
    using assms(3) nd'
    by (cases "Marshal (node_ish w' nd') (ctx_inputs ctx, w_net w')")
      (auto simp: Node_Process_def ptr_deref_def TimestampDone_def call_task_null)
  then show ?thesis using nd' by (simp add: Node_Open_def ptr_deref_def call_task_null)
qed

text \<open>A manager that was closed stays closed when the node is prepared for another run, so
  closing it again no longer marks the end of the stream.\<close>

lemma closed_manager_never_done_again:
  "\<not> ism_IsDone (ism_Close (ism_PrepareForRun (ism_Close m)))"
  by (simp add: ism_IsDone_def ism_Close_def ism_PrepareForRun_def ts_defs)

end
