(* ===== verification/Graph.thy ===== *)
theory Graph
  imports Node
begin

text \<open>
  The graph: \<open>graph.h\<close>, \<open>graph.cc\<close>. The taskflow executor is not part of the repository: a run
  calls every node once, in some order that respects the predecessors; the definitions that
  run nodes take that order as a list of node indices. Input stream managers of the nodes have
  the addresses below the number of input edges; each observed output allocates the next
  address. The model of \<open>std::unordered_map\<close> with \<open>operator[]\<close> enters a null pointer for
  an unknown name, which the caller then follows.
\<close>

section \<open>State\<close>

record 'v gis =
  gis_osm :: nat
  gis_input :: "'v output_stream"
  gis_closed :: bool

record ('t, 'v) graph =
  g_initialized :: bool
  g_cfg :: parsed_config
  g_inputs :: "(string \<times> 'v gis) list"
  g_input_to_node :: "(string \<times> int) list"
  g_num_closed :: nat
  g_outputs :: "gos list"
  g_next_ism :: nat
  g_nodes :: "('t, 'v) node list"
  g_world :: "'v world"
  g_side_now :: "(string \<times> 'v datum) list"

text \<open>\<open>GraphInputStream\<close> has a constructor of its own that leaves \<open>closed_\<close> indeterminate: \<open>junk\<close>.\<close>

definition GraphInputStream :: "bool \<Rightarrow> 'v net \<Rightarrow> nat \<Rightarrow> 'v gis" where
  "GraphInputStream junk net osm =
     \<lparr>gis_osm = osm, gis_input = os_SetSpec (osm_name (net_osm net osm)) OutputStream0, gis_closed = junk\<rparr>"

definition gis_AddDatum :: "'v datum \<Rightarrow> 'v gis \<Rightarrow> 'v gis" where
  "gis_AddDatum d s = s\<lparr>gis_input := os_AddDatum d (gis_input s)\<rparr>"

definition gis_Close :: "'v gis \<Rightarrow> 'v gis" where
  "gis_Close s = s\<lparr>gis_closed := True\<rparr>"

definition gis_Propagate :: "'v gis \<times> 'v net \<Rightarrow> ('v gis \<times> 'v net) outcome" where
  "gis_Propagate = (\<lambda>(s, net).
     bindE (send_mirrors (osm_mirrors (net_osm net (gis_osm s))) (os_queue (gis_input s)) net) (\<lambda>(data, net').
       Inr (s\<lparr>gis_input := (gis_input s)\<lparr>os_queue := []\<rparr>\<rparr>, net')))"

section \<open>Initialisation\<close>

text \<open>The graph input streams, in the order of the tag map, with the checks against the parsed
  configuration.\<close>

fun init_graph_inputs ::
  "bool \<Rightarrow> parsed_config \<Rightarrow> 'v net \<Rightarrow> string list \<Rightarrow> nat \<Rightarrow> (string \<times> 'v gis) list \<times> (string \<times> int) list \<Rightarrow>
   int \<times> (string \<times> 'v gis) list \<times> (string \<times> int) list" where
  "init_graph_inputs junk pc net [] n (ins, to_node) = (0, ins, to_node)"
| "init_graph_inputs junk pc net (name # names) n (ins, to_node) =
     (let osi = OutputStreamIndex pc name in
      if osi < 0 then (- 1, ins, to_node)
      else
        let edge = e_outputs (pc_streams pc) ! nat osi; node_idx = int (length (pc_nodes pc)) + int n in
        if nr_type (ei_parent edge) \<noteq> GRAPH_INPUT_STREAM then (- 1, ins, to_node)
        else if nr_index (ei_parent edge) \<noteq> node_idx then (- 1, ins, to_node)
        else init_graph_inputs junk pc net names (Suc n)
          (um_insert name (GraphInputStream junk net (nat osi)) ins, um_insert name node_idx to_node))"

definition Graph_InitializeStreams :: "bool \<Rightarrow> ('t, 'v) graph \<Rightarrow> (int \<times> ('t, 'v) graph) outcome" where
  "Graph_InitializeStreams junk g =
     (let es = pc_streams (g_cfg g);
          net = (w_net (g_world g))
            \<lparr>net_ism := (\<lambda>a. if a < length (e_inputs es) then ism_Initialize (ei_name (e_inputs es ! a)) ISM0 else ISM0),
             net_osm := (\<lambda>a. if a < length (e_outputs es)
               then osm_Initialize (ei_name (e_outputs es ! a)) \<lparr>osm_name = [], osm_mirrors = []\<rparr>
               else \<lparr>osm_name = [], osm_mirrors = []\<rparr>)\<rparr>;
          g = g\<lparr>g_world := (g_world g)\<lparr>w_net := net\<rparr>, g_next_ism := length (e_inputs es)\<rparr>
      in bindE (NewTagMap (gp_input_stream (pc_proto (g_cfg g)))) (\<lambda>tm. case tm of
           None \<Rightarrow> Inl Undefined
         | Some tm \<Rightarrow> (case init_graph_inputs junk (g_cfg g) net (Names tm) 0 (g_inputs g, g_input_to_node g) of
             (rc, ins, to_node) \<Rightarrow> Inr (rc, g\<lparr>g_inputs := ins, g_input_to_node := to_node\<rparr>))))"

fun init_graph_nodes :: "parsed_config \<Rightarrow> nat list \<Rightarrow> 'v world \<Rightarrow> ('t, 'v) node list \<times> 'v world" where
  "init_graph_nodes pc [] w = ([], w)"
| "init_graph_nodes pc (i # is) w =
     (case Node_Initialize pc i w of (nd, w') \<Rightarrow>
        case init_graph_nodes pc is w' of (nds, w'') \<Rightarrow> (nd # nds, w''))"

definition Graph_InitializeNodes :: "('t, 'v) graph \<Rightarrow> int \<times> ('t, 'v) graph" where
  "Graph_InitializeNodes g =
     (let outs = e_outputs (pc_side (g_cfg g));
          w = (g_world g)\<lparr>w_osd := (\<lambda>a. if a < length outs then osd_Initialize (ei_name (outs ! a)) osd0 else osd0)\<rparr>
      in case init_graph_nodes (g_cfg g) [0..<length (pc_nodes (g_cfg g))] w of
           (nds, w') \<Rightarrow> (0, g\<lparr>g_nodes := g_nodes g @ nds, g_world := w'\<rparr>))"

definition Graph_Initialize :: "bool \<Rightarrow> graph_proto \<Rightarrow> ('t, 'v) graph \<Rightarrow> (int \<times> ('t, 'v) graph) outcome" where
  "Graph_Initialize junk config g =
     (if g_initialized g then Inr (0, g)
      else bindE (pc_Initialize config) (\<lambda>(rc, pc).
        if rc \<noteq> 0 then Inr (- 1, g)
        else bindE (Graph_InitializeStreams junk (g\<lparr>g_cfg := pc\<rparr>)) (\<lambda>(rc, g).
          if rc \<noteq> 0 then Inr (- 1, g)
          else case Graph_InitializeNodes g of (rc, g) \<Rightarrow>
            if rc \<noteq> 0 then Inr (- 1, g) else Inr (0, g\<lparr>g_initialized := True\<rparr>))))"

definition Graph0 :: "('t, 'v) graph" where
  "Graph0 = \<lparr>g_initialized = False, g_cfg = \<lparr>pc_proto = \<lparr>gp_node = [], gp_input_stream = [], gp_output_stream = [], gp_input_side_data = []\<rparr>,
       pc_nodes = [], pc_streams = edges0, pc_side = edges0\<rparr>,
     g_inputs = [], g_input_to_node = [], g_num_closed = 0, g_outputs = [], g_next_ism = 0, g_nodes = [],
     g_world = \<lparr>w_net = \<lparr>net_ism = (\<lambda>_. ISM0), net_ish = (\<lambda>_. \<lparr>ish_managers = [], ss_ids = [], ss_last_processed = 0\<rparr>),
         net_osm = (\<lambda>_. \<lparr>osm_name = [], osm_mirrors = []\<rparr>)\<rparr>, w_side = (\<lambda>_. isd_handler0), w_osd = (\<lambda>_. osd0)\<rparr>,
     g_side_now = []\<rparr>"

section \<open>Running\<close>

text \<open>An operation on one node of the graph, and on several in a given order.\<close>

definition at_node ::
  "(('t, 'v) node \<times> 'v world \<Rightarrow> (int \<times> ('t, 'v) node \<times> 'v world) outcome) \<Rightarrow> nat \<Rightarrow> ('t, 'v) graph \<Rightarrow> ('t, 'v) graph outcome" where
  "at_node f i g =
     (if i < length (g_nodes g) then
        bindE (f (g_nodes g ! i, g_world g)) (\<lambda>(rc, nd, w). Inr (g\<lparr>g_nodes := (g_nodes g)[i := nd], g_world := w\<rparr>))
      else Inl Undefined)"

definition Graph_PrepareForRun :: "('t, 'v) task_code \<Rightarrow> nat list \<Rightarrow> ('t, 'v) graph \<Rightarrow> (int \<times> ('t, 'v) graph) outcome" where
  "Graph_PrepareForRun tc order g =
     (let g = g\<lparr>g_side_now := fold (\<lambda>e. om_insert (ei_name e) Datum0) (e_outputs (pc_side (g_cfg g))) (g_side_now g)\<rparr> in
      bindE (foldE (at_node (Node_PrepareForRun tc (g_side_now g))) [0..<length (g_nodes g)] g) (\<lambda>g.
      bindE (foldE gos_PrepareForRun (g_outputs g) (w_net (g_world g))) (\<lambda>net.
      bindE (foldE (at_node (Node_Open tc)) order (g\<lparr>g_world := (g_world g)\<lparr>w_net := net\<rparr>\<rparr>)) (\<lambda>g.
        Inr (0, g)))))"

definition Graph_RunOnce :: "('t, 'v) task_code \<Rightarrow> nat list \<Rightarrow> ('t, 'v) graph \<Rightarrow> ('t, 'v) graph outcome" where
  "Graph_RunOnce tc order g = foldE (at_node (Node_Process tc)) order g"

definition Graph_Finish :: "('t, 'v) graph \<Rightarrow> (int \<times> ('t, 'v) graph) outcome" where
  "Graph_Finish g =
     (let g = g\<lparr>g_inputs := map (\<lambda>(n, s). (n, gis_Close s)) (g_inputs g)\<rparr> in
      bindE (foldE (at_node Node_Finish) [0..<length (g_nodes g)] g) (\<lambda>g.
      bindE (on_net (foldE gos_Close (g_outputs g)) (g_world g)) (\<lambda>w. Inr (0, g\<lparr>g_world := w\<rparr>))))"

definition ClearResult :: "('t, 'v) graph \<Rightarrow> ('t, 'v) graph outcome" where
  "ClearResult g = bindE (on_net (foldE gos_Clear (g_outputs g)) (g_world g)) (\<lambda>w. Inr (g\<lparr>g_world := w\<rparr>))"

definition ObserveOutputStream :: "string \<Rightarrow> ('t, 'v) graph \<Rightarrow> (int \<times> ('t, 'v) graph) outcome" where
  "ObserveOutputStream name g =
     (let idx = OutputStreamIndex (g_cfg g) name in
      if idx < 0 then Inr (- 1, g)
      else bindE (gos_Initialize name (nat idx) (length (g_outputs g)) (g_next_ism g) (w_net (g_world g))) (\<lambda>(rc, gos, net).
        Inr (0, g\<lparr>g_outputs := g_outputs g @ [gos], g_next_ism := Suc (g_next_ism g),
          g_world := (g_world g)\<lparr>w_net := net\<rparr>\<rparr>)))"

definition AddDatumToInputStream :: "string \<Rightarrow> 'v datum \<Rightarrow> ('t, 'v) graph \<Rightarrow> (int \<times> ('t, 'v) graph) outcome" where
  "AddDatumToInputStream name d g = (case map_of (g_inputs g) name of
       None \<Rightarrow> Inl Undefined
     | Some s \<Rightarrow> bindE (gis_Propagate (gis_AddDatum d s, w_net (g_world g))) (\<lambda>(s', net).
         Inr (0, g\<lparr>g_inputs := um_insert name s' (g_inputs g), g_world := (g_world g)\<lparr>w_net := net\<rparr>\<rparr>)))"

definition CloseInputStream :: "string \<Rightarrow> ('t, 'v) graph \<Rightarrow> (int \<times> ('t, 'v) graph) outcome" where
  "CloseInputStream name g = (case map_of (g_inputs g) name of
       None \<Rightarrow> Inl Undefined
     | Some s \<Rightarrow>
         if gis_closed s then Inr (0, g)
         else Inr (0, g\<lparr>g_inputs := um_insert name (gis_Close s) (g_inputs g), g_num_closed := Suc (g_num_closed g)\<rparr>))"

definition CloseAllInputStreams :: "('t, 'v) graph \<Rightarrow> int \<times> ('t, 'v) graph" where
  "CloseAllInputStreams g = (0, g\<lparr>g_inputs := map (\<lambda>(n, s). (n, gis_Close s)) (g_inputs g),
     g_num_closed := length (g_inputs g)\<rparr>)"

fun add_side :: "nat list \<Rightarrow> string \<Rightarrow> 'v datum \<Rightarrow> 'v world \<Rightarrow> 'v world outcome" where
  "add_side [] name d w = Inr w"
| "add_side (a # as) name d w =
     (if name = osd_name (w_osd w a) then
        bindE (osd_Set d (w_osd w a) (w_side w)) (\<lambda>(o1, side). Inr (w\<lparr>w_osd := (w_osd w)(a := o1), w_side := side\<rparr>))
      else add_side as name d w)"

definition AddDatumToInputSideData :: "string \<Rightarrow> 'v datum \<Rightarrow> ('t, 'v) graph \<Rightarrow> (int \<times> ('t, 'v) graph) outcome" where
  "AddDatumToInputSideData name d g =
     bindE (add_side [0..<length (e_outputs (pc_side (g_cfg g)))] name d (g_world g)) (\<lambda>w. Inr (0, g\<lparr>g_world := w\<rparr>))"

text \<open>\<open>GetResult<T>\<close>: the head of the first observed stream of that name; all of its queue is cleared.
  \<open>dflt\<close> is \<open>T()\<close>.\<close>

fun get_result :: "('v \<Rightarrow> 'r option) \<Rightarrow> 'r \<Rightarrow> string \<Rightarrow> gos list \<Rightarrow> 'v net \<Rightarrow> ('r \<times> 'v net) outcome" where
  "get_result cast dflt name [] net = Inr (dflt, net)"
| "get_result cast dflt name (o1 # os) net =
     bindE (gos_Name net o1) (\<lambda>n.
       if name \<noteq> n then get_result cast dflt name os net
       else bindE (gos_Head net o1) (\<lambda>d. bindE (gos_Clear o1 net) (\<lambda>net.
         Inr (case fst (Consume cast d) of None \<Rightarrow> dflt | Some r \<Rightarrow> r, net))))"

definition GetResult :: "('v \<Rightarrow> 'r option) \<Rightarrow> 'r \<Rightarrow> string \<Rightarrow> ('t, 'v) graph \<Rightarrow> ('r \<times> ('t, 'v) graph) outcome" where
  "GetResult cast dflt name g = bindE (get_result cast dflt name (g_outputs g) (w_net (g_world g))) (\<lambda>(r, net).
     Inr (r, g\<lparr>g_world := (g_world g)\<lparr>w_net := net\<rparr>\<rparr>))"

section \<open>Wiring\<close>

text \<open>The inputs of node \<open>i\<close> and where each comes from; \<open>node_mirrors pc i u\<close> are the mirrors
  node \<open>i\<close> registers at output \<open>u\<close>.\<close>

definition len_in :: "parsed_config \<Rightarrow> nat \<Rightarrow> nat" where
  "len_in pc i = nat (NStreams (nc_inputs (ni_cfg (pc_nodes pc ! i))))"

definition base_in :: "parsed_config \<Rightarrow> nat \<Rightarrow> nat" where
  "base_in pc i = nat (input_stream_base_index (pc_nodes pc ! i))"

definition up_in :: "parsed_config \<Rightarrow> nat \<Rightarrow> int" where
  "up_in pc b = ei_upstream (e_inputs (pc_streams pc) ! b)"

definition node_mirrors :: "parsed_config \<Rightarrow> nat \<Rightarrow> nat \<Rightarrow> (ish_ref \<times> int) list" where
  "node_mirrors pc i u =
     map (\<lambda>k. (Node_ISH i, int k)) (filter (\<lambda>k. up_in pc (base_in pc i + k) = int u) [0..<len_in pc i])"

lemma fold_add_mirrors:
  fixes up :: "nat \<Rightarrow> int" and i :: nat
  defines "step \<equiv> \<lambda>k net. if up k < 0 then net else upd_osm (nat (up k)) (AddMirror (Node_ISH i) (int k)) net"
  shows "net_ish (fold step ks net) = net_ish net \<and> net_ism (fold step ks net) = net_ism net \<and>
    osm_mirrors (net_osm (fold step ks net) u) =
      osm_mirrors (net_osm net u) @ map (\<lambda>k. (Node_ISH i, int k)) (filter (\<lambda>k. up k = int u) ks)"
proof (induction ks arbitrary: net)
  case (Cons k ks)
  have "nat (up k) = u \<longleftrightarrow> up k = int u" if "\<not> up k < 0" using that by auto
  then show ?case using Cons [of "step k net"] by (auto simp: step_def AddMirror_def)
qed simp

lemma initializeInputStream_net:
  assumes "0 \<le> input_stream_base_index (pc_nodes pc ! i)"
  shows "net_ism (initializeInputStream pc i (pc_nodes pc ! i) net) = net_ism net \<and>
    net_ish (initializeInputStream pc i (pc_nodes pc ! i) net) =
      (net_ish net)(Node_ISH i := InitializeInputStreamManagers (base_in pc i) (net_ish net (Node_ISH i))) \<and>
    osm_mirrors (net_osm (initializeInputStream pc i (pc_nodes pc ! i) net) u) =
      osm_mirrors (net_osm net u) @ node_mirrors pc i u"
  using assms fold_add_mirrors [where up = "\<lambda>k. up_in pc (base_in pc i + k)" and ks = "[0..<len_in pc i]" and i = i and u = u
    and net = "upd_ish (Node_ISH i) (InitializeInputStreamManagers (base_in pc i)) net"]
  by (simp add: initializeInputStream_def Let_def base_in_def len_in_def up_in_def node_mirrors_def cong: if_cong)

definition managers_ok :: "parsed_config \<Rightarrow> 'v net \<Rightarrow> nat \<Rightarrow> bool" where
  "managers_ok pc net i \<longleftrightarrow> ish_managers (net_ish net (Node_ISH i)) = map (\<lambda>k. Some (base_in pc i + k)) [0..<len_in pc i]"

lemma initializeInputSideData_net [simp]: "w_net (initializeInputSideData pc i info w) = w_net w"
proof -
  have "w_net (fold (\<lambda>k w. if f k < 0 then w else upd_osd (nat (f k)) (g k) w) ks w) = w_net w"
    for f :: "nat \<Rightarrow> int" and g :: "nat \<Rightarrow> 'v osd \<Rightarrow> 'v osd" and ks and w :: "'v world"
    by (induction ks arbitrary: w) auto
  then show ?thesis by (simp add: initializeInputSideData_def Let_def)
qed

lemma Node_Initialize_net:
  assumes "0 \<le> input_stream_base_index (pc_nodes pc ! i)" "Node_Initialize pc i w = (nd, w')"
  shows "net_ism (w_net w') = net_ism (w_net w) \<and> managers_ok pc (w_net w') i \<and>
    (\<forall>r. r \<noteq> Node_ISH i \<longrightarrow> net_ish (w_net w') r = net_ish (w_net w) r) \<and>
    (\<forall>u. osm_mirrors (net_osm (w_net w') u) = osm_mirrors (net_osm (w_net w) u) @ node_mirrors pc i u)"
proof -
  let ?h = "\<lambda>_. DefaultInputStreamHandler (nc_inputs (ni_cfg (pc_nodes pc ! i)))"
  have net: "w_net w' = initializeInputStream pc i (pc_nodes pc ! i) (upd_ish (Node_ISH i) ?h (w_net w))"
    using assms(2) by (auto simp: Node_Initialize_def Let_def)
  show ?thesis
    using initializeInputStream_net [OF assms(1), of "upd_ish (Node_ISH i) ?h (w_net w)"]
    by (simp add: net managers_ok_def InitializeInputStreamManagers_def DefaultInputStreamHandler_def len_in_def)
qed

lemma init_graph_nodes_net:
  assumes "\<forall>i\<in>set is. 0 \<le> input_stream_base_index (pc_nodes pc ! i)" "distinct is"
    "init_graph_nodes pc is w = (nds, w')"
  shows "net_ism (w_net w') = net_ism (w_net w) \<and> (\<forall>i\<in>set is. managers_ok pc (w_net w') i) \<and>
    (\<forall>r. r \<notin> Node_ISH ` set is \<longrightarrow> net_ish (w_net w') r = net_ish (w_net w) r) \<and>
    (\<forall>u. osm_mirrors (net_osm (w_net w') u) =
      osm_mirrors (net_osm (w_net w) u) @ concat (map (\<lambda>i. node_mirrors pc i u) is))"
  using assms
proof (induction "is" arbitrary: w nds w')
  case (Cons i "is")
  obtain nd1 w1 where 1: "Node_Initialize pc i w = (nd1 :: ('a, 'b) node, w1)" by fastforce
  obtain nds2 :: "('a, 'b) node list" where 2: "init_graph_nodes pc is w1 = (nds2, w')" using Cons.prems(3) 1 by (auto split: prod.splits)
  note ih = Cons.IH [OF _ _ 2] and n = Node_Initialize_net [OF _ 1]
  have "managers_ok pc (w_net w') i"
    using n ih Cons.prems by (auto simp: managers_ok_def)
  then show ?case using n ih Cons.prems by auto
qed simp

lemma all_inputs:
  assumes "pc_Initialize config = Inr (0, pc)"
  shows "concat (map (\<lambda>i. map (\<lambda>k. base_in pc i + k) [0..<len_in pc i]) [0..<length (pc_nodes pc)]) =
      [0..<length (e_inputs (pc_streams pc))] \<and>
    (\<forall>i<length (pc_nodes pc). 0 \<le> input_stream_base_index (pc_nodes pc ! i))"
proof (rule pc_Initialize_ok [OF assms], goal_cases)
  case (1 cfg gs sgs)
  note len = "1"(1) and tags = "1"(2) and node = "1"(3) and names = "1"(6)
  let ?f = "\<lambda>j. Names (nc_inputs (cfg j))" and ?n = "length (gp_node config)"
  have li: "len_in pc i = length (?f i) \<and> base_in pc i = length (upto_node ?f i) \<and>
      0 \<le> input_stream_base_index (pc_nodes pc ! i)" if "i < ?n" for i
  proof -
    have "NewTagMap (np_input_stream (gp_node config ! i)) = Inr (Some (nc_inputs (cfg i)))" using tags [OF that] by blast
    from tag_map_bij [OF this] have "nat (NStreams (nc_inputs (cfg i))) = length (?f i)" by simp
    then show ?thesis using node [OF that] by (simp add: len_in_def base_in_def)
  qed
  have flat: "concat (map (\<lambda>i. map (\<lambda>k. length (upto_node ?f i) + k) [0..<length (?f i)]) [0..<n]) =
      [0..<length (upto_node ?f n)]" for n
  proof (induction n)
    case (Suc n)
    have "map (\<lambda>k. length (upto_node ?f n) + k) [0..<length (?f n)] =
        [length (upto_node ?f n)..<length (upto_node ?f n) + length (?f n)]"
      using map_add_upt [of "length (upto_node ?f n)" "length (?f n)"] by (simp add: add.commute)
    then show ?case using Suc upt_add_eq_append [of 0 "length (upto_node ?f n)" "length (?f n)"] by simp
  qed simp
  have ins: "length (e_inputs (pc_streams pc)) = length (upto_node ?f ?n)" using names by (metis length_map)
  have "map (\<lambda>i. map (\<lambda>k. base_in pc i + k) [0..<len_in pc i]) [0..<?n] =
      map (\<lambda>i. map (\<lambda>k. length (upto_node ?f i) + k) [0..<length (?f i)]) [0..<?n]"
    using li by (intro map_cong) auto
  then have "concat (map (\<lambda>i. map (\<lambda>k. base_in pc i + k) [0..<len_in pc i]) [0..<?n]) =
      [0..<length (e_inputs (pc_streams pc))]" by (simp only: flat ins)
  then show ?case using li unfolding len by blast
qed

text \<open>How a graph is wired: the handlers of the nodes own consecutive managers, and the mirrors of
  every output are those the nodes registered, followed by the observers of the output of their
  name; the manager of observer \<open>k\<close> lies \<open>k\<close> behind those of the nodes.\<close>

definition all_mirrors :: "parsed_config \<Rightarrow> nat \<Rightarrow> (ish_ref \<times> int) list" where
  "all_mirrors pc u = concat (map (\<lambda>i. node_mirrors pc i u) [0..<length (pc_nodes pc)])"

definition watched :: "parsed_config \<Rightarrow> 'v net \<Rightarrow> gos \<Rightarrow> int" where
  "watched pc net o1 = (case gos_ism o1 of None \<Rightarrow> - 1 | Some a \<Rightarrow> OutputStreamIndex pc (stream_names net a))"

definition observer_ok :: "parsed_config \<Rightarrow> 'v net \<Rightarrow> nat \<Rightarrow> gos \<Rightarrow> bool" where
  "observer_ok pc net k o1 \<longleftrightarrow> (let a = length (e_inputs (pc_streams pc)) + k in
     gos_ism o1 = None \<or> gos_ism o1 = Some a \<and> net_target net (Output_ISH k, 0) = Some a)"

definition observer_mirrors :: "parsed_config \<Rightarrow> 'v net \<Rightarrow> gos list \<Rightarrow> nat \<Rightarrow> (ish_ref \<times> int) list" where
  "observer_mirrors pc net outs u =
     map (\<lambda>k. (Output_ISH k, 0)) (filter (\<lambda>k. watched pc net (outs ! k) = int u) [0..<length outs])"

definition wired :: "parsed_config \<Rightarrow> 'v net \<Rightarrow> gos list \<Rightarrow> bool" where
  "wired pc net outs \<longleftrightarrow> (\<forall>i < length (pc_nodes pc). managers_ok pc net i) \<and>
     (\<forall>k < length outs. observer_ok pc net k (outs ! k)) \<and>
     (\<forall>u. osm_mirrors (net_osm net u) = all_mirrors pc u @ observer_mirrors pc net outs u)"

lemma wired_cong:
  assumes "net_ish net' = net_ish net" "net_osm net' = net_osm net" "stream_names net' = stream_names net"
  shows "wired pc net' = wired pc net"
proof -
  have t: "net_target net' = net_target net" using assms(1) by (simp add: net_target_def fun_eq_iff)
  show ?thesis
    by (intro ext) (simp only: wired_def managers_ok_def observer_ok_def observer_mirrors_def watched_def t assms)
qed

lemma node_mirror_target:
  assumes "managers_ok pc net i"
  shows "map (net_target net) (node_mirrors pc i u) =
    map Some (filter (\<lambda>b. up_in pc b = int u) (map (\<lambda>k. base_in pc i + k) [0..<len_in pc i]))"
proof -
  have "net_target net (Node_ISH i, int k) = Some (base_in pc i + k)" if "k < len_in pc i" for k
    using assms that by (simp add: net_target_def managers_ok_def ptr_at_def)
  then show ?thesis by (simp add: node_mirrors_def filter_map comp_def)
qed

lemma all_mirror_targets:
  assumes "pc_Initialize config = Inr (0, pc)" "\<forall>i < length (pc_nodes pc). managers_ok pc net i"
  shows "map (net_target net) (all_mirrors pc u) =
    map Some (filter (\<lambda>b. up_in pc b = int u) [0..<length (e_inputs (pc_streams pc))])"
proof -
  let ?blk = "\<lambda>i. map (\<lambda>k. base_in pc i + k) [0..<len_in pc i]"
  have "map (net_target net) (all_mirrors pc u) =
      concat (map (\<lambda>i. map Some (filter (\<lambda>b. up_in pc b = int u) (?blk i))) [0..<length (pc_nodes pc)])"
    unfolding all_mirrors_def map_concat map_map
    by (intro arg_cong [where f = concat] map_cong refl) (simp add: node_mirror_target assms(2))
  also have "\<dots> = map Some (filter (\<lambda>b. up_in pc b = int u) (concat (map ?blk [0..<length (pc_nodes pc)])))"
    by (simp add: map_concat filter_concat comp_def)
  also have "concat (map ?blk [0..<length (pc_nodes pc)]) = [0..<length (e_inputs (pc_streams pc))]"
    using all_inputs [OF assms(1)] by blast
  finally show ?thesis .
qed

lemma concat_once: "distinct xs \<Longrightarrow> concat (map (\<lambda>a. if a = b then ds else []) xs) = (if b \<in> set xs then ds else [])"
  by (induction xs) auto

text \<open>In a wired graph a manager of a node gets the data of exactly the output its edge resolves to,
  the manager of an observer those of the output that has its name, and each gets them once.\<close>

definition listens :: "parsed_config \<Rightarrow> 'v net \<Rightarrow> gos list \<Rightarrow> nat \<Rightarrow> nat \<Rightarrow> bool" where
  "listens pc net outs u b \<longleftrightarrow> (let n = length (e_inputs (pc_streams pc)) in
     if b < n then up_in pc b = int u else b - n < length outs \<and> watched pc net (outs ! (b - n)) = int u)"

lemma observer_targets:
  assumes "\<forall>k < length outs. observer_ok pc net k (outs ! k)"
  shows "map (net_target net) (observer_mirrors pc net outs u) =
    map (\<lambda>k. Some (length (e_inputs (pc_streams pc)) + k)) (filter (\<lambda>k. watched pc net (outs ! k) = int u) [0..<length outs])"
proof -
  have "net_target net (Output_ISH k, 0) = Some (length (e_inputs (pc_streams pc)) + k)"
    if "k < length outs" "watched pc net (outs ! k) = int u" for k
    using assms that by (auto simp: observer_ok_def watched_def Let_def split: option.split_asm)
  then show ?thesis by (simp add: observer_mirrors_def)
qed

lemma wired_mirrored:
  assumes "pc_Initialize config = Inr (0, pc)" "wired pc net outs"
  shows "mirrors_ok net u \<and> (\<forall>b. mirrored net u ds b = (if listens pc net outs u b then ds else []))"
proof -
  let ?n = "length (e_inputs (pc_streams pc))"
  let ?in = "filter (\<lambda>b. up_in pc b = int u) [0..<?n]"
  let ?ob = "map (\<lambda>k. ?n + k) (filter (\<lambda>k. watched pc net (outs ! k) = int u) [0..<length outs])"
  have m: "osm_mirrors (net_osm net u) = all_mirrors pc u @ observer_mirrors pc net outs u"
    using assms(2) unfolding wired_def by blast
  have t: "map (net_target net) (osm_mirrors (net_osm net u)) = map Some (?in @ ?ob)"
    using all_mirror_targets [OF assms(1), of net u] observer_targets [of outs pc net u] assms(2)
    by (simp add: m wired_def comp_def)
  have "None \<notin> set (map (net_target net) (osm_mirrors (net_osm net u)))" unfolding t by auto
  then have "mirrors_ok net u" unfolding mirrors_ok_def by (metis image_eqI set_map)
  moreover have "mirrored net u ds b = (if listens pc net outs u b then ds else [])" for b
  proof -
    have "mirrored net u ds b =
        concat (map (\<lambda>x. if x = Some b then ds else []) (map (net_target net) (osm_mirrors (net_osm net u))))"
      by (simp add: mirrored_def comp_def)
    also have "\<dots> = concat (map (\<lambda>a. if a = b then ds else []) (?in @ ?ob))"
      unfolding t map_map by (simp add: comp_def)
    also have "\<dots> = (if b \<in> set (?in @ ?ob) then ds else [])"
      by (rule concat_once) (auto simp: distinct_map inj_on_def)
    also have "b \<in> set (?in @ ?ob) \<longleftrightarrow> listens pc net outs u b"
      by (auto simp: listens_def Let_def image_iff intro!: exI [of _ "b - ?n"])
    finally show ?thesis .
  qed
  ultimately show ?thesis by blast
qed

lemma wired_observe:
  assumes "wired pc net outs" "OutputStreamIndex pc name = int u"
    "gos_Initialize name u (length outs) (length (e_inputs (pc_streams pc)) + length outs) net = Inr (rc, gos, net')"
  shows "wired pc net' (outs @ [gos])"
proof -
  let ?n = "length (e_inputs (pc_streams pc)) + length outs"
  have old: "\<forall>k < length outs. observer_ok pc net k (outs ! k)" using assms(1) by (simp add: wired_def)
  obtain tm where tm: "NewTagMap [name] = Inr tm" using assms(3) by (auto simp: gos_Initialize_def bindE_Inr_iff)
  show ?thesis
  proof (cases tm)
    case None
    then have r: "net' = net" "gos_ism gos = None" using assms(3) tm by (auto simp: gos_Initialize_def)
    then have "watched pc net gos = - 1" by (simp add: watched_def)
    then have "observer_mirrors pc net (outs @ [gos]) v = observer_mirrors pc net outs v" for v
      by (auto simp: observer_mirrors_def nth_append intro!: arg_cong [where f = "map _"] filter_cong)
    then show ?thesis using assms(1) r by (simp add: wired_def nth_append observer_ok_def)
  next
    case (Some tmap)
    then have n: "NStreams tmap = 1" using tag_map_bij [of "[name]" tmap] tm by simp
    let ?h = "InitializeInputStreamManagers ?n \<lparr>ish_managers = replicate (nat (NStreams tmap)) None, ss_ids = [], ss_last_processed = 0\<rparr>"
    have net': "net' = upd_osm u (AddMirror (Output_ISH (length outs)) 0)
        (upd_ism ?n (\<lambda>_. ism_Initialize name ISM0) (upd_ish (Output_ISH (length outs)) (\<lambda>_. ?h) net))"
      and gos: "gos_ism gos = Some ?n"
      using assms(3) tm Some by (auto simp: gos_Initialize_def Let_def)
    have names: "stream_names net' = (stream_names net)(?n := name)"
      by (simp add: net' stream_names_def ism_Initialize_def fun_eq_iff)
    have targets: "net_target net' (Output_ISH k, 0) = (if k = length outs then Some ?n else net_target net (Output_ISH k, 0))" for k
      by (simp add: net_target_def net' n InitializeInputStreamManagers_def ptr_at_def)
    have new: "watched pc net' gos = int u" using gos names assms(2) by (simp add: watched_def)
    have same: "watched pc net' (outs ! k) = watched pc net (outs ! k)" if "k < length outs" for k
      using old that names by (auto simp: watched_def observer_ok_def Let_def split: option.split)
    have "filter (\<lambda>k. watched pc net' ((outs @ [gos]) ! k) = int v) [0..<length outs] =
        filter (\<lambda>k. watched pc net (outs ! k) = int v) [0..<length outs]" for v
      using same by (intro filter_cong) (simp_all add: nth_append)
    then have obs: "observer_mirrors pc net' (outs @ [gos]) v =
        observer_mirrors pc net outs v @ (if v = u then [(Output_ISH (length outs), 0)] else [])" for v
      using new by (simp add: observer_mirrors_def)
    have "osm_mirrors (net_osm net' v) = osm_mirrors (net_osm net v) @ (if v = u then [(Output_ISH (length outs), 0)] else [])" for v
      by (simp add: net' AddMirror_def)
    then have "osm_mirrors (net_osm net' v) = all_mirrors pc v @ observer_mirrors pc net' (outs @ [gos]) v" for v
      using assms(1) by (simp add: obs wired_def)
    moreover have "observer_ok pc net' k ((outs @ [gos]) ! k)" if "k < Suc (length outs)" for k
      using old that targets gos by (auto simp: observer_ok_def Let_def nth_append less_Suc_eq)
    moreover have "managers_ok pc net' i" if "i < length (pc_nodes pc)" for i
      using assms(1) that by (auto simp: wired_def managers_ok_def net')
    ultimately show ?thesis by (simp add: wired_def)
  qed
qed

section \<open>Nothing but initialisation rewires\<close>

definition same_wiring :: "'v net \<Rightarrow> 'v net \<Rightarrow> bool" where
  "same_wiring net net' \<longleftrightarrow> net_ish net' = net_ish net \<and> net_osm net' = net_osm net \<and> stream_names net' = stream_names net"

lemma same_wiring_refl [simp]: "same_wiring net net"
  by (simp add: same_wiring_def)

lemma same_wiring_upd [simp]: "(\<And>m. ism_name (f m) = ism_name m) \<Longrightarrow> same_wiring net (upd_ism a f net)"
  by (simp add: same_wiring_def names_upd_ism)

lemma same_wiring_trans: "same_wiring a b \<Longrightarrow> same_wiring b c \<Longrightarrow> same_wiring a c"
  by (simp add: same_wiring_def)

lemma ism_names [simp]:
  "ism_name (ism_PrepareForRun m) = ism_name m" "ism_name (ism_Close m) = ism_name m" "ism_name (ism_Clear m) = ism_name m"
  by (simp_all add: ism_PrepareForRun_def ism_Close_def ism_Clear_def)

lemma foldE_wiring:
  assumes "foldE f xs s = Inr s'" "\<And>x s s'. f x s = Inr s' \<Longrightarrow> same_wiring (p s) (p s')"
  shows "same_wiring (p s) (p s')"
  using foldE_invar [of f xs s s' "\<lambda>t. same_wiring (p s) (p t)"] assms same_wiring_trans by fastforce

lemma ish_each_wiring:
  assumes "ish_each f h net = Inr net'" "f = ism_PrepareForRun \<or> f = ism_Close"
  shows "same_wiring net net'"
  using assms(1) unfolding ish_each_def
  by (rule foldE_wiring [where p = "\<lambda>n. n"]) (use assms(2) in \<open>auto simp: bindE_Inr_iff\<close>)

lemma Marshal_wiring:
  assumes "Marshal h (c, net) = Inr (c', net')"
  shows "same_wiring net net'"
proof -
  have "net_ish (snd st') = net_ish (snd st) \<and> net_osm (snd st') = net_osm (snd st)" if "sync_step h i st = Inr st'" for i st st'
    using that by (auto simp: sync_step_def bindE_Inr_iff case_prod_unfold)
  then have "same_wiring (snd st) (snd st')" if "sync_step h i st = Inr st'" for i st st'
    using that sync_step_names [OF that] by (simp add: same_wiring_def)
  then show ?thesis using assms foldE_wiring [where p = snd and f = "sync_step h"] unfolding Marshal_def Sync_def by fastforce
qed

lemma send_mirrors_wiring: "send_mirrors ms ds net = Inr (ds', net') \<Longrightarrow> same_wiring net net'"
  using send_mirrors_names [of ms ds net ds' net']
  by (auto simp: send_mirrors_broadcast bindE_Inr_iff same_wiring_def dest: foldE_deliver_frame)

lemma osh_Propagate_wiring: "osh_Propagate h (c, net) = Inr (c', net') \<Longrightarrow> same_wiring net net'"
  unfolding osh_Propagate_def
  by (drule foldE_wiring [where p = snd])
    (auto simp: propagate_stream_def bindE_Inr_iff intro: send_mirrors_wiring split: prod.splits)

lemma foldE_set_side_net: "foldE (set_side osd) ws w = Inr w' \<Longrightarrow> w_net w' = w_net w"
  by (rule foldE_invar [where I = "\<lambda>v. w_net v = w_net w"])
    (auto simp: set_side_def bindE_Inr_iff Let_def split: if_splits)

lemma call_task_net: "call_task f (nd, w) = Inr (rc, nd', w') \<Longrightarrow> w_net w' = w_net w"
  by (auto simp: call_task_def bindE_Inr_iff dest: foldE_set_side_net)

lemma on_net_wiring: "on_net f w = Inr w' \<Longrightarrow> (\<And>n n'. f n = Inr n' \<Longrightarrow> same_wiring n n') \<Longrightarrow> same_wiring (w_net w) (w_net w')"
  by (auto simp: on_net_def bindE_Inr_iff)

lemma closeInputStreams_wiring: "closeInputStreams nd w = Inr w' \<Longrightarrow> same_wiring (w_net w) (w_net w')"
  by (auto simp: closeInputStreams_def ish_Close_def split: if_splits elim!: on_net_wiring ish_each_wiring)

lemma Node_Close_wiring:
  assumes "Node_Close tc (nd, w) = Inr (rc, nd', w')"
  shows "same_wiring (w_net w) (w_net w')"
proof (cases "nd_status nd = kStateClosed")
  case False
  then obtain w1 rc1 nd1 where "closeInputStreams nd w = Inr w1" "call_task (tk_close tc) (nd, w1) = Inr (rc1, nd1, w')"
    using assms by (auto simp: Node_Close_def bindE_Inr_iff)
  then show ?thesis using closeInputStreams_wiring call_task_net by metis
qed (use assms in \<open>simp add: Node_Close_def\<close>)

lemma Node_Process_wiring:
  assumes "Node_Process tc (nd, w) = Inr (rc, nd', w')"
  shows "same_wiring (w_net w) (w_net w')"
proof -
  obtain ctx where ctx: "nd_ctx nd = Some ctx"
    using assms by (cases "nd_ctx nd") (simp_all add: Node_Process_def ptr_deref_def)
  show ?thesis
  proof (cases "TimestampDone (NextTimestamp ctx)")
    case True
    then obtain rc1 where "Node_Close tc (nd, w) = Inr (rc1, nd', w')"
      using assms ctx by (auto simp: Node_Process_def bindE_Inr_iff ptr_deref_def)
    then show ?thesis by (rule Node_Close_wiring)
  next
    case False
    then obtain ci net1 rc1 nd1 w1 sh ctx1 ctx2 net2 where
      m: "Marshal (node_ish w nd) (ctx_inputs ctx, w_net w) = Inr (ci, net1)" and
      c: "call_task (tk_process tc) (nd\<lparr>nd_ctx := Some (ctx\<lparr>ctx_inputs := ci\<rparr>)\<rparr>, w\<lparr>w_net := net1\<rparr>) = Inr (rc1, nd1, w1)" and
      o: "osh_PostProcess (nd_osh nd1) (ctx1, w_net w1) = Inr (ctx2, net2)" and w': "w_net w' = net2"
      using assms ctx by (auto simp: Node_Process_def bindE_Inr_iff ptr_deref_def Let_def)
    have "w_net w1 = net1" using call_task_net [OF c] by simp
    moreover have "same_wiring (w_net w1) net2"
      using o by (auto simp: osh_PostProcess_def bindE_Inr_iff intro: osh_Propagate_wiring)
    ultimately show ?thesis using Marshal_wiring [OF m] same_wiring_trans w' by blast
  qed
qed

lemma Node_Prepare_wiring:
  assumes "Node_PrepareForRun tc all (nd, w) = Inr (rc, nd', w')"
  shows "same_wiring (w_net w) (w_net w')"
proof -
  obtain w1 where w1: "on_net (ish_PrepareForRun (node_ish w nd)) w = Inr w1"
    using assms by (auto simp: Node_PrepareForRun_def bindE_Inr_iff)
  have "w_net w' = w_net w1"
    using assms w1 by (auto simp: Node_PrepareForRun_def bindE_Inr_iff Let_def split: prod.splits if_splits)
  then show ?thesis
    using on_net_wiring [OF w1] ish_each_wiring by (metis ish_PrepareForRun_def)
qed

lemma node_apply_wiring:
  assumes "node_apply tc op (nd, w) = Inr (rc, nd', w')"
  shows "same_wiring (w_net w) (w_net w')"
proof (cases op)
  case Op_Open
  then have "w_net w' = w_net w" using assms by (auto simp: Node_Open_def bindE_Inr_iff dest: call_task_net)
  then show ?thesis by simp
next
  case Op_Finish
  then show ?thesis
    using assms by (auto simp: Node_Finish_def Let_def bindE_Inr_iff dest: closeInputStreams_wiring)
qed (use assms in \<open>auto intro: Node_Prepare_wiring Node_Process_wiring Node_Close_wiring\<close>)

section \<open>Graphs in use\<close>

text \<open>What can happen to a graph: streams are observed, data and side data are added, nodes are
  prepared, opened, processed, closed and finished, results are read and inputs are closed. A step
  that calls a node is labelled with the node and the call, every other step with \<open>None\<close>. The states
  of a graph are those it goes through after one initialisation when these steps are taken in any
  order, which includes every order the executor may choose.\<close>

inductive graph_step ::
  "('t, 'v) task_code \<Rightarrow> (nat \<times> 'v node_op) option \<Rightarrow> ('t, 'v) graph \<Rightarrow> ('t, 'v) graph \<Rightarrow> bool" for tc where
  observed: "ObserveOutputStream name g = Inr (rc, g') \<Longrightarrow> graph_step tc None g g'"
| added: "AddDatumToInputStream name d g = Inr (rc, g') \<Longrightarrow> graph_step tc None g g'"
| side_added: "AddDatumToInputSideData name d g = Inr (rc, g') \<Longrightarrow> graph_step tc None g g'"
| ran: "at_node (node_apply tc op) i g = Inr g' \<Longrightarrow> graph_step tc (Some (i, op)) g g'"
| outputs: "f = gos_PrepareForRun \<or> f = gos_Close \<or> f = gos_Clear \<Longrightarrow>
    foldE f (g_outputs g) (w_net (g_world g)) = Inr net \<Longrightarrow> graph_step tc None g (g\<lparr>g_world := (g_world g)\<lparr>w_net := net\<rparr>\<rparr>)"
| read: "GetResult cast (dflt :: 'v) name g = Inr (r, g') \<Longrightarrow> graph_step tc None g g'"
| closed: "CloseInputStream name g = Inr (rc, g') \<Longrightarrow> graph_step tc None g g'"
| all_closed: "graph_step tc None g (snd (CloseAllInputStreams g))"

inductive graph_reach :: "('t, 'v) task_code \<Rightarrow> graph_proto \<Rightarrow> ('t, 'v) graph \<Rightarrow> bool" for tc config where
  initialised: "Graph_Initialize junk config Graph0 = Inr (0, g) \<Longrightarrow> graph_reach tc config g"
| stepped: "graph_reach tc config g \<Longrightarrow> graph_step tc l g g' \<Longrightarrow> graph_reach tc config g'"

definition input_ok :: "parsed_config \<Rightarrow> string \<times> 'v gis \<Rightarrow> bool" where
  "input_ok pc x \<longleftrightarrow> int (gis_osm (snd x)) = OutputStreamIndex pc (fst x) \<and>
     os_queue (gis_input (snd x)) = [] \<and> \<not> os_closed (gis_input (snd x))"

definition graph_inv :: "graph_proto \<Rightarrow> ('t, 'v) graph \<Rightarrow> bool" where
  "graph_inv config g \<longleftrightarrow> pc_Initialize config = Inr (0, g_cfg g) \<and>
     wired (g_cfg g) (w_net (g_world g)) (g_outputs g) \<and>
     g_next_ism g = length (e_inputs (pc_streams (g_cfg g))) + length (g_outputs g) \<and>
     (\<forall>x\<in>set (g_inputs g). input_ok (g_cfg g) x)"

lemma um_insert_mem: "x \<in> set (um_update k f m) \<Longrightarrow> x \<in> set m \<or> fst x = k \<and> (\<exists>v. snd x = f v)"
  by (induction k f m rule: um_update.induct) (auto split: if_splits)

lemma init_graph_inputs_ok:
  assumes "init_graph_inputs junk pc net names n (ins, tn) = (rc, ins', tn')" "\<forall>x\<in>set ins. input_ok pc x"
  shows "\<forall>x\<in>set ins'. input_ok pc x"
  using assms
proof (induction names arbitrary: n ins tn)
  case (Cons name names)
  let ?ins = "um_insert name (GraphInputStream junk net (nat (OutputStreamIndex pc name))) ins"
  show ?case
  proof (cases "OutputStreamIndex pc name < 0")
    case False
    have "\<forall>x\<in>set ?ins. input_ok pc x"
    proof
      fix x assume "x \<in> set ?ins"
      then have "x \<in> set ins \<or> fst x = name \<and> snd x = GraphInputStream junk net (nat (OutputStreamIndex pc name))"
        using um_insert_mem by fastforce
      then show "input_ok pc x"
        using Cons.prems(2) False by (auto simp: input_ok_def GraphInputStream_def os_SetSpec_def OutputStream0_def)
    qed
    then show ?thesis using Cons.IH [of "Suc n" ?ins] Cons.prems False by (auto simp: Let_def split: if_splits)
  qed (use Cons.prems in simp)
qed simp

lemma graph_inv_initial:
  fixes g :: "('t, 'v) graph"
  assumes "Graph_Initialize junk config Graph0 = Inr (0, g)"
  shows "graph_inv config g"
proof -
  obtain pc g1 where pc: "pc_Initialize config = Inr (0, pc)"
    and s: "Graph_InitializeStreams junk (Graph0\<lparr>g_cfg := pc\<rparr>) = Inr (0, g1)"
    and g: "g = (snd (Graph_InitializeNodes g1))\<lparr>g_initialized := True\<rparr>"
    using assms by (auto simp: Graph_Initialize_def Graph0_def bindE_Inr_iff split: if_splits prod.splits)
  let ?N = "length (e_inputs (pc_streams pc))" and ?n = "length (pc_nodes pc)"
  define net where "net = (w_net (g_world (Graph0 :: ('t, 'v) graph)))
            \<lparr>net_ism := (\<lambda>a. if a < ?N then ism_Initialize (ei_name (e_inputs (pc_streams pc) ! a)) ISM0 else ISM0),
             net_osm := (\<lambda>a. if a < length (e_outputs (pc_streams pc))
               then osm_Initialize (ei_name (e_outputs (pc_streams pc) ! a)) \<lparr>osm_name = [], osm_mirrors = []\<rparr>
               else \<lparr>osm_name = [], osm_mirrors = []\<rparr>)\<rparr>"
  have mirrors0: "osm_mirrors (net_osm net u) = []" for u by (simp add: net_def osm_Initialize_def)
  obtain tm where tm: "NewTagMap (gp_input_stream (pc_proto pc)) = Inr (Some tm)"
    using s by (cases "NewTagMap (gp_input_stream (pc_proto pc))")
      (auto simp: Graph_InitializeStreams_def Graph0_def Let_def split: option.split_asm)
  obtain rc ins tn where i: "init_graph_inputs junk pc net (Names tm) 0 ([], []) = (rc, ins, tn)"
    by (cases "init_graph_inputs junk pc net (Names tm) 0 ([], [])")
  have "rc = 0 \<and> g_inputs g1 = ins \<and> g_cfg g1 = pc \<and> g_outputs g1 = [] \<and> g_nodes g1 = [] \<and> g_next_ism g1 = ?N \<and>
      w_net (g_world g1) = net"
    using s tm i by (auto simp: Graph_InitializeStreams_def Graph0_def Let_def net_def)
  then have g1: "init_graph_inputs junk pc net (Names tm) 0 ([], []) = (0, ins, tn)"
    "g_inputs g1 = ins" "g_cfg g1 = pc" "g_outputs g1 = []" "g_nodes g1 = []" "g_next_ism g1 = ?N" "w_net (g_world g1) = net"
    using i by auto
  obtain w1 and nds :: "('t, 'v) node list" and w' where n: "init_graph_nodes pc [0..<?n] w1 = (nds, w')" "w_net w1 = net"
    and g': "g_world g = w'" "g_cfg g = pc" "g_inputs g = ins" "g_outputs g = []" "g_next_ism g = ?N"
    using g g1 by (auto simp: Graph_InitializeNodes_def Let_def split: prod.splits)
  have "\<forall>i\<in>set [0..<?n]. 0 \<le> input_stream_base_index (pc_nodes pc ! i)" using all_inputs [OF pc] by simp
  from init_graph_nodes_net [OF this _ n(1)] have
    "\<forall>i < ?n. managers_ok pc (w_net w') i" "\<forall>u. osm_mirrors (net_osm (w_net w') u) = all_mirrors pc u"
    using mirrors0 n(2) by (simp_all add: all_mirrors_def)
  then have "wired pc (w_net w') []" by (simp add: wired_def observer_mirrors_def)
  then show ?thesis using pc g' init_graph_inputs_ok [OF g1(1)] by (simp add: graph_inv_def)
qed

lemma graph_inv_net:
  assumes "graph_inv config g" "same_wiring (w_net (g_world g)) (w_net (g_world g'))"
    "g_cfg g' = g_cfg g" "g_outputs g' = g_outputs g" "g_next_ism g' = g_next_ism g"
    "\<forall>x\<in>set (g_inputs g'). input_ok (g_cfg g) x"
  shows "graph_inv config g'"
proof -
  have "wired (g_cfg g) (w_net (g_world g')) = wired (g_cfg g) (w_net (g_world g))"
    by (rule wired_cong) (use assms(2) in \<open>simp_all add: same_wiring_def\<close>)
  then show ?thesis using assms by (simp add: graph_inv_def)
qed

lemma gis_Propagate_wiring: "gis_Propagate (s, net) = Inr (s', net') \<Longrightarrow> same_wiring net net'"
  by (auto simp: gis_Propagate_def bindE_Inr_iff intro: send_mirrors_wiring)

lemma gos_wiring:
  assumes "f = gos_PrepareForRun \<or> f = gos_Close \<or> f = gos_Clear" "foldE f os net = Inr net'"
  shows "same_wiring net net'"
proof (rule foldE_wiring [OF assms(2), where p = "\<lambda>n. n"])
  fix o1 n n' assume "f o1 n = Inr n'"
  then show "same_wiring n n'"
    using assms(1) ish_each_wiring
    by (fastforce simp: gos_PrepareForRun_def gos_Close_def gos_Clear_def ish_PrepareForRun_def bindE_Inr_iff)
qed

lemma get_result_wiring: "get_result cast dflt name os net = Inr (r, net') \<Longrightarrow> same_wiring net net'"
  by (induction os) (auto simp: bindE_Inr_iff gos_Clear_def split: if_splits)

lemma add_side_net: "add_side as name d w = Inr w' \<Longrightarrow> w_net w' = w_net w"
  by (induction as) (auto simp: bindE_Inr_iff split: if_splits)

lemma input_ok_step:
  assumes "\<forall>x\<in>set ins. input_ok pc x" "map_of ins name = Some s"
    "gis_osm s' = gis_osm s" "os_queue (gis_input s') = []" "\<not> os_closed (gis_input s')"
  shows "\<forall>x\<in>set (um_insert name s' ins). input_ok pc x"
proof
  fix x assume "x \<in> set (um_insert name s' ins)"
  then have "x \<in> set ins \<or> fst x = name \<and> snd x = s'" using um_insert_mem by fastforce
  moreover have "input_ok pc (name, s)" using assms(1) map_of_SomeD [OF assms(2)] by blast
  ultimately show "input_ok pc x" using assms(1,3-5) by (auto simp: input_ok_def)
qed

lemma AddDatum_effect:
  assumes "AddDatumToInputStream name d g = Inr (rc, g')" "map_of (g_inputs g) name = Some s"
    "os_queue (gis_input s) = []" "\<not> os_closed (gis_input s)"
  obtains s' net where "gis_Propagate (gis_AddDatum d s, w_net (g_world g)) = Inr (s', net)"
    "g' = g\<lparr>g_inputs := um_insert name s' (g_inputs g), g_world := (g_world g)\<lparr>w_net := net\<rparr>\<rparr>"
    "gis_osm s' = gis_osm s" "os_queue (gis_input s') = []" "\<not> os_closed (gis_input s')"
proof -
  obtain s' net where p: "gis_Propagate (gis_AddDatum d s, w_net (g_world g)) = Inr (s', net)"
    "g' = g\<lparr>g_inputs := um_insert name s' (g_inputs g), g_world := (g_world g)\<lparr>w_net := net\<rparr>\<rparr>"
    using assms(1,2) by (auto simp: AddDatumToInputStream_def bindE_Inr_iff)
  have "gis_osm s' = gis_osm s" "os_queue (gis_input s') = []" "\<not> os_closed (gis_input s')"
    using p(1) assms(3,4) by (auto simp: gis_Propagate_def gis_AddDatum_def bindE_Inr_iff os_AddDatum_open)
  then show thesis using that p by blast
qed

lemma graph_step_inv:
  assumes "graph_step tc l g g'" "graph_inv config g"
  shows "graph_inv config g'"
  using assms
proof (induction rule: graph_step.induct)
  case (observed name g rc g')
  show ?case
  proof (cases "OutputStreamIndex (g_cfg g) name < 0")
    case False
    then obtain rc1 gos net where r: "gos_Initialize name (nat (OutputStreamIndex (g_cfg g) name)) (length (g_outputs g)) (g_next_ism g)
        (w_net (g_world g)) = Inr (rc1, gos, net)"
      "g' = g\<lparr>g_outputs := g_outputs g @ [gos], g_next_ism := Suc (g_next_ism g), g_world := (g_world g)\<lparr>w_net := net\<rparr>\<rparr>"
      using observed.hyps by (auto simp: ObserveOutputStream_def Let_def bindE_Inr_iff)
    have "int (nat (OutputStreamIndex (g_cfg g) name)) = OutputStreamIndex (g_cfg g) name" using False by simp
    then have "wired (g_cfg g) net (g_outputs g @ [gos])"
      using wired_observe [of "g_cfg g" "w_net (g_world g)" "g_outputs g" name, OF _ sym] observed.prems r(1)
      unfolding graph_inv_def by metis
    then show ?thesis using observed.prems r(2) by (simp add: graph_inv_def)
  qed (use observed in \<open>simp add: ObserveOutputStream_def\<close>)
next
  case (added name d g rc g')
  obtain s where s: "map_of (g_inputs g) name = Some s"
    using added.hyps by (cases "map_of (g_inputs g) name") (simp_all add: AddDatumToInputStream_def)
  have ok: "input_ok (g_cfg g) (name, s)" using added.prems map_of_SomeD [OF s] by (auto simp: graph_inv_def)
  obtain s' net where p: "gis_Propagate (gis_AddDatum d s, w_net (g_world g)) = Inr (s', net)"
    "g' = g\<lparr>g_inputs := um_insert name s' (g_inputs g), g_world := (g_world g)\<lparr>w_net := net\<rparr>\<rparr>"
    "gis_osm s' = gis_osm s" "os_queue (gis_input s') = []" "\<not> os_closed (gis_input s')"
    using AddDatum_effect [OF added.hyps s] ok by (auto simp: input_ok_def)
  have "\<forall>x\<in>set (um_insert name s' (g_inputs g)). input_ok (g_cfg g) x"
    using input_ok_step [OF _ s p(3-5)] added.prems by (simp add: graph_inv_def)
  then show ?case
    using graph_inv_net [OF added.prems, of g'] gis_Propagate_wiring [OF p(1)] p(2) by simp
next
  case (side_added name d g rc g')
  then obtain w where "add_side [0..<length (e_outputs (pc_side (g_cfg g)))] name d (g_world g) = Inr w" "g' = g\<lparr>g_world := w\<rparr>"
    by (auto simp: AddDatumToInputSideData_def bindE_Inr_iff)
  then show ?case using graph_inv_net [OF side_added.prems, of g'] side_added.prems add_side_net by (fastforce simp: graph_inv_def)
next
  case (ran op i g g')
  then obtain rc nd w where n: "node_apply tc op (g_nodes g ! i, g_world g) = Inr (rc, nd, w)"
    "g' = g\<lparr>g_nodes := (g_nodes g)[i := nd], g_world := w\<rparr>"
    by (auto simp: at_node_def bindE_Inr_iff split: if_splits)
  then show ?case
    using graph_inv_net [OF ran.prems, of g'] node_apply_wiring [OF n(1)] ran.prems by (simp add: graph_inv_def)
next
  case (outputs f g net)
  then show ?case
    using graph_inv_net [OF outputs.prems, of "g\<lparr>g_world := (g_world g)\<lparr>w_net := net\<rparr>\<rparr>"] gos_wiring [OF outputs.hyps]
    by (simp add: graph_inv_def)
next
  case (read cast dflt name g r g')
  then obtain net where "get_result cast dflt name (g_outputs g) (w_net (g_world g)) = Inr (r, net)"
    "g' = g\<lparr>g_world := (g_world g)\<lparr>w_net := net\<rparr>\<rparr>"
    by (auto simp: GetResult_def bindE_Inr_iff)
  then show ?case
    using graph_inv_net [OF read.prems, of g'] get_result_wiring read.prems by (fastforce simp: graph_inv_def)
next
  case (closed name g rc g')
  obtain s where s: "map_of (g_inputs g) name = Some s"
    using closed.hyps by (cases "map_of (g_inputs g) name") (simp_all add: CloseInputStream_def)
  have "input_ok (g_cfg g) (name, s)" using closed.prems map_of_SomeD [OF s] by (auto simp: graph_inv_def)
  then have "\<forall>x\<in>set (um_insert name (gis_Close s) (g_inputs g)). input_ok (g_cfg g) x"
    using closed.prems by (intro input_ok_step [OF _ s]) (auto simp: graph_inv_def gis_Close_def input_ok_def)
  then show ?case
    using closed.prems closed.hyps s by (auto simp: graph_inv_def CloseInputStream_def split: if_splits)
next
  case (all_closed g)
  then show ?case by (auto simp: graph_inv_def CloseAllInputStreams_def input_ok_def gis_Close_def)
qed

lemma graph_reach_inv: "graph_reach tc config g \<Longrightarrow> graph_inv config g"
  by (induction rule: graph_reach.induct) (auto intro: graph_inv_initial graph_step_inv)

text \<open>Observing a stream of the graph appends an observer with an empty manager of that name.\<close>

lemma ObserveOutputStream_new:
  assumes "0 \<le> OutputStreamIndex (g_cfg g) name" "NewTagMap [name] = Inr (Some tm)"
  shows "\<exists>g' o1 a. ObserveOutputStream name g = Inr (0, g') \<and> g_outputs g' = g_outputs g @ [o1] \<and> gos_ism o1 = Some a \<and>
    ism_name (net_ism (w_net (g_world g')) a) = name \<and> net_inbox (w_net (g_world g')) a = []"
  using assms
  by (simp add: ObserveOutputStream_def gos_Initialize_def Let_def net_inbox_def ism_Initialize_def ISM0_def)

text \<open>A manager listens to a graph input stream if it is that of a node input whose edge resolves to
  the stream, or that of an observer of the stream's name.\<close>

lemma listens_stream:
  assumes "graph_inv config g" "int u = OutputStreamIndex (g_cfg g) name"
  shows "listens (g_cfg g) (w_net (g_world g)) (g_outputs g) u b \<longleftrightarrow>
    (if b < length (e_inputs (pc_streams (g_cfg g)))
     then ei_upstream (e_inputs (pc_streams (g_cfg g)) ! b) = OutputStreamIndex (g_cfg g) name
     else \<exists>o1\<in>set (g_outputs g). gos_ism o1 = Some b \<and> ism_name (net_ism (w_net (g_world g)) b) = name)"
proof (cases "b < length (e_inputs (pc_streams (g_cfg g)))")
  case False
  let ?n = "length (e_inputs (pc_streams (g_cfg g)))" and ?net = "w_net (g_world g)"
  have pc: "pc_Initialize config = Inr (0, g_cfg g)"
    and ok: "\<And>k. k < length (g_outputs g) \<Longrightarrow> observer_ok (g_cfg g) ?net k (g_outputs g ! k)"
    using assms(1) by (auto simp: graph_inv_def wired_def)
  have same: "OutputStreamIndex (g_cfg g) m = int u \<longleftrightarrow> m = name" for m
    using OutputStreamIndex_inj [OF pc, of m name] assms(2) by auto
  have "watched (g_cfg g) ?net (g_outputs g ! (b - ?n)) = int u \<longleftrightarrow>
      gos_ism (g_outputs g ! (b - ?n)) = Some b \<and> ism_name (net_ism ?net b) = name"
    if "b - ?n < length (g_outputs g)"
    using ok [OF that] False by (auto simp: watched_def observer_ok_def Let_def stream_names_def same)
  moreover have "b - ?n < length (g_outputs g) \<and> gos_ism (g_outputs g ! (b - ?n)) = Some b \<longleftrightarrow>
      (\<exists>o1\<in>set (g_outputs g). gos_ism o1 = Some b)" (is "?l \<longleftrightarrow> ?r")
  proof
    assume ?r
    then obtain k where k: "k < length (g_outputs g)" "gos_ism (g_outputs g ! k) = Some b"
      by (auto simp: in_set_conv_nth)
    then have "b - ?n = k" using ok [OF k(1)] by (auto simp: observer_ok_def Let_def)
    then show ?l using k by simp
  qed (auto dest: nth_mem)
  ultimately show ?thesis using False by (simp only: listens_def Let_def if_False) blast
qed (simp add: listens_def Let_def up_in_def assms(2))

text \<open>C3: in every state a graph can reach, adding a datum with a proper timestamp to a graph input
  stream succeeds and puts it, exactly once, at the end of the queue of every manager of a node input
  that the configuration connects to this stream and of every observer of the stream; the queue of
  every other manager, of a node or of an observer, stays as it was.\<close>

theorem AddDatum_delivered:
  assumes "graph_reach tc config g" "map_of (g_inputs g) name = Some s" "os_good d"
  shows "\<exists>g'. AddDatumToInputStream name d g = Inr (0, g') \<and>
    (\<forall>b. net_inbox (w_net (g_world g')) b = net_inbox (w_net (g_world g)) b @
      (if (if b < length (e_inputs (pc_streams (g_cfg g)))
           then ei_upstream (e_inputs (pc_streams (g_cfg g)) ! b) = OutputStreamIndex (g_cfg g) name
           else \<exists>o1\<in>set (g_outputs g). gos_ism o1 = Some b \<and> ism_name (net_ism (w_net (g_world g)) b) = name)
       then [d] else []))"
proof -
  note inv = graph_reach_inv [OF assms(1)]
  have ok: "int (gis_osm s) = OutputStreamIndex (g_cfg g) name" "os_queue (gis_input s) = []" "\<not> os_closed (gis_input s)"
    using inv map_of_SomeD [OF assms(2)] by (auto simp: graph_inv_def input_ok_def)
  have pc: "pc_Initialize config = Inr (0, g_cfg g)"
    and w: "wired (g_cfg g) (w_net (g_world g)) (g_outputs g)" using inv by (auto simp: graph_inv_def)
  have q: "os_queue (gis_input (gis_AddDatum d s)) = [d]" "gis_osm (gis_AddDatum d s) = gis_osm s"
    using ok(2,3) assms(3) by (simp_all add: gis_AddDatum_def os_AddDatum_open)
  have "mirrors_ok (w_net (g_world g)) (gis_osm s)" using wired_mirrored [OF pc w] by blast
  from send_mirrors_exact [OF this, of "[d]"] obtain net where
    n: "send_mirrors (osm_mirrors (net_osm (w_net (g_world g)) (gis_osm s))) [d] (w_net (g_world g)) = Inr ([d], net)"
    "\<forall>b. net_inbox net b = net_inbox (w_net (g_world g)) b @ mirrored (w_net (g_world g)) (gis_osm s) [d] b" by blast
  have "\<forall>b. net_inbox net b = net_inbox (w_net (g_world g)) b @
      (if listens (g_cfg g) (w_net (g_world g)) (g_outputs g) (gis_osm s) b then [d] else [])"
    using n(2) wired_mirrored [OF pc w, of "gis_osm s" "[d]"] by simp
  note queues = this [unfolded listens_stream [OF inv ok(1)]]
  have "\<exists>g'. AddDatumToInputStream name d g = Inr (0, g') \<and> w_net (g_world g') = net"
    using assms(2) n(1) by (simp add: AddDatumToInputStream_def gis_Propagate_def q)
  then obtain g' where g': "AddDatumToInputStream name d g = Inr (0, g')" "w_net (g_world g') = net" by blast
  show ?thesis by (rule exI [of _ g'], unfold g'(2)) (rule conjI [OF g'(1) queues])
qed

lemma chain_graph_starts:
  "\<exists>g0 g :: (unit, int) graph. Graph_Initialize False chain_graph Graph0 = Inr (0, g0) \<and>
     ObserveOutputStream ''x'' g0 = Inr (0, g) \<and> (\<exists>s. map_of (g_inputs g) ''x'' = Some s) \<and>
     map ei_upstream (e_inputs (pc_streams (g_cfg g))) = [0, 1] \<and> OutputStreamIndex (g_cfg g) ''x'' = 0 \<and>
     map gos_ism (g_outputs g) = [Some 2] \<and> ism_name (net_ism (w_net (g_world g)) 2) = ''x'' \<and>
     map (net_inbox (w_net (g_world g))) [0, 1, 2] = [[], [], []]"
proof -
  define r where "r = bindE (Graph_Initialize False chain_graph (Graph0 :: (unit, int) graph))
    (\<lambda>(rc, g0). bindE (ObserveOutputStream ''x'' g0) (\<lambda>(rc', g). Inr (rc, rc', g0, g)))"
  have "(case r of Inl _ \<Rightarrow> False | Inr (rc, rc', g0, g) \<Rightarrow> rc = 0 \<and> rc' = 0 \<and> map_of (g_inputs g) ''x'' \<noteq> None \<and>
      map ei_upstream (e_inputs (pc_streams (g_cfg g))) = [0, 1] \<and> OutputStreamIndex (g_cfg g) ''x'' = 0 \<and>
      map gos_ism (g_outputs g) = [Some 2] \<and> ism_name (net_ism (w_net (g_world g)) 2) = ''x'' \<and>
      map (net_inbox (w_net (g_world g))) [0, 1, 2] = [[], [], []])"
    unfolding r_def by code_simp
  then obtain g0 g where r: "r = Inr (0, 0, g0, g)" "map_of (g_inputs g) ''x'' \<noteq> None"
      "map ei_upstream (e_inputs (pc_streams (g_cfg g))) = [0, 1]" "OutputStreamIndex (g_cfg g) ''x'' = 0"
      "map gos_ism (g_outputs g) = [Some 2]" "ism_name (net_ism (w_net (g_world g)) 2) = ''x''"
      "map (net_inbox (w_net (g_world g))) [0, 1, 2] = [[], [], []]"
    by (cases r) auto
  have "Graph_Initialize False chain_graph Graph0 = Inr (0, g0)" "ObserveOutputStream ''x'' g0 = Inr (0, g)"
    using r(1) by (auto simp: r_def bindE_Inr_iff)
  then show ?thesis using r(2-7) by (intro exI [of _ g0] exI [of _ g]) auto
qed

theorem AddDatum_delivered_witness:
  "\<exists>(g :: (unit, int) graph) g'. graph_reach demo_code chain_graph g \<and>
     AddDatumToInputStream ''x'' (Datum_ts 5 1) g = Inr (0, g') \<and> map gos_ism (g_outputs g) = [Some 2] \<and>
     map (net_inbox (w_net (g_world g'))) [0, 1, 2] = [[Datum_ts 5 1], [], [Datum_ts 5 1]]"
proof -
  obtain g0 g :: "(unit, int) graph" and s where g: "Graph_Initialize False chain_graph Graph0 = Inr (0, g0)"
    "ObserveOutputStream ''x'' g0 = Inr (0, g)"
    "map_of (g_inputs g) ''x'' = Some s" "map ei_upstream (e_inputs (pc_streams (g_cfg g))) = [0, 1]"
    "OutputStreamIndex (g_cfg g) ''x'' = 0" "map gos_ism (g_outputs g) = [Some 2]"
    "ism_name (net_ism (w_net (g_world g)) 2) = ''x''" "map (net_inbox (w_net (g_world g))) [0, 1, 2] = [[], [], []]"
    using chain_graph_starts by (elim exE conjE) (rule that)
  have up: "length (e_inputs (pc_streams (g_cfg g))) = 2" "ei_upstream (e_inputs (pc_streams (g_cfg g)) ! 0) = 0"
    "ei_upstream (e_inputs (pc_streams (g_cfg g)) ! 1) = 1"
    using g(4) by (auto simp: map_eq_Cons_conv)
  have "graph_reach demo_code chain_graph g0" using g(1) by (rule graph_reach.initialised)
  then have r: "graph_reach demo_code chain_graph g" using graph_step.observed [OF g(2)] by (rule graph_reach.stepped)
  have obs: "\<exists>o1\<in>set (g_outputs g). gos_ism o1 = Some 2" using g(6) by (auto simp: map_eq_Cons_conv)
  have "os_good (Datum_ts (5::int) 1)" by (simp add: os_good_def ts_defs)
  from AddDatum_delivered [OF r g(3) this] obtain g' where
    g': "AddDatumToInputStream ''x'' (Datum_ts 5 1) g = Inr (0, g')"
    "\<And>b. net_inbox (w_net (g_world g')) b = net_inbox (w_net (g_world g)) b @
      (if (if b < length (e_inputs (pc_streams (g_cfg g)))
           then ei_upstream (e_inputs (pc_streams (g_cfg g)) ! b) = OutputStreamIndex (g_cfg g) ''x''
           else \<exists>o1\<in>set (g_outputs g). gos_ism o1 = Some b \<and> ism_name (net_ism (w_net (g_world g)) b) = ''x'')
       then [Datum_ts 5 1] else [])" by blast
  have "map (net_inbox (w_net (g_world g'))) [0, 1, 2] = [[Datum_ts 5 1], [], [Datum_ts 5 1]]"
    using g(5,7,8) up obs by (simp add: g'(2))
  then show ?thesis using r g'(1) g(6) by (intro exI [of _ g] exI [of _ g'] conjI)
qed

section \<open>Results\<close>

lemma GetResult_head:
  assumes "g_outputs g = before @ o1 # after" "gos_ism o1 = Some a" "ism_name (net_ism (w_net (g_world g)) a) = name"
    and "\<forall>o2\<in>set before. \<exists>b. gos_ism o2 = Some b \<and> ism_name (net_ism (w_net (g_world g)) b) \<noteq> name"
  shows "\<exists>g'. GetResult cast dflt name g =
      Inr (case net_inbox (w_net (g_world g)) a of [] \<Rightarrow> dflt
           | d # _ \<Rightarrow> (case Option.bind (d_val d) cast of None \<Rightarrow> dflt | Some r \<Rightarrow> r), g') \<and>
    (\<forall>b. net_inbox (w_net (g_world g')) b = (if b = a then [] else net_inbox (w_net (g_world g)) b))"
proof -
  let ?net = "w_net (g_world g)"
  let ?r = "case net_inbox ?net a of [] \<Rightarrow> dflt | d # _ \<Rightarrow> (case Option.bind (d_val d) cast of None \<Rightarrow> dflt | Some r \<Rightarrow> r)"
  have "get_result cast dflt name (before @ o1 # after) ?net = Inr (?r, upd_ism a ism_Clear ?net)"
    using assms(4)
  proof (induction before)
    case Nil
    then show ?case using assms(2,3)
      by (cases "ism_queue (net_ism ?net a)")
        (auto simp: gos_Name_def gos_Head_def gos_Clear_def ptr_deref_def ism_Head_def net_inbox_def Consume_def
          Datum0_def split: option.splits)
  next
    case (Cons o2 os)
    then show ?case by (auto simp: gos_Name_def ptr_deref_def)
  qed
  then show ?thesis by (simp add: GetResult_def assms(1) net_inbox_def ism_Clear_def)
qed

text \<open>Reading the result of an observed stream returns the value of the oldest datum on it, if
  it has the type asked for, and the default of the type otherwise; either way everything
  queued on that stream is dropped, and the other queues stay as they were.\<close>

lemma GetResult_oldest:
  assumes "g_outputs g = before @ o1 # after" "gos_ism o1 = Some a" "ism_name (net_ism (w_net (g_world g)) a) = name"
    and "\<forall>o2\<in>set before. \<exists>b. gos_ism o2 = Some b \<and> ism_name (net_ism (w_net (g_world g)) b) \<noteq> name"
  shows "\<exists>g'. GetResult cast dflt name g =
      Inr (case net_inbox (w_net (g_world g)) a of [] \<Rightarrow> dflt
           | d # _ \<Rightarrow> (case Option.bind (d_val d) cast of None \<Rightarrow> dflt | Some r \<Rightarrow> r), g') \<and>
    (\<forall>b. net_inbox (w_net (g_world g')) b = (if b = a then [] else net_inbox (w_net (g_world g)) b))"
  by (rule GetResult_head [OF assms])

lemma GetResult_oldest_example:
  "\<exists>g'. GetResult (\<lambda>v. Some (v + 1)) 0 ''z''
     ((Graph0 :: (unit, int) graph)\<lparr>g_outputs := [\<lparr>gos_ish = Some (Output_ISH 0), gos_ism = Some 7\<rparr>],
        g_world := (g_world Graph0)\<lparr>w_net := (w_net (g_world (Graph0 :: (unit, int) graph)))\<lparr>net_ism :=
          (\<lambda>_. \<lparr>ism_name = ''z'', ism_queue = [Datum_ts 4 1, Datum_ts 9 2], ism_bound = 3, ism_closed = False\<rparr>)\<rparr>\<rparr>\<rparr>) = Inr (5, g')"
  using GetResult_oldest [of "(Graph0 :: (unit, int) graph)\<lparr>g_outputs := [\<lparr>gos_ish = Some (Output_ISH 0), gos_ism = Some 7\<rparr>],
        g_world := (g_world Graph0)\<lparr>w_net := (w_net (g_world (Graph0 :: (unit, int) graph)))\<lparr>net_ism :=
          (\<lambda>_. \<lparr>ism_name = ''z'', ism_queue = [Datum_ts 4 1, Datum_ts 9 2], ism_bound = 3, ism_closed = False\<rparr>)\<rparr>\<rparr>\<rparr>"
      "[]" "\<lparr>gos_ish = Some (Output_ISH 0), gos_ism = Some 7\<rparr>" "[]" 7 "''z''" "\<lambda>v. Some (v + 1)" 0]
  by (auto simp: net_inbox_def)

text \<open>A name that is not a graph input makes the code follow a null pointer.\<close>

lemma AddDatum_unknown: "map_of (g_inputs g) name = None \<Longrightarrow> AddDatumToInputStream name d g = Inl Undefined"
  by (simp add: AddDatumToInputStream_def)

text \<open>The result of a task's \<open>Open\<close> never reaches the graph.\<close>

lemma Node_Open_result: "Node_Open tc st = Inr (rc, st') \<Longrightarrow> rc = 0"
  by (auto simp: Node_Open_def bindE_Inr_iff)

end
