(* ===== verification/Doubles.thy ===== *)
theory Doubles
  imports Complex_Main Strings
begin

text \<open>
  IEEE 754 binary64 numbers, the \<open>double_t\<close> of the tasks. A finite number is its value, a
  rational; zero has no sign, which no operation of the tasks can observe. Every operation
  rounds its exact result to nearest, ties to even (\<open>round64\<close>). The comparison operators of C++
  are \<open>dlt\<close>, \<open>dge\<close> and \<open>deq\<close>, false on NaN; the linear order of the type is the one a
  \<open>std::map\<close> keyed by numbers other than NaN iterates in.
\<close>

section \<open>Values\<close>

datatype double = NInf | Fin rat | PInf | NaN

fun dkey :: "double \<Rightarrow> nat \<times> rat" where
  "dkey NInf = (0, 0)"
| "dkey (Fin q) = (1, q)"
| "dkey PInf = (2, 0)"
| "dkey NaN = (3, 0)"

lemma dkey_eq [simp]: "dkey a = dkey b \<longleftrightarrow> a = b"
  by (cases a; cases b) auto

instantiation double :: linorder
begin

definition less_eq_double :: "double \<Rightarrow> double \<Rightarrow> bool" where
  "less_eq_double a b \<longleftrightarrow> fst (dkey a) < fst (dkey b) \<or> fst (dkey a) = fst (dkey b) \<and> snd (dkey a) \<le> snd (dkey b)"

definition less_double :: "double \<Rightarrow> double \<Rightarrow> bool" where
  "less_double a b \<longleftrightarrow> fst (dkey a) < fst (dkey b) \<or> fst (dkey a) = fst (dkey b) \<and> snd (dkey a) < snd (dkey b)"

instance
proof
  fix a b c :: double
  show "a < b \<longleftrightarrow> a \<le> b \<and> \<not> b \<le> a" by (auto simp: less_eq_double_def less_double_def)
  show "a \<le> a" by (simp add: less_eq_double_def)
  show "a \<le> b \<Longrightarrow> b \<le> c \<Longrightarrow> a \<le> c" by (auto simp: less_eq_double_def)
  show "a \<le> b \<Longrightarrow> b \<le> a \<Longrightarrow> a = b"
    by (subst dkey_eq [symmetric]) (auto simp: less_eq_double_def prod_eq_iff)
  show "a \<le> b \<or> b \<le> a" by (auto simp: less_eq_double_def)
qed

end

lemma double_le_simps [simp]:
  "Fin a \<le> Fin b \<longleftrightarrow> a \<le> b" "NInf \<le> x" "x \<le> NaN" "NaN \<le> x \<longleftrightarrow> x = NaN" "PInf \<le> Fin a \<longleftrightarrow> False"
  "Fin a \<le> PInf" "Fin a \<le> NInf \<longleftrightarrow> False"
  by (cases x; auto simp: less_eq_double_def)+

lemma double_less_simps [simp]: "Fin a < Fin b \<longleftrightarrow> a < b"
  by (simp add: less_double_def)

section \<open>Comparison\<close>

definition dlt :: "double \<Rightarrow> double \<Rightarrow> bool" where
  "dlt a b \<longleftrightarrow> a \<noteq> NaN \<and> b \<noteq> NaN \<and> a < b"

definition dge :: "double \<Rightarrow> double \<Rightarrow> bool" where
  "dge a b \<longleftrightarrow> a \<noteq> NaN \<and> b \<noteq> NaN \<and> b \<le> a"

definition deq :: "double \<Rightarrow> double \<Rightarrow> bool" where
  "deq a b \<longleftrightarrow> a \<noteq> NaN \<and> a = b"

lemma dcmp_Fin [simp]:
  "dlt (Fin a) (Fin b) \<longleftrightarrow> a < b" "dge (Fin a) (Fin b) \<longleftrightarrow> b \<le> a" "deq (Fin a) (Fin b) \<longleftrightarrow> a = b"
  by (simp_all add: dlt_def dge_def deq_def)

lemma dge_iff_not_dlt: "a \<noteq> NaN \<Longrightarrow> b \<noteq> NaN \<Longrightarrow> dge a b \<longleftrightarrow> \<not> dlt a b"
  by (auto simp: dge_def dlt_def)

section \<open>Rounding\<close>

definition pow2 :: "int \<Rightarrow> rat" where
  "pow2 e = (if 0 \<le> e then of_int (2 ^ nat e) else 1 / of_int (2 ^ nat (- e)))"

text \<open>The number of binary digits of a positive integer, and the exponent of the leading bit of a
  positive rational.\<close>

function bits :: "int \<Rightarrow> int" where
  "bits n = (if n \<le> 0 then 0 else bits (n div 2) + 1)"
  by pat_completeness auto

termination
  by (relation "measure nat") auto

declare bits.simps [simp del]

definition lead_exp :: "rat \<Rightarrow> int" where
  "lead_exp q = (case quotient_of q of (a, b) \<Rightarrow>
     let k = bits a - bits b in if pow2 k \<le> q then k else k - 1)"

definition round_half_even :: "rat \<Rightarrow> int" where
  "round_half_even q = (let n = \<lfloor>q\<rfloor>; r = q - of_int n in
     if r < 1 / 2 then n else if 1 / 2 < r then n + 1 else if even n then n else n + 1)"

definition ulp_exp :: "rat \<Rightarrow> int" where
  "ulp_exp q = max (lead_exp \<bar>q\<bar>) (- 1022) - 52"

text \<open>Overflow: the leading exponent exceeds 1023, or the mantissa rounds up to the next power.\<close>

definition round64 :: "rat \<Rightarrow> double" where
  "round64 q =
     (if q = 0 then Fin 0
      else let e = ulp_exp q; m = round_half_even (q / pow2 e) in
        if 971 < e \<or> e = 971 \<and> 9007199254740992 \<le> \<bar>m\<bar> then (if 0 < q then PInf else NInf)
        else Fin (of_int m * pow2 e))"

definition double_of_int :: "int \<Rightarrow> double" where
  "double_of_int n = round64 (of_int n)"

section \<open>Arithmetic\<close>

fun dneg :: "double \<Rightarrow> double" where
  "dneg NInf = PInf" | "dneg PInf = NInf" | "dneg NaN = NaN" | "dneg (Fin a) = Fin (- a)"

fun dadd :: "double \<Rightarrow> double \<Rightarrow> double" where
  "dadd (Fin a) (Fin b) = round64 (a + b)"
| "dadd NaN _ = NaN" | "dadd _ NaN = NaN"
| "dadd PInf NInf = NaN" | "dadd NInf PInf = NaN"
| "dadd PInf _ = PInf" | "dadd _ PInf = PInf"
| "dadd NInf _ = NInf" | "dadd _ NInf = NInf"

definition dsub :: "double \<Rightarrow> double \<Rightarrow> double" where
  "dsub a b = dadd a (dneg b)"

definition signed_inf :: "rat \<Rightarrow> double" where
  "signed_inf s = (if s = 0 then NaN else if 0 < s then PInf else NInf)"

fun dmul :: "double \<Rightarrow> double \<Rightarrow> double" where
  "dmul (Fin a) (Fin b) = round64 (a * b)"
| "dmul NaN _ = NaN" | "dmul _ NaN = NaN"
| "dmul (Fin a) PInf = signed_inf a" | "dmul (Fin a) NInf = signed_inf (- a)"
| "dmul PInf (Fin a) = signed_inf a" | "dmul NInf (Fin a) = signed_inf (- a)"
| "dmul PInf PInf = PInf" | "dmul NInf NInf = PInf" | "dmul PInf NInf = NInf" | "dmul NInf PInf = NInf"

definition dhalf :: "double \<Rightarrow> double" where
  "dhalf a = (case a of Fin q \<Rightarrow> round64 (q / 2) | _ \<Rightarrow> a)"

text \<open>Conversion to an integer type truncates; a value out of its range is undefined behaviour.\<close>

definition trunc :: "rat \<Rightarrow> int" where
  "trunc q = (if 0 \<le> q then \<lfloor>q\<rfloor> else \<lceil>q\<rceil>)"

definition double_to :: "int \<Rightarrow> int \<Rightarrow> double \<Rightarrow> int outcome" where
  "double_to lo hi d = (case d of
       Fin q \<Rightarrow> if lo \<le> trunc q \<and> trunc q \<le> hi then Inr (trunc q) else Inl Undefined
     | _ \<Rightarrow> Inl Undefined)"

definition to_int32 :: "double \<Rightarrow> int outcome" where
  "to_int32 = double_to (- 2147483648) 2147483647"

definition to_uint64 :: "double \<Rightarrow> int outcome" where
  "to_uint64 = double_to 0 18446744073709551615"

section \<open>Exact results\<close>

lemma bits_bounds:
  assumes "0 < n"
  shows "0 < bits n \<and> 2 ^ nat (bits n - 1) \<le> n \<and> n < 2 ^ nat (bits n)"
  using assms
proof (induction n rule: bits.induct)
  case (1 n)
  show ?case
  proof (cases "n = 1")
    case True
    have "bits 1 = 1" by (simp add: bits.simps [of 1] bits.simps [of 0])
    then show ?thesis using True by simp
  next
    case False
    with "1.prems" have n: "0 < n div 2" "\<not> n \<le> 0" by auto
    define k where "k = nat (bits (n div 2) - 1)"
    have IH: "0 < bits (n div 2)" "2 ^ k \<le> n div 2" "n div 2 < 2 ^ nat (bits (n div 2))"
      using "1.IH" [OF n(2) n(1)] by (simp_all add: k_def)
    have b: "bits n = bits (n div 2) + 1" using n by (subst bits.simps) simp
    have "nat (bits (n div 2)) = Suc k" "nat (bits n) = Suc (Suc k)" "nat (bits n - 1) = Suc k"
      using IH(1) by (simp_all add: k_def b)
    then show ?thesis using IH by (simp add: b) linarith
  qed
qed

lemma bits_le: "0 < n \<Longrightarrow> n < 2 ^ k \<Longrightarrow> bits n \<le> int k"
proof (rule ccontr)
  assume n: "0 < n" "n < 2 ^ k" and "\<not> bits n \<le> int k"
  then have "k \<le> nat (bits n - 1)" by simp
  then have "(2::int) ^ k \<le> 2 ^ nat (bits n - 1)" by (simp add: power_increasing)
  then show False using bits_bounds [OF n(1)] n(2) by linarith
qed

lemma lead_exp_int: "0 < n \<Longrightarrow> lead_exp (of_int n) = bits n - 1"
proof -
  assume n: "0 < n"
  have "bits 1 = 1" by (simp add: bits.simps [of 1] bits.simps [of 0])
  moreover have "of_int (2 ^ nat (bits n - 1)) \<le> (of_int n :: rat)"
    using bits_bounds [OF n] by (simp only: of_int_le_iff)
  ultimately show ?thesis using bits_bounds [OF n] by (simp add: lead_exp_def pow2_def)
qed

lemma round_half_even_int [simp]: "round_half_even (of_int n) = n"
  by (simp add: round_half_even_def)

lemma round64_int:
  assumes "\<bar>n\<bar> < 2 ^ 53"
  shows "round64 (of_int n) = Fin (of_int n)"
proof (cases "n = 0")
  case True
  then show ?thesis by (simp add: round64_def)
next
  case False
  define e where "e = ulp_exp (of_int n)"
  define p :: int where "p = 2 ^ nat (- e)"
  have "lead_exp \<bar>of_int n\<bar> = bits \<bar>n\<bar> - 1" using lead_exp_int [of "\<bar>n\<bar>"] False by simp
  then have "e \<le> 0" using bits_le [of "\<bar>n\<bar>" 53] assms False by (simp add: e_def ulp_exp_def)
  then have pow: "pow2 e = 1 / of_int p"
    by (cases "e = 0") (simp_all add: pow2_def p_def)
  have "p \<noteq> 0" by (simp add: p_def)
  have "of_int n / pow2 e = of_int (n * p)" by (simp add: pow)
  then have "round_half_even (of_int n / pow2 e) = n * p" by (simp only: round_half_even_int)
  then show ?thesis using \<open>e \<le> 0\<close> \<open>p \<noteq> 0\<close> False by (simp add: round64_def Let_def e_def [symmetric] pow)
qed

lemma double_of_int_exact: "\<bar>n\<bar> < 2 ^ 53 \<Longrightarrow> double_of_int n = Fin (of_int n)"
  by (simp add: double_of_int_def round64_int)

lemma dadd_int:
  assumes "\<bar>a + b\<bar> < 2 ^ 53"
  shows "dadd (Fin (of_int a)) (Fin (of_int b)) = Fin (of_int (a + b))"
  using round64_int [OF assms] by simp

lemma trunc_int [simp]: "trunc (of_int n) = n"
  by (simp add: trunc_def)

section \<open>Rounding within bounds\<close>

lemma pow2_less: "pow2 k < 2 ^ n \<Longrightarrow> k < int n"
proof (rule ccontr)
  assume k: "pow2 k < 2 ^ n" and "\<not> k < int n"
  then have "0 \<le> k" "n \<le> nat k" by simp_all
  then have "(2::rat) ^ n \<le> pow2 k" by (simp add: pow2_def power_increasing)
  then show False using k by simp
qed

lemma lead_exp_le:
  assumes "0 < q" "q < 2 ^ Suc n"
  shows "lead_exp q \<le> int n"
proof -
  obtain a b where ab: "quotient_of q = (a, b)" by (cases "quotient_of q")
  have q: "q = of_int a / of_int b" by (rule quotient_of_div [OF ab])
  have b: "0 < b" by (rule quotient_of_denom_pos [OF ab])
  then have a: "0 < a" using assms(1) by (simp add: q zero_less_divide_iff)
  have "(of_int a :: rat) < of_int (2 ^ Suc n * b)" using assms(2) b by (simp add: q divide_less_eq)
  then have "a < 2 ^ Suc n * b" by (simp only: of_int_less_iff)
  also have "\<dots> < 2 ^ Suc n * 2 ^ nat (bits b)" using bits_bounds [OF b] by simp
  finally have "a < 2 ^ (Suc n + nat (bits b))" by (simp add: power_add)
  then have "bits a \<le> int (Suc n + nat (bits b))" by (rule bits_le [OF a])
  then have "bits a - bits b \<le> int (Suc n)" using bits_bounds [OF b] by simp
  moreover have "bits a - bits b < int (Suc n)" if "pow2 (bits a - bits b) \<le> q"
    by (rule pow2_less) (use that assms(2) in simp)
  ultimately show ?thesis by (auto simp: lead_exp_def ab Let_def)
qed

lemma round_half_even_mono: "0 \<le> q \<Longrightarrow> q \<le> of_int n \<Longrightarrow> 0 \<le> round_half_even q \<and> round_half_even q \<le> n"
proof -
  assume q: "0 \<le> q" "q \<le> of_int n"
  have "0 \<le> \<lfloor>q\<rfloor>" "\<lfloor>q\<rfloor> \<le> n" using q by (simp_all add: floor_le_iff)
  moreover have "\<lfloor>q\<rfloor> < n" if "1 / 2 \<le> q - of_int \<lfloor>q\<rfloor>" using q that by linarith
  ultimately show ?thesis by (auto simp: round_half_even_def Let_def)
qed

text \<open>Rounding does not leave an interval between 0 and an exact integer.\<close>

lemma round64_between:
  assumes "0 \<le> q" "q \<le> of_int n" "n < 2 ^ 53"
  shows "\<exists>r. round64 q = Fin r \<and> 0 \<le> r \<and> r \<le> of_int n"
proof (cases "q = 0")
  case True
  then show ?thesis using assms by (simp add: round64_def)
next
  case False
  define e where "e = ulp_exp q"
  define p :: int where "p = 2 ^ nat (- e)"
  have "(of_int n :: rat) < of_int (2 ^ 53)" using assms(3) by (simp only: of_int_less_iff)
  then have "q < 2 ^ Suc 52" using assms(2) by simp
  then have "lead_exp q \<le> int 52" using False assms(1) by (intro lead_exp_le) auto
  then have "e \<le> 0" using assms(1) by (simp add: e_def ulp_exp_def)
  then have pow: "pow2 e = 1 / of_int p" by (cases "e = 0") (simp_all add: pow2_def p_def)
  have p: "0 < p" by (simp add: p_def)
  have "q / pow2 e \<le> of_int (n * p)" using assms(2) p by (simp add: pow mult_right_mono)
  then have m: "0 \<le> round_half_even (q / pow2 e)" "round_half_even (q / pow2 e) \<le> n * p"
    using round_half_even_mono [of "q / pow2 e" "n * p"] assms(1) p by (simp_all add: pow)
  then have "(of_int (round_half_even (q / pow2 e)) :: rat) \<le> of_int (n * p)" by (simp only: of_int_le_iff)
  then have "of_int (round_half_even (q / pow2 e)) * pow2 e \<le> of_int n" using p by (simp add: pow divide_le_eq)
  moreover have "0 \<le> of_int (round_half_even (q / pow2 e)) * pow2 e" using m(1) p by (simp add: pow)
  moreover have "round64 q = Fin (of_int (round_half_even (q / pow2 e)) * pow2 e)"
    using \<open>e \<le> 0\<close> False by (simp add: round64_def Let_def e_def [symmetric])
  ultimately show ?thesis by blast
qed

lemma dmul_ratio:
  assumes "0 \<le> n" "n < 2 ^ 53" "0 \<le> r" "r \<le> 1"
  shows "\<exists>q. dmul (double_of_int n) (Fin r) = Fin q \<and> 0 \<le> q \<and> q \<le> of_int n"
proof -
  have "of_int n * r \<le> of_int n" using assms by (simp add: mult_left_le)
  then show ?thesis using round64_between [of "of_int n * r" n] assms by (simp add: double_of_int_exact)
qed

lemma dhalf_between:
  assumes "0 \<le> q" "q \<le> of_int n" "n < 2 ^ 53"
  shows "\<exists>r. dhalf (Fin q) = Fin r \<and> 0 \<le> r \<and> r \<le> of_int n"
  using round64_between [of "q / 2" n] assms by (simp add: dhalf_def)

lemma to_int32_between:
  assumes "0 \<le> q" "q \<le> of_int n" "n \<le> 2147483647"
  shows "\<exists>i. to_int32 (Fin q) = Inr i \<and> 0 \<le> i \<and> i \<le> n"
proof -
  have "0 \<le> \<lfloor>q\<rfloor>" "\<lfloor>q\<rfloor> \<le> n" using assms by (simp_all add: floor_le_iff)
  then show ?thesis using assms by (simp add: to_int32_def double_to_def trunc_def)
qed

end
