(* ===== verification/Cidr.thy ===== *)
theory Cidr
  imports Prelude "HOL-Library.Multiset"
begin

text \<open>
  The address-range arithmetic of \<open>dni/framework/formats/cidr.h\<close> and \<open>cidr.cc\<close>: the
  \<open>CIDR\<close> pair, the two merge passes behind \<open>cidr_merge\<close>, and \<open>split_range\<close> behind
  \<open>iprange_to_cidrs\<close>. The meaning of a block is the set of its addresses, \<open>cidr_set\<close>.
\<close>

section \<open>Data\<close>

record cidr =
  cidr_ip :: u32
  cidr_len :: int

definition CIDR :: "u32 \<Rightarrow> int \<Rightarrow> cidr" where
  "CIDR a l = \<lparr>cidr_ip = a, cidr_len = l\<rparr>"

lemma CIDR_sel [simp]: "cidr_ip (CIDR a l) = a" "cidr_len (CIDR a l) = l"
  by (simp_all add: CIDR_def)

lemma CIDR_collapse [simp]: "CIDR (cidr_ip c) (cidr_len c) = c"
  by (simp add: CIDR_def)

lemma CIDR_eq_iff [simp]: "CIDR a l = CIDR b m \<longleftrightarrow> a = b \<and> l = m"
  by (simp add: CIDR_def)

definition host_bits :: "cidr \<Rightarrow> nat" where
  "host_bits c = nat (32 - cidr_len c)"

text \<open>A well-formed block: a length in range and no address bit below the prefix.\<close>

definition wf_cidr :: "cidr \<Rightarrow> bool" where
  "wf_cidr c \<longleftrightarrow> 0 \<le> cidr_len c \<and> cidr_len c \<le> 32 \<and> aligned (host_bits c) (cidr_ip c)"

definition cidr_set :: "cidr \<Rightarrow> u32 set" where
  "cidr_set c = addr_block (cidr_ip c) (host_bits c)"

definition cover_set :: "cidr list \<Rightarrow> u32 set" where
  "cover_set cs = (\<Union>c\<in>set cs. cidr_set c)"

lemma cover_set_simps [simp]:
  "cover_set [] = {}" "cover_set (c # cs) = cidr_set c \<union> cover_set cs"
  "cover_set (cs @ ds) = cover_set cs \<union> cover_set ds"
  by (auto simp: cover_set_def)

section \<open>Range to blocks\<close>

definition set_bit_ip :: "u32 \<Rightarrow> int \<Rightarrow> int \<Rightarrow> u32" where
  "set_bit_ip a bitno val =
     (if val \<noteq> 0 then a OR shl_one (32 - bitno) else a AND NOT (shl_one (32 - bitno)))"

definition netmask :: "int \<Rightarrow> u32" where
  "netmask l = (if l = 0 then NOT (- 1) else NOT (shl_one (32 - l) - 1))"

definition broadcast :: "u32 \<Rightarrow> int \<Rightarrow> u32" where
  "broadcast a l = a OR NOT (netmask l)"

definition network :: "u32 \<Rightarrow> int \<Rightarrow> u32" where
  "network a l = a AND netmask l"

function split_range :: "u32 \<Rightarrow> int \<Rightarrow> u32 \<Rightarrow> u32 \<Rightarrow> cidr list \<Rightarrow> int \<times> cidr list" where
  "split_range a l lo hi CIDRs =
     (if l < 0 \<or> 32 < l then (- 1, CIDRs)
      else if lo < a \<or> broadcast a l < hi then (- 1, CIDRs)
      else if lo = a \<and> hi = broadcast a l then (0, CIDRs @ [CIDR a l])
      else
        let l' = l + 1; lower_half = a; upper_half = set_bit_ip a l' 1 in
        if hi < upper_half then
          (case split_range lower_half l' lo hi CIDRs of
             (r, cs) \<Rightarrow> if r = - 1 then (- 1, cs) else (0, cs))
        else if upper_half \<le> lo then
          (case split_range upper_half l' lo hi CIDRs of
             (r, cs) \<Rightarrow> if r = - 1 then (- 1, cs) else (0, cs))
        else
          (case split_range lower_half l' lo (broadcast lower_half l') CIDRs of
             (r, cs) \<Rightarrow>
               if r = - 1 then (- 1, cs)
               else (case split_range upper_half l' upper_half hi cs of
                       (r', cs') \<Rightarrow> if r' = - 1 then (- 1, cs') else (0, cs'))))"
  by pat_completeness auto
termination
  by (relation "measure (\<lambda>(a, l, lo, hi, cs). nat (33 - l))") auto

declare split_range.simps [simp del]

definition iprange_to_cidrs :: "cidr \<Rightarrow> cidr \<Rightarrow> cidr list" where
  "iprange_to_cidrs from_c to_c =
     (if 32 < cidr_len from_c \<or> 32 < cidr_len to_c then []
      else
        let lo = network (cidr_ip from_c) (cidr_len from_c);
            hi = broadcast (cidr_ip to_c) (cidr_len to_c) in
        case split_range 0 0 lo hi [] of (r, cs) \<Rightarrow> if r = - 1 then [] else cs)"

subsection \<open>Masks as blocks\<close>

lemma not_netmask: "0 \<le> l \<Longrightarrow> l \<le> 32 \<Longrightarrow> NOT (netmask l) = mask (nat (32 - l))"
  by (auto simp: netmask_def shl_one_exp mask_eq_exp_minus_1)

lemma unat_broadcast:
  assumes "0 \<le> l" "l \<le> 32" "aligned (nat (32 - l)) a"
  shows "unat (broadcast a l) = unat a + (2 ^ nat (32 - l) - 1)"
  using assms by (simp add: broadcast_def not_netmask unat_or_mask_aligned)

lemma unat_upper_half:
  assumes "0 \<le> l" "l < 32" "aligned (nat (32 - l)) a"
  shows "unat (set_bit_ip a (l + 1) 1) = unat a + 2 ^ nat (31 - l)"
proof -
  have "aligned (Suc (nat (31 - l))) a"
    using assms by (simp add: Suc_nat_eq_nat_zadd1)
  then show ?thesis
    using assms by (simp add: set_bit_ip_def shl_one_exp unat_or_exp_aligned)
qed

lemma aligned_upper_half:
  assumes "0 \<le> l" "l < 32" "aligned (nat (32 - l)) a"
  shows "aligned (nat (31 - l)) (set_bit_ip a (l + 1) 1)"
proof -
  have "aligned (nat (31 - l)) a"
    using assms(3) by (rule aligned_mono) simp
  then show ?thesis
    using unat_upper_half [OF assms] by (simp add: aligned_iff_unat)
qed

lemma aligned_network:
  assumes "0 \<le> l" "l \<le> 32"
  shows "aligned (nat (32 - l)) (network a l)"
proof -
  have "netmask l = NOT (mask (nat (32 - l)))"
    using not_netmask [OF assms] by (metis bit.double_compl)
  then have "take_bit (nat (32 - l)) (network a l) = 0"
    by (simp add: network_def take_bit_eq_mask and.assoc)
  then show ?thesis by (simp add: aligned_def)
qed

subsection \<open>The recursion over natural numbers\<close>

text \<open>
  Reference definition: the blocks that cover the half-open range \<open>lo..<e\<close> inside the
  block of \<open>2 ^ k\<close> addresses from \<open>a\<close>, as pairs of a first address and a number of host
  bits.
\<close>

fun cover_blocks :: "nat \<Rightarrow> nat \<Rightarrow> nat \<Rightarrow> nat \<Rightarrow> (nat \<times> nat) list" where
  "cover_blocks 0 a lo e = [(a, 0)]"
| "cover_blocks (Suc j) a lo e =
     (if lo = a \<and> e = a + 2 ^ Suc j then [(a, Suc j)]
      else if e \<le> a + 2 ^ j then cover_blocks j a lo e
      else if a + 2 ^ j \<le> lo then cover_blocks j (a + 2 ^ j) lo e
      else cover_blocks j a lo (a + 2 ^ j) @ cover_blocks j (a + 2 ^ j) (a + 2 ^ j) e)"

definition block_cidr :: "nat \<times> nat \<Rightarrow> cidr" where
  "block_cidr b = CIDR (of_nat (fst b)) (32 - int (snd b))"

lemma block_cidr_full: "block_cidr (unat a, k) = CIDR a (32 - int k)"
  by (simp add: block_cidr_def)

text \<open>
  The facts every call of the recursion relies on: the node \<open>a/l\<close> has \<open>Suc j\<close> host bits,
  and its two halves have \<open>j\<close>.
\<close>

lemma node_facts:
  assumes "Suc j \<le> 32" "aligned (Suc j) a" "l = 32 - int (Suc j)"
  shows "unat (set_bit_ip a (l + 1) 1) = unat a + 2 ^ j" "aligned j (set_bit_ip a (l + 1) 1)"
    "aligned j a" "Suc (unat (broadcast a l)) = unat a + 2 ^ Suc j"
    "Suc (unat (broadcast a (l + 1))) = unat a + 2 ^ j"
proof -
  have l: "0 \<le> l" "l < 32" "nat (32 - l) = Suc j" "nat (31 - l) = j" using assms by auto
  then have al: "aligned (nat (32 - l)) a" using assms(2) by simp
  show "unat (set_bit_ip a (l + 1) 1) = unat a + 2 ^ j" "aligned j (set_bit_ip a (l + 1) 1)"
    using unat_upper_half [OF l(1,2) al] aligned_upper_half [OF l(1,2) al] l(4) by simp_all
  show aj: "aligned j a" using assms(2) by (rule aligned_mono) simp
  show "Suc (unat (broadcast a l)) = unat a + 2 ^ Suc j"
    using unat_broadcast [of l a] l al by simp
  show "Suc (unat (broadcast a (l + 1))) = unat a + 2 ^ j"
    using unat_broadcast [of "l + 1" a] aj l by simp
qed

lemma split_range_inside:
  assumes "0 \<le> l" "l \<le> 32" "a \<le> lo" "hi \<le> broadcast a l"
  shows "lo = a \<and> hi = broadcast a l \<Longrightarrow> split_range a l lo hi acc = (0, acc @ [CIDR a l])"
    and "\<not> (lo = a \<and> hi = broadcast a l) \<Longrightarrow> hi < set_bit_ip a (l + 1) 1 \<Longrightarrow>
      split_range a (l + 1) lo hi acc = (0, cs) \<Longrightarrow> split_range a l lo hi acc = (0, cs)"
    and "\<not> (lo = a \<and> hi = broadcast a l) \<Longrightarrow> set_bit_ip a (l + 1) 1 \<le> hi \<Longrightarrow>
      set_bit_ip a (l + 1) 1 \<le> lo \<Longrightarrow>
      split_range (set_bit_ip a (l + 1) 1) (l + 1) lo hi acc = (0, cs) \<Longrightarrow>
      split_range a l lo hi acc = (0, cs)"
    and "\<not> (lo = a \<and> hi = broadcast a l) \<Longrightarrow> set_bit_ip a (l + 1) 1 \<le> hi \<Longrightarrow>
      lo < set_bit_ip a (l + 1) 1 \<Longrightarrow>
      split_range a (l + 1) lo (broadcast a (l + 1)) acc = (0, cs') \<Longrightarrow>
      split_range (set_bit_ip a (l + 1) 1) (l + 1) (set_bit_ip a (l + 1) 1) hi cs' = (0, cs) \<Longrightarrow>
      split_range a l lo hi acc = (0, cs)"
  using assms by (subst split_range.simps; force simp: Let_def not_less)+

lemma split_range_blocks:
  assumes "k \<le> 32" "aligned k a" "a \<le> lo" "lo \<le> hi" "unat hi < unat a + 2 ^ k"
  shows "split_range a (32 - int k) lo hi acc =
    (0, acc @ map block_cidr (cover_blocks k (unat a) (unat lo) (Suc (unat hi))))"
  using assms
proof (induction k arbitrary: a lo hi acc)
  case 0
  have "broadcast a 32 = a" using unat_broadcast [of 32 a] by (simp add: word_unat_eq_iff)
  then show ?case
    using 0 split_range_inside(1) [of 32 a lo hi acc]
    by (auto simp: word_le_nat_alt word_unat_eq_iff block_cidr_full)
next
  case (Suc j)
  define l where "l = 32 - int (Suc j)"
  have l: "0 \<le> l" "l \<le> 32" and l1: "l + 1 = 32 - int j" and j32: "j \<le> 32"
    using Suc.prems(1) by (auto simp: l_def)
  note node = node_facts [OF Suc.prems(1,2) l_def]
  note IH = Suc.IH [OF j32, folded l1]
  note order = word_less_nat_alt word_le_nat_alt
  have le: "unat a \<le> unat lo" "unat lo \<le> unat hi" "hi \<le> broadcast a l"
    using Suc.prems(3,4,5) node(4) by (simp_all add: order)
  note inside = split_range_inside [OF l Suc.prems(3) le(3), of acc]
  have full_iff: "(lo = a \<and> hi = broadcast a l) \<longleftrightarrow>
      (unat lo = unat a \<and> Suc (unat hi) = unat a + 2 ^ Suc j)"
    unfolding node(4) [symmetric] by (auto simp: word_unat_eq_iff)
  let ?u = "set_bit_ip a (l + 1) 1"
  consider (full) "lo = a \<and> hi = broadcast a l"
    | (lower) "\<not> (lo = a \<and> hi = broadcast a l)" "hi < ?u"
    | (upper) "\<not> (lo = a \<and> hi = broadcast a l)" "?u \<le> hi" "?u \<le> lo"
    | (both) "\<not> (lo = a \<and> hi = broadcast a l)" "?u \<le> hi" "lo < ?u"
    by fastforce
  then have "split_range a l lo hi acc =
    (0, acc @ map block_cidr (cover_blocks (Suc j) (unat a) (unat lo) (Suc (unat hi))))"
  proof cases
    case full
    then show ?thesis
      using inside(1) full_iff block_cidr_full [of a "Suc j"] by (simp add: l_def)
  next
    case lower
    then show ?thesis
      using inside(2) [OF lower IH [OF node(3)]] full_iff node(1) le Suc.prems(3,4)
      by (auto simp: order)
  next
    case upper
    then show ?thesis
      using inside(3) [OF upper IH [OF node(2)]] full_iff node(1) le Suc.prems(4,5)
      by (auto simp: order)
  next
    case both
    then show ?thesis
      using inside(4) [OF both IH [OF node(3)] IH [OF node(2)]] full_iff node(1,5) le Suc.prems(3,5)
      by (auto simp: order)
  qed
  then show ?case by (simp only: l_def)
qed

subsection \<open>What the blocks cover\<close>

text \<open>
  \<open>chain a bs b\<close>: the blocks \<open>bs\<close> are aligned and tile the half-open range \<open>a..<b\<close> from
  left to right without a gap or an overlap.
\<close>

fun chain :: "nat \<Rightarrow> (nat \<times> nat) list \<Rightarrow> nat \<Rightarrow> bool" where
  "chain a [] b \<longleftrightarrow> a = b"
| "chain a ((s, k) # bs) b \<longleftrightarrow> s = a \<and> k \<le> 32 \<and> 2 ^ k dvd s \<and> chain (s + 2 ^ k) bs b"

lemma chain_append: "chain a (xs @ ys) b \<longleftrightarrow> (\<exists>m. chain a xs m \<and> chain m ys b)"
  by (induction xs arbitrary: a) auto

lemma chain_le: "chain a bs b \<Longrightarrow> a \<le> b"
  by (induction a bs b rule: chain.induct) auto

lemma cover_blocks_chain:
  assumes "k \<le> 32" "2 ^ k dvd a" "a \<le> lo" "lo < e" "e \<le> a + 2 ^ k"
  shows "chain lo (cover_blocks k a lo e) e"
  using assms
proof (induction k arbitrary: a lo e)
  case 0
  then show ?case by simp
next
  case (Suc j)
  have "2 ^ j dvd a" "2 ^ j dvd a + 2 ^ j"
    using Suc.prems(2) by (auto simp: dvd_add_left_iff intro: dvd_trans [OF le_imp_power_dvd])
  then show ?case
    using Suc.prems Suc.IH [of a lo e] Suc.IH [of "a + 2 ^ j" lo e]
      Suc.IH [of a lo "a + 2 ^ j"] Suc.IH [of "a + 2 ^ j" "a + 2 ^ j" e]
    by (auto simp: chain_append)
qed

text \<open>
  The block count: one block for the whole node, at most \<open>k\<close> for a range that shares an
  end with its node of \<open>2 ^ k\<close> addresses, at most \<open>2 * (k - 1)\<close> otherwise.
\<close>

lemma cover_blocks_full [simp]: "cover_blocks k a a (a + 2 ^ k) = [(a, k)]"
  by (cases k) auto

lemma cover_blocks_length_end:
  assumes "a \<le> lo" "lo < e" "e \<le> a + 2 ^ k" "lo = a \<or> e = a + 2 ^ k"
  shows "length (cover_blocks k a lo e) \<le> max 1 k"
  using assms
proof (induction k arbitrary: a lo e)
  case (Suc j)
  have "lo = a \<and> e = a + 2" if "j = 0" "a + 2 ^ j < e" "lo < a + 2 ^ j"
    using that Suc.prems by auto
  moreover have u: "cover_blocks j (a + 2 ^ j) (a + 2 ^ j) (a + 2 * 2 ^ j) = [(a + 2 ^ j, j)]"
    by (metis cover_blocks_full mult_2 add.assoc)
  ultimately show ?case
    using Suc.prems Suc.IH [of a lo e] Suc.IH [of "a + 2 ^ j" lo e]
      Suc.IH [of a lo "a + 2 ^ j"] Suc.IH [of "a + 2 ^ j" "a + 2 ^ j" e]
      u
    by (cases "j = 0") (auto simp: not_le)
qed simp

lemma cover_blocks_length:
  assumes "a \<le> lo" "lo < e" "e \<le> a + 2 ^ k"
  shows "length (cover_blocks k a lo e) \<le> max 1 (2 * (k - 1))"
  using assms
proof (induction k arbitrary: a lo e)
  case (Suc j)
  have "lo = a \<and> e = a + 2" if "j = 0" "a + 2 ^ j < e" "lo < a + 2 ^ j"
    using that Suc.prems by auto
  then show ?case
    using Suc.prems Suc.IH [of a lo e] Suc.IH [of "a + 2 ^ j" lo e]
      cover_blocks_length_end [of a lo "a + 2 ^ j" j]
      cover_blocks_length_end [of "a + 2 ^ j" "a + 2 ^ j" e j]
    by (cases "j = 0") (auto simp: not_le)
qed simp

subsection \<open>From blocks back to addresses\<close>

lemma chain_bound: "chain a bs b \<Longrightarrow> (s, k) \<in> set bs \<Longrightarrow> a \<le> s \<and> s + 2 ^ k \<le> b"
  by (induction a bs b rule: chain.induct) (auto dest: chain_le)

lemma chain_aligned: "chain a bs b \<Longrightarrow> (s, k) \<in> set bs \<Longrightarrow> k \<le> 32 \<and> 2 ^ k dvd s"
  by (induction a bs b rule: chain.induct) auto

lemma block_cidr_unat:
  assumes "s + 2 ^ k \<le> 2 ^ 32"
  shows "unat (cidr_ip (block_cidr (s, k))) = s"
proof -
  have "s < 2 ^ 32" using assms by (metis add_lessD1 le_eq_less_or_eq less_add_same_cancel1
        zero_less_numeral zero_less_power order_less_le_trans)
  then show ?thesis by (simp add: block_cidr_def unsigned_of_nat take_bit_nat_eq_self)
qed

lemma block_cidr_facts:
  assumes "chain a bs b" "b \<le> 2 ^ 32" "(s, k) \<in> set bs"
  shows "wf_cidr (block_cidr (s, k))"
    and "x \<in> cidr_set (block_cidr (s, k)) \<longleftrightarrow> s \<le> unat x \<and> unat x < s + 2 ^ k"
proof -
  have k: "k \<le> 32" "2 ^ k dvd s" using chain_aligned [OF assms(1,3)] by auto
  have u: "unat (cidr_ip (block_cidr (s, k))) = s"
    using chain_bound [OF assms(1,3)] assms(2) by (intro block_cidr_unat) simp
  have hb: "host_bits (block_cidr (s, k)) = k" using k by (simp add: host_bits_def block_cidr_def)
  have al: "aligned k (cidr_ip (block_cidr (s, k)))" using k u by (simp add: aligned_iff_unat)
  show "wf_cidr (block_cidr (s, k))" using k hb al by (simp add: wf_cidr_def block_cidr_def)
  show "x \<in> cidr_set (block_cidr (s, k)) \<longleftrightarrow> s \<le> unat x \<and> unat x < s + 2 ^ k"
    by (simp add: cidr_set_def hb addr_block_unat [OF al] u)
qed

lemma chain_cover_set:
  assumes "chain a bs b" "b \<le> 2 ^ 32"
  shows "x \<in> cover_set (map block_cidr bs) \<longleftrightarrow> a \<le> unat x \<and> unat x < b"
  using assms
proof (induction a bs b rule: chain.induct)
  case (2 a s k bs b)
  note facts = block_cidr_facts(2) [OF "2.prems", of s k x]
  from 2 facts chain_le [of "a + 2 ^ k" bs b] show ?case by auto
qed simp

definition before :: "cidr \<Rightarrow> cidr \<Rightarrow> bool" where
  "before c d \<longleftrightarrow> (\<forall>x\<in>cidr_set c. \<forall>y\<in>cidr_set d. x < y)"

lemma chain_before:
  assumes "chain a bs b" "b \<le> 2 ^ 32"
  shows "sorted_wrt before (map block_cidr bs)"
  using assms
proof (induction a bs b rule: chain.induct)
  case (2 a s k bs b)
  have "before (block_cidr (a, k)) (block_cidr q)" if "q \<in> set bs" for q
  proof -
    obtain t m where q: "q = (t, m)" by (cases q)
    have "a + 2 ^ k \<le> t" using "2.prems" that chain_bound [of "a + 2 ^ k" bs b t m] q by auto
    moreover note block_cidr_facts(2) [OF "2.prems", of a k] block_cidr_facts(2) [OF "2.prems", of t m]
    ultimately show ?thesis
      using that "2.prems" q by (fastforce simp: before_def word_less_nat_alt)
  qed
  with 2 show ?case by auto
qed simp

subsection \<open>Inverted ranges\<close>

lemma split_range_inverted:
  assumes "hi < lo"
  shows "fst (split_range a l lo hi acc) = - 1"
proof (induction "nat (33 - l)" arbitrary: a l)
  case 0
  then show ?case by (subst split_range.simps) simp
next
  case (Suc n)
  have nofull: "\<not> (lo = a \<and> hi = broadcast a l)"
    using assms le_word_or2 [of a "NOT (netmask l)"] by (auto simp: broadcast_def)
  have "fst (split_range b (l + 1) lo hi acc) = - 1" for b
    using Suc.hyps(2) by (intro Suc.hyps(1)) simp
  then have "\<exists>cs. split_range b (l + 1) lo hi acc = (- 1, cs)" for b
    by (metis prod.collapse)
  then obtain f where "split_range b (l + 1) lo hi acc = (- 1, f b)" for b by metis
  then show ?case
    using assms nofull by (subst split_range.simps) (auto simp: Let_def)
qed

section \<open>Merging a set of addresses\<close>

definition isChildCollection :: "cidr \<Rightarrow> cidr \<Rightarrow> bool" where
  "isChildCollection a b =
     (if cidr_len b < cidr_len a then False
      else if shr_u32 (cidr_ip a XOR cidr_ip b) (32 - cidr_len a) \<noteq> 0 then False
      else True)"

definition unionCollection :: "cidr \<Rightarrow> cidr \<Rightarrow> bool" where
  "unionCollection a b =
     (if cidr_len a \<noteq> cidr_len b then False
      else shr_u32 (cidr_ip a XOR cidr_ip b) (32 - cidr_len a) = 1)"

text \<open>
  Both passes walk a \<open>std::list\<close> with two neighbouring iterators \<open>i\<close> and \<open>j = next(i)\<close>. The
  model keeps the elements before \<open>i\<close> in reverse, \<open>i\<close> itself, and the elements from \<open>j\<close>
  on. On an empty list both passes increment the end iterator, which is undefined: the
  model returns \<open>None\<close>.
\<close>

fun first_pass :: "cidr \<Rightarrow> cidr list \<Rightarrow> cidr list" where
  "first_pass i [] = [i]"
| "first_pass i (j # js) =
     (if isChildCollection i j then first_pass i js else i # first_pass j js)"

definition first_step_merge :: "cidr list \<Rightarrow> cidr list option" where
  "first_step_merge ipl = (case ipl of [] \<Rightarrow> None | i # js \<Rightarrow> Some (first_pass i js))"

function second_pass :: "cidr list \<Rightarrow> cidr \<Rightarrow> cidr list \<Rightarrow> cidr list" where
  "second_pass pre i [] = rev pre @ [i]"
| "second_pass pre i (j # js) =
     (if unionCollection i j then
        (let i' = i\<lparr>cidr_len := cidr_len i - 1\<rparr> in
         case pre of
           [] \<Rightarrow> second_pass [] i' js
         | p # ps \<Rightarrow> second_pass ps p (i' # js))
      else second_pass (i # pre) j js)"
  by pat_completeness auto
termination
  by (relation "measures [\<lambda>(pre, i, js). length pre + length js, \<lambda>(pre, i, js). length js]") auto

definition second_step_merge :: "cidr list \<Rightarrow> cidr list option" where
  "second_step_merge ipl = (case ipl of [] \<Rightarrow> None | i # js \<Rightarrow> Some (second_pass [] i js))"

text \<open>The comparison \<open>ipl.sort\<close> is given: by address, then by length.\<close>

instantiation cidr_ext :: (linorder) linorder
begin

definition less_eq_cidr_ext :: "'a cidr_ext \<Rightarrow> 'a cidr_ext \<Rightarrow> bool" where
  "a \<le> b \<longleftrightarrow> cidr_ip a < cidr_ip b \<or> cidr_ip a = cidr_ip b \<and>
     (cidr_len a < cidr_len b \<or> cidr_len a = cidr_len b \<and> cidr.more a \<le> cidr.more b)"

definition less_cidr_ext :: "'a cidr_ext \<Rightarrow> 'a cidr_ext \<Rightarrow> bool" where
  "a < b \<longleftrightarrow> cidr_ip a < cidr_ip b \<or> cidr_ip a = cidr_ip b \<and>
     (cidr_len a < cidr_len b \<or> cidr_len a = cidr_len b \<and> cidr.more a < cidr.more b)"

instance
  by standard (auto simp: less_eq_cidr_ext_def less_cidr_ext_def)

end

definition cidr_merge :: "(u32 \<times> int) list \<Rightarrow> cidr list option" where
  "cidr_merge ip_map =
     (let ipl = sort (map (\<lambda>e. CIDR (fst e) 32) ip_map) in
      case first_step_merge ipl of
        None \<Rightarrow> None
      | Some ipl1 \<Rightarrow> second_step_merge ipl1)"

lemma host_bits_32 [simp]: "host_bits (CIDR a 32) = 0"
  by (simp add: host_bits_def)

lemma wf_cidr_32 [simp]: "wf_cidr (CIDR a 32)" and cidr_set_32 [simp]: "cidr_set (CIDR a 32) = {a}"
  by (auto simp: wf_cidr_def cidr_set_def addr_block_def)

subsection \<open>The tests on pairs of blocks\<close>

lemma cidr_set_iff:
  assumes "wf_cidr c"
  shows "x \<in> cidr_set c \<longleftrightarrow> unat (cidr_ip c) \<le> unat x \<and> unat x < unat (cidr_ip c) + 2 ^ host_bits c"
  using assms by (simp add: cidr_set_def wf_cidr_def addr_block_unat)

lemma cidr_ip_in_set [simp]: "cidr_ip c \<in> cidr_set c"
  by (simp add: cidr_set_def addr_block_def)

lemma shr_host_bits:
  "1 \<le> cidr_len c \<Longrightarrow> cidr_len c \<le> 32 \<Longrightarrow> shr_u32 x (32 - cidr_len c) = drop_bit (host_bits c) x"
  by (simp add: shr_u32_drop_bit host_bits_def)

lemma isChildCollection_iff:
  assumes "wf_cidr a" "wf_cidr b" "1 \<le> cidr_len a"
  shows "isChildCollection a b \<longleftrightarrow> cidr_set b \<subseteq> cidr_set a"
proof -
  have shr: "shr_u32 x (32 - cidr_len a) = drop_bit (host_bits a) x" for x
    using assms by (intro shr_host_bits) (auto simp: wf_cidr_def)
  have eq: "isChildCollection a b \<longleftrightarrow> host_bits b \<le> host_bits a \<and> cidr_ip b \<in> cidr_set a"
    using assms by (auto simp: isChildCollection_def shr drop_bit_xor xor_zero_iff cidr_set_def
        addr_block_def wf_cidr_def host_bits_def)
  have "cidr_set b \<subseteq> cidr_set a" if "host_bits b \<le> host_bits a" "cidr_ip b \<in> cidr_set a"
  proof
    fix x assume "x \<in> cidr_set b"
    then have "drop_bit (host_bits b) x = drop_bit (host_bits b) (cidr_ip b)"
      by (simp add: cidr_set_def addr_block_def)
    then have "drop_bit (host_bits a - host_bits b) (drop_bit (host_bits b) x) =
        drop_bit (host_bits a - host_bits b) (drop_bit (host_bits b) (cidr_ip b))" by simp
    then have "drop_bit (host_bits a) x = drop_bit (host_bits a) (cidr_ip b)"
      using that(1) by (simp add: drop_bit_drop_bit)
    then show "x \<in> cidr_set a" using that(2) by (simp add: cidr_set_def addr_block_def)
  qed
  moreover have "host_bits b \<le> host_bits a" if sub: "cidr_set b \<subseteq> cidr_set a"
  proof -
    let ?last = "cidr_ip b OR mask (host_bits b)"
    have hb: "host_bits b \<le> 32" using assms(2) by (auto simp: wf_cidr_def host_bits_def)
    have last: "unat ?last = unat (cidr_ip b) + (2 ^ host_bits b - 1)"
      using assms hb by (intro unat_or_mask_aligned) (auto simp: wf_cidr_def)
    have "?last \<in> cidr_set b" 
      unfolding cidr_set_iff [OF assms(2)] last using zero_less_power [of "2::nat" "host_bits b"] by linarith
    then have "?last \<in> cidr_set a" "cidr_ip b \<in> cidr_set a" using sub by auto
    then have "unat ?last < unat (cidr_ip a) + 2 ^ host_bits a" "unat (cidr_ip a) \<le> unat (cidr_ip b)"
      using assms(1) by (simp_all add: cidr_set_iff)
    then have "(2::nat) ^ host_bits b \<le> 2 ^ host_bits a" unfolding last by linarith
    then show ?thesis by simp
  qed
  moreover have "cidr_ip b \<in> cidr_set a" if "cidr_set b \<subseteq> cidr_set a" using that by auto
  ultimately show ?thesis using eq by blast
qed

lemma unionCollection_merge:
  assumes "wf_cidr i" "wf_cidr j" "before i j" "unionCollection i j"
  shows "wf_cidr (i\<lparr>cidr_len := cidr_len i - 1\<rparr>)"
    and "cidr_set (i\<lparr>cidr_len := cidr_len i - 1\<rparr>) = cidr_set i \<union> cidr_set j"
proof -
  let ?k = "host_bits i" and ?i = "i\<lparr>cidr_len := cidr_len i - 1\<rparr>"
  have len: "cidr_len i = cidr_len j" and k: "host_bits j = ?k"
    using assms(4) by (auto simp: unionCollection_def host_bits_def split: if_splits)
  have lt: "unat (cidr_ip i) < unat (cidr_ip j)"
    using assms(3) by (auto simp: before_def word_less_nat_alt)
  have "1 \<le> cidr_len i"
  proof (rule ccontr)
    assume "\<not> 1 \<le> cidr_len i"
    with assms(1,2) len have "cidr_len i = 0" "cidr_len j = 0" by (auto simp: wf_cidr_def)
    then have "cidr_ip i \<in> cidr_set j"
      using assms(2) lt unat_lt_32 [of "cidr_ip j"]
      by (simp add: wf_cidr_def aligned_iff_unat host_bits_def) (auto dest!: dvd_imp_le)
    then show False using assms(3) by (auto simp: before_def)
  qed
  then have shr: "shr_u32 x (32 - cidr_len i) = drop_bit ?k x" for x
    using assms by (intro shr_host_bits) (auto simp: wf_cidr_def)
  obtain p q where p: "unat (cidr_ip i) = 2 ^ ?k * p" and q: "unat (cidr_ip j) = 2 ^ ?k * q"
    using assms(1,2) k by (auto simp: wf_cidr_def aligned_iff_unat elim!: dvdE)
  have "unat (drop_bit ?k (cidr_ip i XOR cidr_ip j)) = 1"
    using assms(4) shr by (simp add: unionCollection_def split: if_splits)
  then have "p XOR q = 1"
    by (simp add: unat_drop_bit_eq unsigned_xor_eq drop_bit_xor p q) (simp add: drop_bit_eq_div)
  moreover have "p < q" using lt p q by simp
  ultimately have pq: "even p" "q = Suc p" by (rule xor_one_nat)+
  have k': "host_bits ?i = Suc ?k"
    using \<open>1 \<le> cidr_len i\<close> assms(1) by (auto simp: host_bits_def wf_cidr_def)
  have "2 ^ Suc ?k dvd unat (cidr_ip i)" using pq(1) p by (simp add: mult.commute)
  then show wf: "wf_cidr ?i"
    using \<open>1 \<le> cidr_len i\<close> assms(1) k' by (simp add: wf_cidr_def aligned_iff_unat)
  show "cidr_set ?i = cidr_set i \<union> cidr_set j"
    using cidr_set_iff [OF wf] cidr_set_iff [OF assms(1)] cidr_set_iff [OF assms(2)] p q pq(2) k k'
    by auto
qed

subsection \<open>The merge passes\<close>

text \<open>
  What both passes keep: every block well formed, and the blocks ordered without overlap.
\<close>

definition ordered_blocks :: "cidr list \<Rightarrow> bool" where
  "ordered_blocks cs \<longleftrightarrow> (\<forall>c\<in>set cs. wf_cidr c) \<and> sorted_wrt before cs"

abbreviation separate :: "cidr list \<Rightarrow> bool" where
  "separate cs \<equiv> successively (\<lambda>a b. \<not> unionCollection a b) cs"

lemma ordered_blocks_merge:
  assumes "ordered_blocks (xs @ i # j # ys)" "unionCollection i j"
  shows "ordered_blocks (xs @ i\<lparr>cidr_len := cidr_len i - 1\<rparr> # ys)"
    and "cover_set (xs @ i\<lparr>cidr_len := cidr_len i - 1\<rparr> # ys) = cover_set (xs @ i # j # ys)"
proof -
  have "wf_cidr i" "wf_cidr j" "before i j"
    using assms(1) by (auto simp: ordered_blocks_def sorted_wrt_append)
  note merge = unionCollection_merge [OF this assms(2)]
  then show "cover_set (xs @ i\<lparr>cidr_len := cidr_len i - 1\<rparr> # ys) = cover_set (xs @ i # j # ys)"
    by auto
  show "ordered_blocks (xs @ i\<lparr>cidr_len := cidr_len i - 1\<rparr> # ys)"
    using assms(1) merge by (auto simp: ordered_blocks_def sorted_wrt_append before_def)
qed

lemma second_pass_rules:
  "unionCollection i j \<Longrightarrow>
    second_pass [] i (j # js) = second_pass [] (i\<lparr>cidr_len := cidr_len i - 1\<rparr>) js"
  "unionCollection i j \<Longrightarrow>
    second_pass (p # ps) i (j # js) = second_pass ps p (i\<lparr>cidr_len := cidr_len i - 1\<rparr> # js)"
  "\<not> unionCollection i j \<Longrightarrow> second_pass pre i (j # js) = second_pass (i # pre) j js"
  by (simp_all add: Let_def)

declare second_pass.simps(2) [simp del] second_pass_rules [simp]

lemma second_pass_correct:
  assumes "ordered_blocks (rev pre @ i # js)" "separate (rev pre @ [i])"
  shows "ordered_blocks (second_pass pre i js) \<and> separate (second_pass pre i js) \<and>
    cover_set (second_pass pre i js) = cover_set (rev pre @ i # js)"
  using assms
proof (induction pre i js rule: second_pass.induct)
  case (1 pre i)
  then show ?case by simp
next
  case (2 pre i j js)
  show ?case
  proof (cases "unionCollection i j")
    case True
    note merge = ordered_blocks_merge [OF "2.prems"(1) True]
    show ?thesis
    proof (cases pre)
      case Nil
      then show ?thesis using "2.IH"(1) [OF True refl Nil] merge True by simp
    next
      case (Cons p ps)
      have "separate (rev ps @ [p])"
        using "2.prems"(2) Cons by (simp add: successively_append_iff)
      then show ?thesis using "2.IH"(2) [OF True refl Cons] merge True Cons by simp
    qed
  next
    case False
    then have "separate (rev (i # pre) @ [j])"
      using "2.prems"(2) by (simp add: successively_append_iff)
    then show ?thesis using "2.IH"(3) [OF False] "2.prems"(1) False by simp
  qed
qed

lemma second_pass_length: "length (second_pass pre i js) \<le> Suc (length pre + length js)"
proof (induction pre i js rule: second_pass.induct)
  case (2 pre i j js)
  then show ?case by (cases "unionCollection i j"; cases pre) (auto intro: le_SucI)
qed simp

lemma first_pass_distinct:
  "distinct (i # js) \<Longrightarrow> \<forall>c\<in>set (i # js). cidr_len c = 32 \<Longrightarrow> first_pass i js = i # js"
proof (induction i js rule: first_pass.induct)
  case (2 i j js)
  then have "\<not> isChildCollection i j"
    by (auto simp: isChildCollection_def shr_u32_def xor_zero_iff)
  with 2 show ?case by simp
qed simp

lemma sorted_hosts_before:
  assumes "sorted cs" "distinct cs" "\<forall>c\<in>set cs. cidr_len c = 32"
  shows "sorted_wrt before cs"
proof -
  have "sorted_wrt (<) cs" using assms(1,2) by (simp add: strict_sorted_iff)
  then show ?thesis
  proof (rule sorted_wrt_mono_rel [rotated])
    fix c d assume "c \<in> set cs" "d \<in> set cs" and less: "c < d"
    then have c: "c = CIDR (cidr_ip c) 32" and d: "d = CIDR (cidr_ip d) 32"
      using assms(3) by (metis CIDR_collapse)+
    have "cidr_ip c < cidr_ip d"
      using less \<open>c \<in> set cs\<close> \<open>d \<in> set cs\<close> assms(3) by (auto simp: less_cidr_ext_def)
    then show "before c d" by (subst c, subst d) (simp add: before_def)
  qed
qed

subsection \<open>The result of the range conversion\<close>

lemma split_range_whole:
  assumes "lo \<le> hi"
  shows "split_range 0 0 lo hi [] = (0, map block_cidr (cover_blocks 32 0 (unat lo) (Suc (unat hi))))"
proof -
  have "unat hi < unat (0::u32) + 2 ^ 32" using unat_lt_32 [of hi] by simp
  then have "split_range 0 (32 - int 32) lo hi [] =
      (0, [] @ map block_cidr (cover_blocks 32 (unat (0::u32)) (unat lo) (Suc (unat hi))))"
    using assms by (intro split_range_blocks) (simp_all add: word_le_nat_alt)
  then show ?thesis by simp
qed

lemma iprange_to_cidrs_chain:
  assumes "0 \<le> cidr_len f" "cidr_len f \<le> 32" "0 \<le> cidr_len t" "cidr_len t \<le> 32"
    and lo: "lo = network (cidr_ip f) (cidr_len f)" and hi: "hi = broadcast (cidr_ip t) (cidr_len t)"
    and "lo \<le> hi"
  obtains bs where "iprange_to_cidrs f t = map block_cidr bs"
    "chain (unat lo) bs (Suc (unat hi))" "Suc (unat hi) \<le> 2 ^ 32" "length bs \<le> 62"
proof
  show "iprange_to_cidrs f t = map block_cidr (cover_blocks 32 0 (unat lo) (Suc (unat hi)))"
    using assms split_range_whole [OF assms(7)] by (simp add: iprange_to_cidrs_def Let_def)
  have "unat lo < Suc (unat hi)" using assms(7) by (simp add: word_le_nat_alt)
  moreover show le: "Suc (unat hi) \<le> 2 ^ 32" using unat_lt_32 [of hi] by simp
  ultimately show "chain (unat lo) (cover_blocks 32 0 (unat lo) (Suc (unat hi))) (Suc (unat hi))"
    "length (cover_blocks 32 0 (unat lo) (Suc (unat hi))) \<le> 62"
    using cover_blocks_chain [of 32 0 "unat lo" "Suc (unat hi)"]
      cover_blocks_length [of 0 "unat lo" "Suc (unat hi)" 32] by simp_all
qed

section \<open>Properties\<close>

lemma iprange_to_cidrs_cover:
  assumes "0 \<le> cidr_len f" "cidr_len f \<le> 32" "0 \<le> cidr_len t" "cidr_len t \<le> 32"
    and "network (cidr_ip f) (cidr_len f) \<le> broadcast (cidr_ip t) (cidr_len t)"
  shows "cover_set (iprange_to_cidrs f t) =
      {network (cidr_ip f) (cidr_len f) .. broadcast (cidr_ip t) (cidr_len t)} \<and>
    ordered_blocks (iprange_to_cidrs f t) \<and> length (iprange_to_cidrs f t) \<le> 62"
proof -
  obtain bs where res: "iprange_to_cidrs f t = map block_cidr bs" and len: "length bs \<le> 62"
    and ch: "chain (unat (network (cidr_ip f) (cidr_len f))) bs
      (Suc (unat (broadcast (cidr_ip t) (cidr_len t))))"
    and top: "Suc (unat (broadcast (cidr_ip t) (cidr_len t))) \<le> 2 ^ 32"
    by (rule iprange_to_cidrs_chain [OF assms(1-4) refl refl assms(5)])
  show ?thesis
    using chain_cover_set [OF ch top] chain_before [OF ch top] block_cidr_facts(1) [OF ch top] len
    by (auto simp: res word_le_nat_alt ordered_blocks_def)
qed

text \<open>C2: for a range whose ends are given by prefixes of length 0 to 32, with the first
  address not after the last, \<open>iprange_to_cidrs\<close> returns well-formed blocks, in address order
  and without overlap, that cover exactly the addresses from the network address of
  \<open>from\<close> to the broadcast address of \<open>to\<close>; there are at most 62 of them.\<close>

theorem iprange_to_cidrs_exact:
  assumes "0 \<le> cidr_len f" "cidr_len f \<le> 32" "0 \<le> cidr_len t" "cidr_len t \<le> 32"
    and "network (cidr_ip f) (cidr_len f) \<le> broadcast (cidr_ip t) (cidr_len t)"
  shows "cover_set (iprange_to_cidrs f t) =
      {network (cidr_ip f) (cidr_len f) .. broadcast (cidr_ip t) (cidr_len t)} \<and>
    ordered_blocks (iprange_to_cidrs f t) \<and> length (iprange_to_cidrs f t) \<le> 62"
  by (rule iprange_to_cidrs_cover [OF assms])

theorem iprange_to_cidrs_exact_witness:
  "cover_set (iprange_to_cidrs (CIDR 167772161 32) (CIDR 167772166 32)) = {167772161 .. 167772166} \<and>
   iprange_to_cidrs (CIDR 167772161 32) (CIDR 167772166 32) =
     [CIDR 167772161 32, CIDR 167772162 31, CIDR 167772164 31, CIDR 167772166 32]"
proof -
  have "network 167772161 32 = 167772161" "broadcast 167772166 32 = 167772166"
    by (simp_all add: network_def broadcast_def netmask_def shl_one_def)
  then have "cover_set (iprange_to_cidrs (CIDR 167772161 32) (CIDR 167772166 32)) =
      {167772161 .. 167772166}"
    using iprange_to_cidrs_exact [of "CIDR 167772161 32" "CIDR 167772166 32"] by simp
  moreover have "iprange_to_cidrs (CIDR 167772161 32) (CIDR 167772166 32) =
     [CIDR 167772161 32, CIDR 167772162 31, CIDR 167772164 31, CIDR 167772166 32]"
    by code_simp
  ultimately show ?thesis by simp
qed

text \<open>When the first address lies after the last, \<open>split_range\<close> fails and
  \<open>iprange_to_cidrs\<close> returns no block, whatever partial result the recursion had built.\<close>

lemma iprange_to_cidrs_inverted:
  assumes "broadcast (cidr_ip t) (cidr_len t) < network (cidr_ip f) (cidr_len f)"
  shows "iprange_to_cidrs f t = []"
  using split_range_inverted [OF assms, of 0 0 "[]"]
  by (auto simp: iprange_to_cidrs_def Let_def split: prod.splits)

text \<open>C1: on a non-empty table of distinct addresses \<open>cidr_merge\<close> returns well-formed blocks,
  in address order and without overlap, that cover exactly the addresses of the table, and
  no two neighbouring blocks of the result can be merged any further.\<close>

theorem cidr_merge_exact:
  assumes "ip_map \<noteq> []" "distinct (map fst ip_map)"
  shows "\<exists>cs. cidr_merge ip_map = Some cs \<and> cover_set cs = fst ` set ip_map \<and>
    ordered_blocks cs \<and> successively (\<lambda>a b. \<not> unionCollection a b) cs \<and>
    length cs \<le> length ip_map"
proof -
  define ipl where "ipl = sort (map (\<lambda>e. CIDR (fst e) 32) ip_map)"
  have "inj_on (\<lambda>e. CIDR (fst e) 32) (set ip_map)"
    using assms(2) by (auto simp: inj_on_def distinct_map)
  then have dist: "distinct ipl" using assms(2) by (simp add: ipl_def distinct_map)
  have hosts: "\<forall>c\<in>set ipl. cidr_len c = 32 \<and> wf_cidr c" by (auto simp: ipl_def)
  have len: "length ipl = length ip_map" and srt: "sorted ipl" by (simp_all add: ipl_def)
  then obtain i js where ij: "ipl = i # js" using assms(1) by (cases ipl) auto
  have ord: "ordered_blocks ipl"
    using sorted_hosts_before [OF srt dist] hosts by (simp add: ordered_blocks_def)
  have cover: "cover_set ipl = fst ` set ip_map" by (auto simp: ipl_def cover_set_def)
  have "cidr_merge ip_map = Some (second_pass [] i js)"
    using first_pass_distinct [of i js] dist hosts ij
    by (simp add: cidr_merge_def flip: ipl_def) (simp add: first_step_merge_def second_step_merge_def)
  moreover have "separate (rev [] @ [i])" by simp
  ultimately show ?thesis
    using second_pass_correct [of "[]" i js] second_pass_length [of "[]" i js] ord cover ij len by simp
qed

theorem cidr_merge_exact_witness:
  "\<exists>cs. cidr_merge [(5, 1), (4, 9), (7, 2), (6, 2), (9, 1)] = Some cs \<and>
     cover_set cs = {4, 5, 6, 7, 9} \<and> cs = [CIDR 4 30, CIDR 9 32]"
proof -
  have "cidr_merge [(5, 1), (4, 9), (7, 2), (6, 2), (9, 1)] = Some [CIDR 4 30, CIDR 9 32]"
    by code_simp
  then show ?thesis
    using cidr_merge_exact [of "[(5, 1), (4, 9), (7, 2), (6, 2), (9, 1)]"] by auto
qed

section \<open>The second pass ends\<close>

text \<open>One turn of the \<open>while\<close> loop of \<open>second_step_merge\<close>, from the elements before \<open>i\<close> in reverse, \<open>i\<close>
  itself and the elements from \<open>j\<close> on; \<open>None\<close> is the end of the loop.\<close>

definition second_turn :: "cidr list \<times> cidr \<times> cidr list \<Rightarrow> (cidr list \<times> cidr \<times> cidr list) option" where
  "second_turn = (\<lambda>(pre, i, rest). case rest of
       [] \<Rightarrow> None
     | j # js \<Rightarrow> Some (if unionCollection i j then
         let i' = i\<lparr>cidr_len := cidr_len i - 1\<rparr> in (case pre of [] \<Rightarrow> ([], i', js) | p # ps \<Rightarrow> (ps, p, i' # js))
       else (i # pre, j, js)))"

text \<open>At most \<open>n\<close> turns.\<close>

fun second_turns :: "nat \<Rightarrow> cidr list \<times> cidr \<times> cidr list \<Rightarrow> cidr list \<times> cidr \<times> cidr list" where
  "second_turns 0 st = st"
| "second_turns (Suc n) st = (case second_turn st of None \<Rightarrow> st | Some st' \<Rightarrow> second_turns n st')"

text \<open>A turn takes an element from the rest, or one from before \<open>i\<close> with the rest as long as it was.\<close>

lemma second_turns_end:
  "2 * length js + length pre \<le> n \<Longrightarrow>
   \<exists>dn k. second_turns n (pre, i, js) = (dn, k, []) \<and> second_pass pre i js = rev dn @ [k]"
proof (induction n arbitrary: pre i js)
  case (Suc n)
  show ?case
  proof (cases js)
    case Nil
    then show ?thesis by (simp add: second_turn_def)
  next
    case (Cons j js')
    show ?thesis
    proof (cases "unionCollection i j")
      case True
      then show ?thesis using Suc.prems Suc.IH by (cases pre) (auto simp: Cons second_turn_def Let_def)
    next
      case False
      then show ?thesis using Suc.prems Suc.IH [of js' "i # pre" j] by (simp add: Cons second_turn_def)
    qed
  qed
qed simp

text \<open>C16: the loop that merges neighbouring blocks ends, although it steps back after every merge: on \<open>n\<close> blocks it
  takes at most \<open>2 (n - 1)\<close> turns, and what the list then holds is the result of the pass.\<close>

theorem second_step_merge_ends:
  "\<exists>dn k. second_turns (2 * length js) ([], i, js) = (dn, k, []) \<and> second_turn (dn, k, []) = None \<and>
    second_step_merge (i # js) = Some (rev dn @ [k])"
  using second_turns_end [of js "[]" "2 * length js" i] by (auto simp: second_step_merge_def second_turn_def)

end
