(* ===== verification/Task_Values.thy ===== *)
theory Task_Values
  imports Doubles Containers Cidr Handlers
begin

text \<open>
  What the tasks exchange: the structures of \<open>dni/tasks/snding/snding_defines.h\<close> and the sum
  \<open>val\<close> of the types the tasks put into a \<open>Datum\<close>, one constructor per C++ type; a cast to a
  type succeeds on its constructor only. Below them, the steps the task bodies are made of (reading
  an input, emitting a value) and the contract most tasks share: reject the inputs and change
  nothing, or emit one value on the first output.
\<close>

section \<open>Structures\<close>

text \<open>\<open>std::unordered_set\<close> is a list without repetition, \<open>std::unordered_map\<close> an association list.
  \<open>packet_total\<close> has no initialiser in the source, but every object is made by
  \<open>operator[]\<close> of a map, which value-initialises it.\<close>

record sip_merge_result =
  mr_packet_total :: int
  mr_sport :: "u32 list"
  mr_dport :: "u32 list"
  mr_length :: "u32 list"
  mr_protocol :: "(int \<times> int) list"
  mr_dstIP :: "u32 list"

definition SIPBaseMergeResult :: sip_merge_result where
  "SIPBaseMergeResult = \<lparr>mr_packet_total = 0, mr_sport = [], mr_dport = [], mr_length = [], mr_protocol = [], mr_dstIP = []\<rparr>"

record number_stats =
  ns_stat_type :: string
  ns_value :: "u32 list"

record sip_stats =
  st_hostNicSign :: string
  st_isSrcIPRandom :: bool
  st_srcIP :: cidr
  st_dstIP :: number_stats
  st_srcPort :: number_stats
  st_dstPort :: number_stats
  st_length :: number_stats
  st_protocol :: "(int \<times> string) list"

definition SIPBaseMergeStats :: sip_stats where
  "SIPBaseMergeStats = \<lparr>st_hostNicSign = [], st_isSrcIPRandom = False, st_srcIP = CIDR 0 32,
     st_dstIP = \<lparr>ns_stat_type = [], ns_value = []\<rparr>, st_srcPort = \<lparr>ns_stat_type = [], ns_value = []\<rparr>,
     st_dstPort = \<lparr>ns_stat_type = [], ns_value = []\<rparr>, st_length = \<lparr>ns_stat_type = [], ns_value = []\<rparr>, st_protocol = []\<rparr>"

record attacker_result =
  ar_attackerIPs :: "cidr list"
  ar_containRandomAttack :: bool
  ar_randomIPs :: "u32 list"

record dms_rule =
  dr_hostNicSign :: string
  dr_srcIP :: cidr
  dr_dstIP :: cidr
  dr_sPort :: string
  dr_dPort :: string
  dr_length :: string
  dr_protocol :: int
  dr_action :: string
  dr_limitMode :: string
  dr_limitMaxValue :: int

section \<open>Values\<close>

text \<open>\<open>VCountsPtr\<close> is a pointer to a map of counts, \<open>VRows\<close> one to a vector of rows and
  \<open>VBytes\<close> one into a buffer, each with what it points to.\<close>

datatype val =
    VDouble double
  | VDoubles "double list"
  | VInt int
  | VU64 nat
  | VString string
  | VPackets "(string \<times> u32) list list"
  | VCounts "(u32 \<times> int) list"
  | VCountsPtr "(u32 \<times> int) list"
  | VIPs "u32 list"
  | VRows "u32 list list"
  | VBytes "8 word list"
  | VAttackers attacker_result
  | VStats "(string \<times> sip_stats) list"
  | VRecords "(string \<times> (string \<times> string) list) list"
  | VLinks "(string \<times> string list) list"
  | VRules "(string \<times> dms_rule list) list"

definition as_double :: "val \<Rightarrow> double option" where
  "as_double v = (case v of VDouble x \<Rightarrow> Some x | _ \<Rightarrow> None)"

definition as_doubles :: "val \<Rightarrow> double list option" where
  "as_doubles v = (case v of VDoubles x \<Rightarrow> Some x | _ \<Rightarrow> None)"

definition as_string :: "val \<Rightarrow> string option" where
  "as_string v = (case v of VString x \<Rightarrow> Some x | _ \<Rightarrow> None)"

definition as_packets :: "val \<Rightarrow> (string \<times> u32) list list option" where
  "as_packets v = (case v of VPackets x \<Rightarrow> Some x | _ \<Rightarrow> None)"

definition as_counts :: "val \<Rightarrow> (u32 \<times> int) list option" where
  "as_counts v = (case v of VCounts x \<Rightarrow> Some x | _ \<Rightarrow> None)"

definition as_counts_ptr :: "val \<Rightarrow> (u32 \<times> int) list option" where
  "as_counts_ptr v = (case v of VCountsPtr x \<Rightarrow> Some x | _ \<Rightarrow> None)"

definition as_ips :: "val \<Rightarrow> u32 list option" where
  "as_ips v = (case v of VIPs x \<Rightarrow> Some x | _ \<Rightarrow> None)"

definition as_rows :: "val \<Rightarrow> u32 list list option" where
  "as_rows v = (case v of VRows x \<Rightarrow> Some x | _ \<Rightarrow> None)"

definition as_bytes :: "val \<Rightarrow> 8 word list option" where
  "as_bytes v = (case v of VBytes x \<Rightarrow> Some x | _ \<Rightarrow> None)"

definition as_attackers :: "val \<Rightarrow> attacker_result option" where
  "as_attackers v = (case v of VAttackers x \<Rightarrow> Some x | _ \<Rightarrow> None)"

definition as_stats :: "val \<Rightarrow> (string \<times> sip_stats) list option" where
  "as_stats v = (case v of VStats x \<Rightarrow> Some x | _ \<Rightarrow> None)"

definition as_records :: "val \<Rightarrow> (string \<times> (string \<times> string) list) list option" where
  "as_records v = (case v of VRecords x \<Rightarrow> Some x | _ \<Rightarrow> None)"

lemmas as_defs = as_double_def as_doubles_def as_string_def as_packets_def as_counts_def
  as_counts_ptr_def as_ips_def as_rows_def as_bytes_def
  as_attackers_def as_stats_def as_records_def

section \<open>Steps of a task body\<close>

definition input_at :: "('v \<Rightarrow> 'a option) \<Rightarrow> 'v input_stream collection \<Rightarrow> int \<Rightarrow> 'a option outcome" where
  "input_at cast ins i = bindE (c_at ins i) (\<lambda>s. Inr (fst (Consume cast (is_Value s))))"

definition input_get :: "('v \<Rightarrow> 'a option) \<Rightarrow> 'v input_stream collection \<Rightarrow> string \<Rightarrow> int \<Rightarrow> 'a option outcome" where
  "input_get cast ins tag i = bindE (Get ins tag i) (\<lambda>s. Inr (fst (Consume cast (is_Value s))))"

abbreviation input_tag :: "('v \<Rightarrow> 'a option) \<Rightarrow> 'v input_stream collection \<Rightarrow> string \<Rightarrow> 'a option outcome" where
  "input_tag cast ins tag \<equiv> input_get cast ins tag 0"

text \<open>\<open>ctx->Outputs()[i].AddDatum(Datum(v))\<close>: the datum has the indeterminate timestamp \<open>junk\<close>.\<close>

definition emit :: "int \<Rightarrow> int \<Rightarrow> 'v \<Rightarrow> 'v task_context \<Rightarrow> 'v task_context outcome" where
  "emit junk i v ctx = bindE (c_at (ctx_outputs ctx) i) (\<lambda>s.
     Inr (ctx\<lparr>ctx_outputs := c_put (ctx_outputs ctx) i (os_AddDatum (Datum_val junk v) s)\<rparr>))"

text \<open>\<open>ctx->Outputs().Get(tag, i).AddDatum(Datum(v))\<close>.\<close>

definition emit_tag :: "int \<Rightarrow> string \<Rightarrow> int \<Rightarrow> 'v \<Rightarrow> 'v task_context \<Rightarrow> 'v task_context outcome" where
  "emit_tag junk tag i v ctx = bindE (Modify (ctx_outputs ctx) tag i (os_AddDatum (Datum_val junk v)))
     (\<lambda>c. Inr (ctx\<lparr>ctx_outputs := c\<rparr>))"

text \<open>\<open>if (!opt) return -1;\<close> followed by the rest of the body.\<close>

definition need :: "'a option outcome \<Rightarrow> ('a \<Rightarrow> 'b option outcome) \<Rightarrow> 'b option outcome" where
  "need x k = bindE x (\<lambda>v. case v of None \<Rightarrow> Inr None | Some a \<Rightarrow> k a)"

lemma need_simps [simp]:
  "need (Inl e) k = Inl e" "need (Inr None) k = Inr None" "need (Inr (Some a)) k = k a"
  by (simp_all add: need_def)

lemma need_cong: "(\<And>a. k a = k' a) \<Longrightarrow> need x k = need x k'"
  by (simp add: need_def cong: option.case_cong)

text \<open>The end of most bodies: emit the value on output 0 and return 0, or return -1.\<close>

definition finish :: "int \<Rightarrow> 'v task_context \<Rightarrow> 'v option outcome \<Rightarrow> (int \<times> 'v task_context) outcome" where
  "finish junk ctx x = bindE x (\<lambda>v. case v of
       None \<Rightarrow> Inr (- 1, ctx)
     | Some v \<Rightarrow> bindE (emit junk 0 v ctx) (\<lambda>ctx. Inr (0, ctx)))"

lemma finish_simps [simp]:
  "finish junk ctx (Inl e) = Inl e" "finish junk ctx (Inr None) = Inr (- 1, ctx)"
  by (simp_all add: finish_def)

text \<open>A loop over the inputs that reads one value of each, with early return.\<close>

fun each_input ::
  "('v \<Rightarrow> 'a option) \<Rightarrow> 'v input_stream collection \<Rightarrow> ('a \<Rightarrow> 's \<Rightarrow> 's) \<Rightarrow> int list \<Rightarrow> 's \<Rightarrow> 's option outcome" where
  "each_input cast ins f [] s = Inr (Some s)"
| "each_input cast ins f (i # is) s = need (input_at cast ins i) (\<lambda>x. each_input cast ins f is (f x s))"

text \<open>A task as the node calls it: these tasks keep their state and write no side data.\<close>

definition task_of :: "('s \<Rightarrow> 'v task_context \<Rightarrow> (int \<times> 'v task_context) outcome) \<Rightarrow> 's \<Rightarrow> 'v task_context \<Rightarrow> 'v datum list \<Rightarrow>
    (int \<times> 's \<times> 'v task_context \<times> (int \<times> 'v datum) list) outcome" where
  "task_of process s ctx side = bindE (process s ctx) (\<lambda>(rc, ctx'). Inr (rc, s, ctx', []))"

section \<open>Reading inputs\<close>

text \<open>The value at the head of each input, as the cast sees it.\<close>

definition heads :: "('v \<Rightarrow> 'a option) \<Rightarrow> 'v input_stream collection \<Rightarrow> 'a option list" where
  "heads cast ins = map (\<lambda>s. fst (Consume cast (is_Value s))) (c_data ins)"

lemma length_heads [simp]: "length (heads cast ins) = length (c_data ins)"
  by (simp add: heads_def)

lemma input_at_heads:
  "input_at cast ins i = (if 0 \<le> i \<and> i < int (length (heads cast ins)) then Inr (heads cast ins ! nat i) else Inl Undefined)"
  by (auto simp: input_at_def c_at_def heads_def nat_less_iff)

definition complete :: "'a collection \<Rightarrow> bool" where
  "complete c \<longleftrightarrow> c_size c = int (length (c_data c))"

lemma each_input_from:
  "n \<le> length (c_data ins) \<Longrightarrow> each_input cast ins f (map int [n..<length (c_data ins)]) s =
     (if None \<in> set (drop n (heads cast ins)) then Inr None
      else Inr (Some (fold f (map the (drop n (heads cast ins))) s)))"
proof (induction "length (c_data ins) - n" arbitrary: n s)
  case 0
  then show ?case by simp
next
  case (Suc k)
  then have n: "n < length (c_data ins)" by simp
  have up: "[n..<length (c_data ins)] = n # [Suc n..<length (c_data ins)]" using n by (simp add: upt_conv_Cons)
  have d: "drop n (heads cast ins) = heads cast ins ! n # drop (Suc n) (heads cast ins)"
    using n by (simp add: Cons_nth_drop_Suc)
  show ?case
  proof (cases "heads cast ins ! n")
    case None
    then show ?thesis using n by (simp add: up d input_at_heads)
  next
    case (Some x)
    then show ?thesis using Suc.hyps(1) [of "Suc n" "f x s"] Suc.hyps(2) n by (simp add: up d input_at_heads)
  qed
qed

lemma each_input_all:
  assumes "complete ins"
  shows "each_input cast ins f (map int [0..<nat (c_size ins)]) s =
    (if None \<in> set (heads cast ins) then Inr None else Inr (Some (fold f (map the (heads cast ins)) s)))"
  using each_input_from [of 0 ins cast f s] assms by (simp add: complete_def)

section \<open>The contract of a task\<close>

text \<open>A context that takes one more datum on its first output, and what it is then.\<close>

definition can_emit :: "int \<Rightarrow> 'v task_context \<Rightarrow> bool" where
  "can_emit junk ctx \<longleftrightarrow> c_data (ctx_outputs ctx) \<noteq> [] \<and> \<not> os_closed (hd (c_data (ctx_outputs ctx))) \<and>
     TimestampBegin < junk \<and> junk < TimestampEnd"

definition emitted :: "'v datum \<Rightarrow> 'v task_context \<Rightarrow> 'v task_context" where
  "emitted d ctx = ctx\<lparr>ctx_outputs := (ctx_outputs ctx)\<lparr>c_data := (case c_data (ctx_outputs ctx) of
     [] \<Rightarrow> [] | o1 # os \<Rightarrow> o1\<lparr>os_queue := os_queue o1 @ [d]\<rparr> # os)\<rparr>\<rparr>"

lemma emit_emitted: "can_emit junk ctx \<Longrightarrow> emit junk 0 v ctx = Inr (emitted (Datum_val junk v) ctx)"
  by (cases "c_data (ctx_outputs ctx)")
    (simp_all add: can_emit_def emit_def emitted_def c_at_def c_put_def os_AddDatum_open os_good_def)

text \<open>
  \<open>process\<close> is a task's \<open>Process\<close>, \<open>verdict\<close> what it computes from its inputs: an error,
  a rejection (\<open>None\<close>) or the value it emits. The law says that nothing else happens.
\<close>

locale emitting_task =
  fixes process :: "'s \<Rightarrow> int \<Rightarrow> 'v task_context \<Rightarrow> (int \<times> 'v task_context) outcome"
    and verdict :: "'s \<Rightarrow> 'v input_stream collection \<Rightarrow> 'v option outcome"
    and valid :: "'s \<Rightarrow> 'v input_stream collection \<Rightarrow> bool"
  assumes process_verdict: "valid s (ctx_inputs ctx) \<Longrightarrow> process s junk ctx = finish junk ctx (verdict s (ctx_inputs ctx))"
begin

lemma rejects:
  "valid s (ctx_inputs ctx) \<Longrightarrow> verdict s (ctx_inputs ctx) = Inr None \<Longrightarrow> process s junk ctx = Inr (- 1, ctx)"
  by (simp add: process_verdict)

lemma emits:
  "valid s (ctx_inputs ctx) \<Longrightarrow> verdict s (ctx_inputs ctx) = Inr (Some v) \<Longrightarrow> can_emit junk ctx \<Longrightarrow>
     process s junk ctx = Inr (0, emitted (Datum_val junk v) ctx)"
  by (simp add: process_verdict finish_def emit_emitted)

text \<open>The inputs, the timestamps and the other outputs of the context stay as they were, whatever the verdict.\<close>

lemma frame:
  assumes "valid s (ctx_inputs ctx)" "process s junk ctx = Inr (rc, ctx')"
  shows "ctx_inputs ctx' = ctx_inputs ctx \<and> ctx_timestamps ctx' = ctx_timestamps ctx \<and>
    length (c_data (ctx_outputs ctx')) = length (c_data (ctx_outputs ctx)) \<and>
    tl (c_data (ctx_outputs ctx')) = tl (c_data (ctx_outputs ctx))"
proof -
  have "tl ((c_data (ctx_outputs ctx))[0 := x]) = tl (c_data (ctx_outputs ctx))" for x
    by (cases "c_data (ctx_outputs ctx)") simp_all
  then show ?thesis using assms(2)
    by (auto simp: process_verdict [OF assms(1)] finish_def emit_def c_put_def bindE_def split: sum.splits option.splits)
qed

end

section \<open>Example contexts\<close>

text \<open>Inputs that hold one value each, and one output.\<close>

definition demo_inputs :: "(string \<times> tag_data) list \<Rightarrow> val list \<Rightarrow> val input_stream collection" where
  "demo_inputs tags vs = \<lparr>c_tags = \<lparr>tm_data = tags, tm_names = map (\<lambda>_. ''i'') vs, tm_total = int (length vs)\<rparr>,
     c_data = map (\<lambda>v. InputStream0\<lparr>is_queue := [Datum_ts v 1]\<rparr>) vs\<rparr>"

definition plain_tags :: "nat \<Rightarrow> (string \<times> tag_data) list" where
  "plain_tags n = [('''', \<lparr>td_base = 0, td_count = int n\<rparr>)]"

definition demo_ctx :: "val input_stream collection \<Rightarrow> val task_context" where
  "demo_ctx ins = \<lparr>ctx_inputs = ins, ctx_outputs = \<lparr>c_tags = \<lparr>tm_data = plain_tags 1, tm_names = [''o''], tm_total = 1\<rparr>,
     c_data = [OutputStream0]\<rparr>, ctx_timestamps = []\<rparr>"

lemma demo_ctx_simps [simp]:
  "ctx_inputs (demo_ctx ins) = ins" "c_data (ctx_outputs (demo_ctx ins)) = [OutputStream0]"
  "c_data (demo_inputs tags vs) = map (\<lambda>v. InputStream0\<lparr>is_queue := [Datum_ts v 1]\<rparr>) vs"
  "complete (demo_inputs tags vs)"
  "heads cast (demo_inputs tags vs) = map cast vs"
  by (simp_all add: demo_ctx_def demo_inputs_def complete_def c_size_def NStreams_def heads_def Consume_def is_Value_def
      Datum_ts_def)

lemma demo_can_emit [simp]: "can_emit 1 (demo_ctx ins)"
  by (simp add: can_emit_def OutputStream0_def ts_defs)

end
