(* ===== verification/Core_Tasks.thy ===== *)
theory Core_Tasks
  imports Task_Values
begin

text \<open>
  The general tasks of \<open>dni/tasks/core\<close>: \<open>threshold_task.cc\<close>, \<open>cond_threshold_task.cc\<close>,
  \<open>max_task.cc\<close>, \<open>sum_task.cc\<close>, \<open>counter_task.cc\<close> and \<open>transparent_task.cc\<close>. The options of a
  task are a record with the fields of its protobuf message. Each task but the last is shown
  to keep the contract \<open>emitting_task\<close>.
\<close>

section \<open>Thresholds\<close>

record threshold_options =
  th_scores :: "(double \<times> double) list"
  th_default :: "double option"

record threshold_task =
  tt_tsmap :: "(double \<times> double) list"
  tt_default :: double

definition ThresholdTask :: threshold_task where
  "ThresholdTask = \<lparr>tt_tsmap = [], tt_default = Fin 0\<rparr>"

text \<open>\<open>tsmap_[threshold] = score\<close>. A map that holds NaN together with another key has no strict
  weak ordering, which \<open>std::map\<close> requires.\<close>

definition ts_put :: "double \<times> double \<Rightarrow> (double \<times> double) list \<Rightarrow> (double \<times> double) list outcome" where
  "ts_put ts m =
     (if list_ex (\<lambda>e. (fst e = NaN) \<noteq> (fst ts = NaN)) m then Inl Undefined
      else Inr (om_insert (fst ts) (snd ts) m))"

definition ThresholdTask_Open :: "threshold_options \<Rightarrow> threshold_task \<Rightarrow> (int \<times> threshold_task) outcome" where
  "ThresholdTask_Open opts t =
     (if th_scores opts = [] then Inr (- 1, t)
      else bindE (foldE ts_put (th_scores opts) (tt_tsmap t)) (\<lambda>m.
        Inr (0, \<lparr>tt_tsmap = m, tt_default = (case th_default opts of None \<Rightarrow> tt_default t | Some d \<Rightarrow> d)\<rparr>)))"

fun scan_thresholds :: "double \<Rightarrow> (double \<times> double) list \<Rightarrow> double \<Rightarrow> double" where
  "scan_thresholds stat [] score = score"
| "scan_thresholds stat ((t, s) # m) score = (if dge stat t then scan_thresholds stat m s else score)"

definition ThresholdTask_Process :: "threshold_task \<Rightarrow> int \<Rightarrow> val task_context \<Rightarrow> (int \<times> val task_context) outcome" where
  "ThresholdTask_Process t junk ctx = finish junk ctx
     (need (input_at as_double (ctx_inputs ctx) 0) (\<lambda>stat.
       Inr (Some (VDouble (scan_thresholds stat (tt_tsmap t) (tt_default t))))))"

text \<open>What the scan is for: the score of the greatest threshold that the statistic reaches.\<close>

definition best_score :: "(double \<times> double) list \<Rightarrow> double \<Rightarrow> double \<Rightarrow> double" where
  "best_score m dflt x = (let reached = {t \<in> fst ` set m. dge x t} in
     if reached = {} then dflt else the (map_of m (Max reached)))"

definition ts_ok :: "(double \<times> double) list \<Rightarrow> bool" where
  "ts_ok m \<longleftrightarrow> om_invar m \<and> NaN \<notin> fst ` set m"

lemma scan_is_best: "ts_ok m \<Longrightarrow> scan_thresholds x m dflt = best_score m dflt x"
proof (induction m arbitrary: dflt)
  case Nil
  then show ?case by (simp add: best_score_def)
next
  case (Cons e m)
  obtain t s where e: "e = (t, s)" by (cases e)
  define R where "R = {k \<in> fst ` set m. dge x k}"
  have m: "ts_ok m" and above: "\<forall>k\<in>fst ` set m. t < k" and t: "t \<noteq> NaN" using Cons.prems by (auto simp: e ts_ok_def)
  have fin: "finite R" by (simp add: R_def)
  show ?case
  proof (cases "dge x t")
    case False
    have "\<not> dge x k" if "k \<in> fst ` set m" for k
      using False above that t by (force simp: dge_def)
    then have "{k \<in> fst ` set (e # m). dge x k} = {}" using False by (auto simp: e)
    then show ?thesis using False by (simp add: e best_score_def)
  next
    case True
    then have R': "{k \<in> fst ` set (e # m). dge x k} = insert t R" by (auto simp: e R_def)
    have "Max (insert t R) = Max R \<and> Max R \<noteq> t" if "R \<noteq> {}"
    proof -
      have "Max R \<in> R" using fin that by simp
      then have "t < Max R" using above by (auto simp: R_def)
      then show ?thesis using fin that by (auto simp: max_def)
    qed
    moreover have "best_score (e # m) dflt x = the (map_of (e # m) (Max (insert t R)))"
      by (simp only: best_score_def R' Let_def) simp
    moreover have "best_score m s x = (if R = {} then s else the (map_of m (Max R)))"
      by (simp add: best_score_def R_def Let_def)
    ultimately show ?thesis using Cons.IH [OF m, of s] True by (auto simp: e)
  qed
qed

definition ThresholdTask_verdict :: "threshold_task \<Rightarrow> val input_stream collection \<Rightarrow> val option outcome" where
  "ThresholdTask_verdict t ins = need (input_at as_double ins 0) (\<lambda>x. Inr (Some (VDouble (best_score (tt_tsmap t) (tt_default t) x))))"

interpretation threshold: emitting_task ThresholdTask_Process ThresholdTask_verdict "\<lambda>t _. ts_ok (tt_tsmap t)"
  by unfold_locales (simp add: ThresholdTask_Process_def ThresholdTask_verdict_def scan_is_best)

text \<open>Opening a task with thresholds that are numbers.\<close>

lemma ts_put_fold:
  assumes "\<forall>e\<in>set scores. fst e \<noteq> NaN" "ts_ok m"
  shows "foldE ts_put scores m = Inr (fold (\<lambda>e. om_insert (fst e) (snd e)) scores m) \<and>
    ts_ok (fold (\<lambda>e. om_insert (fst e) (snd e)) scores m)"
  using assms
proof (induction scores arbitrary: m)
  case (Cons e scores)
  have "ts_put e m = Inr (om_insert (fst e) (snd e) m)"
    using Cons.prems by (force simp: ts_put_def ts_ok_def list_ex_iff)
  moreover have "ts_ok (om_insert (fst e) (snd e) m)"
    using Cons.prems by (auto simp: ts_ok_def om_update_keys om_invar_update)
  ultimately show ?case using Cons by simp
qed simp

lemma om_build_lookup:
  "map_of (fold (\<lambda>e. om_insert (fst e) (snd e)) xs []) = map_of (rev xs)"
proof (induction xs rule: rev_induct)
  case (snoc e xs)
  have "om_invar (fold (\<lambda>e. om_insert (fst e) (snd e)) xs [])"
    using omap.invar_fold [of "[]" fst "\<lambda>e _. snd e" xs] by simp
  then show ?case using snoc by (cases e) (simp add: om_lookup_update fun_eq_iff)
qed simp

lemma ThresholdTask_Open_ok:
  assumes "th_scores opts \<noteq> []" "\<forall>e\<in>set (th_scores opts). fst e \<noteq> NaN"
  shows "\<exists>m. ThresholdTask_Open opts ThresholdTask = Inr (0, \<lparr>tt_tsmap = m,
      tt_default = (case th_default opts of None \<Rightarrow> Fin 0 | Some d \<Rightarrow> d)\<rparr>) \<and>
    ts_ok m \<and> map_of m = map_of (rev (th_scores opts))"
  using ts_put_fold [OF assms(2), of "[]"] assms(1)
  by (simp add: ThresholdTask_Open_def ThresholdTask_def ts_ok_def om_build_lookup cong: option.case_cong)

text \<open>C19: a threshold task opened with thresholds that are numbers emits, for a statistic, the score
  of the greatest threshold the statistic reaches (the last one given, where a threshold is
  given twice), and the default score when it reaches none.\<close>

theorem ThresholdTask_score:
  assumes "th_scores opts \<noteq> []" "\<forall>e\<in>set (th_scores opts). fst e \<noteq> NaN"
    and "input_at as_double (ctx_inputs ctx) 0 = Inr (Some x)"
    and "can_emit junk ctx"
  shows "\<exists>t r. ThresholdTask_Open opts ThresholdTask = Inr (0, t) \<and>
    ThresholdTask_Process t junk ctx = Inr (0, emitted (Datum_val junk (VDouble r)) ctx) \<and>
    (if \<exists>e\<in>set (th_scores opts). dge x (fst e)
     then \<exists>k. map_of (rev (th_scores opts)) k = Some r \<and> dge x k \<and> (\<forall>e\<in>set (th_scores opts). dge x (fst e) \<longrightarrow> fst e \<le> k)
     else r = (case th_default opts of None \<Rightarrow> Fin 0 | Some d \<Rightarrow> d))"
proof -
  define dflt where "dflt = (case th_default opts of None \<Rightarrow> Fin 0 | Some d \<Rightarrow> d)"
  obtain m where m: "ThresholdTask_Open opts ThresholdTask = Inr (0, \<lparr>tt_tsmap = m, tt_default = dflt\<rparr>)"
    "ts_ok m" "map_of m = map_of (rev (th_scores opts))"
    using ThresholdTask_Open_ok [OF assms(1,2)] unfolding dflt_def by blast
  define R where "R = {k \<in> fst ` set m. dge x k}"
  have "dom (map_of m) = dom (map_of (rev (th_scores opts)))" using m(3) by simp
  then have keys: "fst ` set m = fst ` set (th_scores opts)" by (simp add: dom_map_of_conv_image_fst)
  have R: "finite R" "R \<noteq> {} \<longleftrightarrow> (\<exists>e\<in>set (th_scores opts). dge x (fst e))" by (auto simp: R_def keys)
  have r: "best_score m dflt x = (if R = {} then dflt else the (map_of m (Max R)))"
    by (simp add: best_score_def R_def Let_def)
  have max: "\<exists>k. map_of (rev (th_scores opts)) k = Some (best_score m dflt x) \<and> dge x k \<and>
      (\<forall>e\<in>set (th_scores opts). dge x (fst e) \<longrightarrow> fst e \<le> k)" if "R \<noteq> {}"
  proof -
    have "Max R \<in> R" using R(1) that by simp
    then have "Max R \<in> fst ` set m" "dge x (Max R)" by (auto simp: R_def)
    moreover have "fst e \<le> Max R" if "e \<in> set (th_scores opts)" "dge x (fst e)" for e
      using that R(1) by (intro Max_ge) (auto simp: R_def keys)
    ultimately show ?thesis using that m(3) r
      by (intro exI [of _ "Max R"]) (auto simp: map_of_eq_None_iff image_iff dest: map_of_SomeD split: option.splits
          simp flip: m(3) intro: map_of_SomeD)
  qed
  have p: "ThresholdTask_Process \<lparr>tt_tsmap = m, tt_default = dflt\<rparr> junk ctx =
      Inr (0, emitted (Datum_val junk (VDouble (best_score m dflt x))) ctx)"
    using assms(3,4) m(2) by (intro threshold.emits) (simp_all add: ThresholdTask_verdict_def)
  show ?thesis unfolding dflt_def [symmetric]
  proof (intro exI conjI, rule m(1), rule p)
    show "if \<exists>e\<in>set (th_scores opts). dge x (fst e)
      then \<exists>k. map_of (rev (th_scores opts)) k = Some (best_score m dflt x) \<and> dge x k \<and>
        (\<forall>e\<in>set (th_scores opts). dge x (fst e) \<longrightarrow> fst e \<le> k)
      else best_score m dflt x = dflt"
      using max R(2) r by (cases "R = {}") simp_all
  qed
qed

theorem ThresholdTask_score_witness:
  "\<exists>t. ThresholdTask_Open \<lparr>th_scores = [(Fin 10, Fin 3), (Fin 5, Fin 2)], th_default = None\<rparr> ThresholdTask = Inr (0, t) \<and>
    ThresholdTask_Process t 1 (demo_ctx (demo_inputs (plain_tags 1) [VDouble (Fin 7)])) =
      Inr (0, emitted (Datum_val 1 (VDouble (Fin 2))) (demo_ctx (demo_inputs (plain_tags 1) [VDouble (Fin 7)])))"
proof -
  let ?ctx = "demo_ctx (demo_inputs (plain_tags 1) [VDouble (Fin 7)])"
  let ?opts = "\<lparr>th_scores = [(Fin 10, Fin 3), (Fin 5, Fin 2)], th_default = None\<rparr>"
  have "input_at as_double (ctx_inputs ?ctx) 0 = Inr (Some (Fin 7))"
    by (simp add: input_at_heads as_double_def)
  note score = ThresholdTask_score [of ?opts, OF _ _ this demo_can_emit]
  then obtain t r where tr: "ThresholdTask_Open ?opts ThresholdTask = Inr (0, t)"
    "ThresholdTask_Process t 1 ?ctx = Inr (0, emitted (Datum_val 1 (VDouble r)) ?ctx)"
    "\<exists>k. map_of [(Fin 5, Fin 2), (Fin 10, Fin 3)] k = Some r \<and> dge (Fin 7) k"
    by auto
  then have "r = Fin 2" by (auto split: if_splits)
  then show ?thesis using tr by blast
qed

section \<open>Thresholds under conditions\<close>

record cond_options =
  co_conditions :: "double list"
  co_thresholds :: threshold_options

record cond_task =
  ct_options :: cond_options
  ct_thresholds :: threshold_task

definition ConditionThresholdTask :: "cond_options \<Rightarrow> cond_task" where
  "ConditionThresholdTask opts = \<lparr>ct_options = opts, ct_thresholds = ThresholdTask\<rparr>"

definition ConditionThresholdTask_Open :: "cond_options \<Rightarrow> cond_task \<Rightarrow> (int \<times> cond_task) outcome" where
  "ConditionThresholdTask_Open opts t =
     bindE (ThresholdTask_Open (co_thresholds opts) (ct_thresholds t)) (\<lambda>(rc, th).
       Inr (rc, \<lparr>ct_options = opts, ct_thresholds = th\<rparr>))"

text \<open>The loop that jumps to \<open>emit\<close> at the first value below its condition.\<close>

fun misses_condition :: "double list \<Rightarrow> double list \<Rightarrow> bool" where
  "misses_condition (v # vs) (c # cs) = (if dlt v c then True else misses_condition vs cs)"
| "misses_condition _ _ = False"

definition ConditionThresholdTask_Process :: "cond_task \<Rightarrow> int \<Rightarrow> val task_context \<Rightarrow> (int \<times> val task_context) outcome" where
  "ConditionThresholdTask_Process t junk ctx = finish junk ctx
     (need (input_tag as_double (ctx_inputs ctx) ''STAT'') (\<lambda>stat.
      need (input_tag as_doubles (ctx_inputs ctx) ''COND'') (\<lambda>cond_vals.
        if length cond_vals \<noteq> length (co_conditions (ct_options t)) then Inr (Some (VDouble (Fin (- 1))))
        else if misses_condition cond_vals (co_conditions (ct_options t))
          then Inr (Some (VDouble (tt_default (ct_thresholds t))))
        else Inr (Some (VDouble (scan_thresholds stat (tt_tsmap (ct_thresholds t)) (tt_default (ct_thresholds t))))))))"

lemma misses_condition_iff:
  "length vs = length cs \<Longrightarrow> misses_condition vs cs \<longleftrightarrow> (\<exists>i < length cs. dlt (vs ! i) (cs ! i))"
  by (induction vs cs rule: list_induct2) (auto simp: less_Suc_eq_0_disj)

definition ConditionThresholdTask_verdict :: "cond_task \<Rightarrow> val input_stream collection \<Rightarrow> val option outcome" where
  "ConditionThresholdTask_verdict t ins =
     need (input_tag as_double ins ''STAT'') (\<lambda>x. need (input_tag as_doubles ins ''COND'') (\<lambda>vs.
       let cs = co_conditions (ct_options t); dflt = tt_default (ct_thresholds t) in
       Inr (Some (VDouble (if length vs \<noteq> length cs then Fin (- 1)
         else if \<exists>i < length cs. dlt (vs ! i) (cs ! i) then dflt
         else best_score (tt_tsmap (ct_thresholds t)) dflt x)))))"

interpretation cond_threshold: emitting_task ConditionThresholdTask_Process ConditionThresholdTask_verdict
  "\<lambda>t _. ts_ok (tt_tsmap (ct_thresholds t))"
proof
  fix t :: cond_task and junk and ctx :: "val task_context"
  assume "ts_ok (tt_tsmap (ct_thresholds t))"
  then show "ConditionThresholdTask_Process t junk ctx = finish junk ctx (ConditionThresholdTask_verdict t (ctx_inputs ctx))"
    unfolding ConditionThresholdTask_Process_def ConditionThresholdTask_verdict_def Let_def
    by (intro arg_cong [where f = "finish junk ctx"] need_cong) (auto simp: scan_is_best misses_condition_iff)
qed

section \<open>Aggregates over all inputs\<close>

text \<open>\<open>std::max_element\<close> keeps the first of the greatest elements; the task follows the iterator,
  which is the end of an empty vector.\<close>

definition max_element :: "double list \<Rightarrow> double outcome" where
  "max_element xs = (case xs of [] \<Rightarrow> Inl Undefined | y # ys \<Rightarrow> Inr (fold (\<lambda>x m. if dlt m x then x else m) ys y))"

definition MaxTask_Process :: "unit \<Rightarrow> int \<Rightarrow> val task_context \<Rightarrow> (int \<times> val task_context) outcome" where
  "MaxTask_Process t junk ctx = finish junk ctx
     (need (each_input as_double (ctx_inputs ctx) (\<lambda>x numbers. numbers @ [x]) (map int [0..<nat (c_size (ctx_inputs ctx))]) []) (\<lambda>numbers.
       bindE (max_element numbers) (\<lambda>m. Inr (Some (VDouble m)))))"

definition SumTask_Process :: "unit \<Rightarrow> int \<Rightarrow> val task_context \<Rightarrow> (int \<times> val task_context) outcome" where
  "SumTask_Process t junk ctx = finish junk ctx
     (need (each_input as_double (ctx_inputs ctx) (\<lambda>x sum. dadd sum x) (map int [0..<nat (c_size (ctx_inputs ctx))]) (Fin 0)) (\<lambda>sum.
       Inr (Some (VDouble sum))))"

text \<open>The count is 64 bits wide and there are at most \<open>INT_MAX\<close> inputs: it does not wrap.\<close>

definition CounterTask_Process :: "double \<Rightarrow> int \<Rightarrow> val task_context \<Rightarrow> (int \<times> val task_context) outcome" where
  "CounterTask_Process feature junk ctx = finish junk ctx
     (need (each_input as_double (ctx_inputs ctx) (\<lambda>x cnt. if deq feature x then cnt + 1 else cnt)
         (map int [0..<nat (c_size (ctx_inputs ctx))]) (0::nat)) (\<lambda>cnt.
       Inr (Some (VU64 cnt))))"

text \<open>The doubles at the heads of all inputs, if every head is one.\<close>

definition all_doubles :: "val input_stream collection \<Rightarrow> double list option" where
  "all_doubles ins = (if None \<in> set (heads as_double ins) then None else Some (map the (heads as_double ins)))"

lemma each_double:
  "complete ins \<Longrightarrow> each_input as_double ins f (map int [0..<nat (c_size ins)]) s =
     Inr (map_option (\<lambda>xs. fold f xs s) (all_doubles ins))"
  by (simp add: each_input_all all_doubles_def)

lemma fold_snoc: "fold (\<lambda>x ys. ys @ [x]) xs ys = ys @ xs"
  by (induction xs arbitrary: ys) simp_all

lemma fold_max:
  assumes "NaN \<notin> set (y # ys)"
  shows "fold (\<lambda>x m. if dlt m x then x else m) ys y = Max (set (y # ys))"
  using assms
proof (induction ys arbitrary: y)
  case (Cons x ys)
  have "(if dlt y x then x else y) = max y x" using Cons.prems by (auto simp: dlt_def max_def)
  then show ?case using Cons.IH [of "max y x"] Cons.prems
    by (cases "ys = []") (auto simp: max_def insert_commute split: if_splits)
qed simp

lemma fold_dadd_int:
  assumes "\<bar>n\<bar> + sum_list (map abs ns) < 2 ^ 53"
  shows "fold (\<lambda>x s. dadd s x) (map (\<lambda>k. Fin (of_int k)) ns) (Fin (of_int n)) = Fin (of_int (n + sum_list ns))"
  using assms
proof (induction ns arbitrary: n)
  case (Cons k ns)
  have nonneg: "0 \<le> sum_list (map abs ns)" by (rule sum_list_nonneg) auto
  have "\<bar>n + k\<bar> < 2 ^ 53" "\<bar>n + k\<bar> + sum_list (map abs ns) < 2 ^ 53" using Cons.prems nonneg by auto
  then show ?case using Cons.IH [of "n + k"] dadd_int [of n k] by (simp add: add.assoc)
qed simp

lemma fold_count: "fold (\<lambda>x cnt. if P x then cnt + 1 else cnt) xs n = n + length (filter P xs)"
  by (induction xs arbitrary: n) simp_all

definition MaxTask_verdict :: "unit \<Rightarrow> val input_stream collection \<Rightarrow> val option outcome" where
  "MaxTask_verdict t ins = (case all_doubles ins of None \<Rightarrow> Inr None
     | Some xs \<Rightarrow> bindE (max_element xs) (\<lambda>m. Inr (Some (VDouble m))))"

definition SumTask_verdict :: "unit \<Rightarrow> val input_stream collection \<Rightarrow> val option outcome" where
  "SumTask_verdict t ins = Inr (map_option (\<lambda>xs. VDouble (foldl dadd (Fin 0) xs)) (all_doubles ins))"

definition CounterTask_verdict :: "double \<Rightarrow> val input_stream collection \<Rightarrow> val option outcome" where
  "CounterTask_verdict feature ins = Inr (map_option (\<lambda>xs. VU64 (length (filter (deq feature) xs))) (all_doubles ins))"

text \<open>Over complete collections (as many streams as the tag map counts) the three loops compute
  these verdicts.\<close>

lemma aggregate_verdicts:
  assumes "complete (ctx_inputs ctx)"
  shows "MaxTask_Process () junk ctx = finish junk ctx (MaxTask_verdict () (ctx_inputs ctx))"
    "SumTask_Process () junk ctx = finish junk ctx (SumTask_verdict () (ctx_inputs ctx))"
    "CounterTask_Process f junk ctx = finish junk ctx (CounterTask_verdict f (ctx_inputs ctx))"
  by (cases "all_doubles (ctx_inputs ctx)",
      simp_all add: MaxTask_Process_def MaxTask_verdict_def SumTask_Process_def SumTask_verdict_def
        CounterTask_Process_def CounterTask_verdict_def each_double [OF assms] fold_snoc foldl_conv_fold fold_count)+

interpretation max_task: emitting_task MaxTask_Process MaxTask_verdict "\<lambda>_. complete"
  by unfold_locales (simp add: aggregate_verdicts)

interpretation sum_task: emitting_task SumTask_Process SumTask_verdict "\<lambda>_. complete"
  by unfold_locales (simp add: aggregate_verdicts)

interpretation counter_task: emitting_task CounterTask_Process CounterTask_verdict "\<lambda>_. complete"
  by unfold_locales (simp add: aggregate_verdicts)

text \<open>When every input holds a number, the sum, max and counter tasks emit one value on their
  first output: the exact sum of integers whose absolute values add up to less than \<open>2^53\<close>,
  the greatest number, and how many inputs equal the feature. When an input holds no number they
  return -1 and leave the context as it was.\<close>

lemma aggregate_tasks:
  assumes "complete (ctx_inputs ctx)" "can_emit junk ctx"
  shows "(None \<in> set (heads as_double (ctx_inputs ctx)) \<longrightarrow>
      SumTask_Process () junk ctx = Inr (- 1, ctx) \<and> MaxTask_Process () junk ctx = Inr (- 1, ctx) \<and>
      CounterTask_Process f junk ctx = Inr (- 1, ctx)) \<and>
    (heads as_double (ctx_inputs ctx) = map (\<lambda>k. Some (Fin (of_int k))) ns \<and> sum_list (map abs ns) < 2 ^ 53 \<longrightarrow>
      SumTask_Process () junk ctx = Inr (0, emitted (Datum_val junk (VDouble (Fin (of_int (sum_list ns))))) ctx)) \<and>
    (heads as_double (ctx_inputs ctx) = map Some xs \<longrightarrow>
      CounterTask_Process f junk ctx = Inr (0, emitted (Datum_val junk (VU64 (length (filter (deq f) xs)))) ctx) \<and>
      (xs \<noteq> [] \<and> NaN \<notin> set xs \<longrightarrow>
        MaxTask_Process () junk ctx = Inr (0, emitted (Datum_val junk (VDouble (Max (set xs)))) ctx)))"
proof (intro conjI impI)
  note verdicts = MaxTask_verdict_def SumTask_verdict_def CounterTask_verdict_def all_doubles_def
  show "SumTask_Process () junk ctx = Inr (- 1, ctx)" "MaxTask_Process () junk ctx = Inr (- 1, ctx)"
    "CounterTask_Process f junk ctx = Inr (- 1, ctx)" if "None \<in> set (heads as_double (ctx_inputs ctx))"
    using that assms(1) by (simp_all add: sum_task.rejects max_task.rejects counter_task.rejects verdicts)
  show "SumTask_Process () junk ctx = Inr (0, emitted (Datum_val junk (VDouble (Fin (of_int (sum_list ns))))) ctx)"
    if "heads as_double (ctx_inputs ctx) = map (\<lambda>k. Some (Fin (of_int k))) ns \<and> sum_list (map abs ns) < 2 ^ 53"
    using that assms fold_dadd_int [of 0 ns]
    by (intro sum_task.emits) (auto simp: verdicts foldl_conv_fold comp_def)
  show "CounterTask_Process f junk ctx = Inr (0, emitted (Datum_val junk (VU64 (length (filter (deq f) xs)))) ctx)"
    if "heads as_double (ctx_inputs ctx) = map Some xs"
    using that assms by (intro counter_task.emits) (auto simp: verdicts comp_def)
  show "MaxTask_Process () junk ctx = Inr (0, emitted (Datum_val junk (VDouble (Max (set xs)))) ctx)"
    if "heads as_double (ctx_inputs ctx) = map Some xs" "xs \<noteq> [] \<and> NaN \<notin> set xs"
    using that assms by (intro max_task.emits; cases xs) (auto simp: verdicts comp_def max_element_def fold_max)
qed

lemma aggregate_tasks_example:
  "SumTask_Process () 1 (demo_ctx (demo_inputs (plain_tags 3) [VDouble (Fin 4), VDouble (Fin 9), VDouble (Fin 4)])) =
     Inr (0, emitted (Datum_val 1 (VDouble (Fin 17)))
       (demo_ctx (demo_inputs (plain_tags 3) [VDouble (Fin 4), VDouble (Fin 9), VDouble (Fin 4)]))) \<and>
   CounterTask_Process (Fin 4) 1 (demo_ctx (demo_inputs (plain_tags 3) [VDouble (Fin 4), VDouble (Fin 9), VDouble (Fin 4)])) =
     Inr (0, emitted (Datum_val 1 (VU64 2))
       (demo_ctx (demo_inputs (plain_tags 3) [VDouble (Fin 4), VDouble (Fin 9), VDouble (Fin 4)]))) \<and>
   MaxTask_Process () 1 (demo_ctx (demo_inputs (plain_tags 3) [VDouble (Fin 4), VDouble (Fin 9), VDouble (Fin 4)])) =
     Inr (0, emitted (Datum_val 1 (VDouble (Fin 9)))
       (demo_ctx (demo_inputs (plain_tags 3) [VDouble (Fin 4), VDouble (Fin 9), VDouble (Fin 4)])))"
proof -
  let ?ctx = "demo_ctx (demo_inputs (plain_tags 3) [VDouble (Fin 4), VDouble (Fin 9), VDouble (Fin 4)])"
  have "Max {Fin 4, Fin 9} = Fin 9" by (simp add: max_def)
  then show ?thesis
    using aggregate_tasks [of ?ctx 1 "Fin 4" "[4, 9, 4]" "[Fin 4, Fin 9, Fin 4]"]
    by (simp add: as_double_def insert_commute numeral_2_eq_2)
qed

section \<open>The transparent task\<close>

text \<open>The loop that copies the head of input \<open>i\<close> to output \<open>i\<close>; inputs beyond the last output are
  skipped. The first loop of \<open>Process\<close> only logs. The body has no return statement: \<open>rc\<close> stands for
  what the caller finds.\<close>

definition copy_input :: "int \<Rightarrow> 'v task_context \<Rightarrow> 'v task_context outcome" where
  "copy_input i ctx =
     (if c_size (ctx_outputs ctx) \<le> i then Inr ctx
      else bindE (c_at (ctx_outputs ctx) i) (\<lambda>s. bindE (c_at (ctx_inputs ctx) i) (\<lambda>x.
        Inr (ctx\<lparr>ctx_outputs := c_put (ctx_outputs ctx) i (os_AddDatum (is_Value x) s)\<rparr>))))"

definition TransparentTask_Process :: "int \<Rightarrow> 'v task_context \<Rightarrow> (int \<times> 'v task_context) outcome" where
  "TransparentTask_Process rc ctx =
     bindE (foldE copy_input (map int [0..<nat (c_size (ctx_inputs ctx))]) ctx) (\<lambda>ctx. Inr (rc, ctx))"

lemma copy_prefix:
  assumes "complete (ctx_inputs ctx)" "complete (ctx_outputs ctx)" "n \<le> length (c_data (ctx_inputs ctx))"
  shows "foldE copy_input (map int [0..<n]) ctx = Inr (ctx\<lparr>ctx_outputs := (ctx_outputs ctx)\<lparr>c_data :=
    map (\<lambda>k. if k < n then os_AddDatum (is_Value (c_data (ctx_inputs ctx) ! k)) (c_data (ctx_outputs ctx) ! k)
      else c_data (ctx_outputs ctx) ! k) [0..<length (c_data (ctx_outputs ctx))]\<rparr>\<rparr>)"
  using assms(3)
proof (induction n)
  case 0
  then show ?case by (simp add: map_nth)
next
  case (Suc n)
  let ?outs = "c_data (ctx_outputs ctx)"
  let ?f = "\<lambda>n k. if k < n then os_AddDatum (is_Value (c_data (ctx_inputs ctx) ! k)) (?outs ! k) else ?outs ! k"
  have "map (?f (Suc n)) [0..<length ?outs] =
      (if n < length ?outs then (map (?f n) [0..<length ?outs])[n := os_AddDatum (is_Value (c_data (ctx_inputs ctx) ! n)) (?outs ! n)]
       else map (?f n) [0..<length ?outs])"
    by (rule nth_equalityI) (auto simp: nth_list_update)
  then show ?case using Suc assms(1,2)
    by (auto simp: foldE_append copy_input_def complete_def c_size_def c_at_def c_put_def)
qed

text \<open>Every output gets the head of the input of the same index, when there is one.\<close>

lemma TransparentTask_copies:
  assumes "complete (ctx_inputs ctx)" "complete (ctx_outputs ctx)"
  shows "\<exists>ctx'. TransparentTask_Process rc ctx = Inr (rc, ctx') \<and> ctx_inputs ctx' = ctx_inputs ctx \<and>
    length (c_data (ctx_outputs ctx')) = length (c_data (ctx_outputs ctx)) \<and>
    (\<forall>k < length (c_data (ctx_outputs ctx)). c_data (ctx_outputs ctx') ! k =
      (if k < length (c_data (ctx_inputs ctx)) then os_AddDatum (is_Value (c_data (ctx_inputs ctx) ! k)) (c_data (ctx_outputs ctx) ! k)
       else c_data (ctx_outputs ctx) ! k))"
  using copy_prefix [OF assms order_refl] assms(1) by (simp add: TransparentTask_Process_def complete_def)

end
