(* ===== verification/Task_Nodes.thy ===== *)
theory Task_Nodes
  imports Graph Core_Tasks
begin

text \<open>
  Tasks inside nodes: what a node that runs a task of the contract \<open>emitting_task\<close> does in one
  processing step, from the queues of its input managers to the queues of the mirrors of its outputs.
\<close>

lemma mirrored_Nil [simp]: "mirrored net a [] b = []"
  by (simp add: mirrored_def)

lemma concat_only_first:
  assumes "0 < n" "\<And>i. 0 < i \<Longrightarrow> i < n \<Longrightarrow> f i = []"
  shows "concat (map f [0..<n]) = f (0::nat)"
proof -
  have "concat (map f [Suc 0..<n]) = []" using assms(2) by auto
  then show ?thesis using assms(1) by (simp add: upt_conv_Cons)
qed

text \<open>The state of a node before a step: prepared, its context fits its handlers, its inputs are read
  for the first time and its outputs are empty.\<close>

definition node_fresh :: "('t, 'v) node \<Rightarrow> 'v world \<Rightarrow> 'v task_context \<Rightarrow> 't \<Rightarrow> bool" where
  "node_fresh nd w ctx t \<longleftrightarrow> nd_ctx nd = Some ctx \<and> nd_task nd = Some t \<and> (\<exists>side. isd_data (w_side w (nd_id nd)) = Some side) \<and>
     NextTimestamp ctx < kCtimeMax \<and> fits (ish_managers (node_ish w nd)) (ctx_inputs ctx) \<and>
     distinct (ish_managers (node_ish w nd)) \<and> (\<forall>s\<in>set (c_data (ctx_inputs ctx)). is_queue s = [] \<and> \<not> is_done s) \<and>
     fits (osh_managers (nd_osh nd)) (ctx_outputs ctx) \<and> (\<forall>s\<in>set (c_data (ctx_outputs ctx)). os_queue s = []) \<and>
     (\<forall>a\<in>the ` set (osh_managers (nd_osh nd)). mirrors_ok (w_net w) a)"

lemma emitted_outputs:
  assumes "c_data (ctx_outputs ctx) \<noteq> []" "\<forall>s\<in>set (c_data (ctx_outputs ctx)). os_queue s = []"
  shows "length (c_data (ctx_outputs (emitted d ctx))) = length (c_data (ctx_outputs ctx))"
    "c_size (ctx_outputs (emitted d ctx)) = c_size (ctx_outputs ctx)"
    "i < length (c_data (ctx_outputs ctx)) \<Longrightarrow> os_queue (c_data (ctx_outputs (emitted d ctx)) ! i) = (if i = 0 then [d] else [])"
  using assms by (cases "c_data (ctx_outputs ctx)"; cases i; simp add: emitted_def c_size_def)+

context emitting_task
begin

text \<open>A step of the node empties its input queues, and the value the task makes of the marshalled
  inputs reaches exactly the mirrors of the first output.\<close>

lemma node_step:
  assumes "node_fresh nd w ctx s" "tk_process tc = task_of (\<lambda>s. process s junk)" "can_emit junk ctx"
    and "Marshal (node_ish w nd) (ctx_inputs ctx, w_net w) = Inr (ci, net1)"
    and "valid s ci" "verdict s ci = Inr (Some v)"
  shows "\<exists>nd' w'. Node_Process tc (nd, w) = Inr (0, nd', w') \<and> (\<forall>b. net_inbox (w_net w') b =
      (if Some b \<in> set (ish_managers (node_ish w nd)) then [] else net_inbox (w_net w) b) @
      mirrored (w_net w) (the (osh_managers (nd_osh nd) ! 0)) [Datum_val junk v] b)"
proof -
  let ?ctx = "ctx\<lparr>ctx_inputs := ci\<rparr>"
  let ?out = "emitted (Datum_val junk v) ?ctx"
  have nd: "nd_ctx nd = Some ctx" "nd_task nd = Some s" "NextTimestamp ctx < kCtimeMax"
    "fits (ish_managers (node_ish w nd)) (ctx_inputs ctx)" "distinct (ish_managers (node_ish w nd))"
    "\<forall>s\<in>set (c_data (ctx_inputs ctx)). \<not> is_done s" "fits (osh_managers (nd_osh nd)) (ctx_outputs ctx)"
    "\<forall>s\<in>set (c_data (ctx_outputs ctx)). os_queue s = []"
    "\<forall>a\<in>the ` set (osh_managers (nd_osh nd)). mirrors_ok (w_net w) a"
    using assms(1) by (auto simp: node_fresh_def)
  obtain side where side: "isd_data (w_side w (nd_id nd)) = Some side" using assms(1) by (auto simp: node_fresh_def)
  have ne: "c_data (ctx_outputs ?ctx) \<noteq> []" using assms(3) by (simp add: can_emit_def)
  have "can_emit junk ?ctx" using assms(3) by (simp add: can_emit_def)
  then have "process s junk ?ctx = Inr (0, ?out)" using assms(5,6) emits [of s ?ctx v junk] by simp
  then have "tk_process tc s ?ctx side = Inr (0, s, ?out, [])" by (simp add: assms(2) task_of_def)
  moreover have em: "length (c_data (ctx_outputs ?out)) = length (c_data (ctx_outputs ctx))"
    "c_size (ctx_outputs ?out) = c_size (ctx_outputs ctx)"
    "i < length (c_data (ctx_outputs ctx)) \<Longrightarrow> os_queue (c_data (ctx_outputs ?out) ! i) = (if i = 0 then [Datum_val junk v] else [])" for i
    using emitted_outputs [OF ne, where d = "Datum_val junk v"] nd(8) by simp_all
  moreover have "fits (osh_managers (nd_osh nd)) (ctx_outputs ?out)" using nd(7) em by (simp add: fits_def)
  moreover have "concat (map (\<lambda>i. mirrored (w_net w) (the (osh_managers (nd_osh nd) ! i)) (os_queue (c_data (ctx_outputs ?out) ! i)) b)
      [0..<length (c_data (ctx_outputs ?out))]) = mirrored (w_net w) (the (osh_managers (nd_osh nd) ! 0)) [Datum_val junk v] b" for b
    using ne em by (subst concat_only_first) simp_all
  ultimately show ?thesis
    using Node_Process_result [OF nd(1,2) side nd(3-6) assms(4) _ _ nd(9), of tc 0 s ?out] by fastforce
qed

end

section \<open>A run and its observed result\<close>

text \<open>The first observer with the name \<open>name\<close> reads the manager \<open>b\<close>.\<close>

definition observes :: "('t, 'v) graph \<Rightarrow> string \<Rightarrow> nat \<Rightarrow> bool" where
  "observes g name b \<longleftrightarrow> (\<exists>before o1 after. g_outputs g = before @ o1 # after \<and> gos_ism o1 = Some b \<and>
     stream_names (w_net (g_world g)) b = name \<and>
     (\<forall>o2\<in>set before. \<exists>c. gos_ism o2 = Some c \<and> stream_names (w_net (g_world g)) c \<noteq> name))"

lemma GetResult_observes:
  assumes "observes g name b" "net_inbox (w_net (g_world g)) b = d # ds" "Option.bind (d_val d) cast = Some r"
  shows "\<exists>g'. GetResult cast dflt name g = Inr (r, g')"
proof -
  obtain before o1 after where "g_outputs g = before @ o1 # after" "gos_ism o1 = Some b"
    "ism_name (net_ism (w_net (g_world g)) b) = name"
    "\<forall>o2\<in>set before. \<exists>c. gos_ism o2 = Some c \<and> ism_name (net_ism (w_net (g_world g)) c) \<noteq> name"
    using assms(1) by (auto simp: observes_def stream_names_def)
  from GetResult_head [OF this, of cast dflt] show ?thesis using assms(2,3) by auto
qed

lemma mirrored_hd:
  assumes "m \<in> set (osm_mirrors (net_osm net a))" "net_target net m = Some b"
  shows "\<exists>ds. mirrored net a [d] b = d # ds"
proof -
  have "set (mirrored net a [d] b) \<subseteq> {d}" by (auto simp: mirrored_def split: if_splits)
  moreover have "mirrored net a [d] b \<noteq> []" using assms by (auto simp: mirrored_def)
  ultimately show ?thesis by (cases "mirrored net a [d] b") auto
qed

context emitting_task
begin

text \<open>When an observer with an empty queue mirrors the first output of the node, a run of the node
  makes the value of the task the result of the observed stream.\<close>

lemma run_observed:
  assumes "i < length (g_nodes g)" "node_fresh (g_nodes g ! i) (g_world g) ctx s"
    and "tk_process tc = task_of (\<lambda>s. process s junk)" "can_emit junk ctx"
    and "Marshal (node_ish (g_world g) (g_nodes g ! i)) (ctx_inputs ctx, w_net (g_world g)) = Inr (ci, net1)"
    and "valid s ci" "verdict s ci = Inr (Some v)" "cast v = Some r"
    and "observes g name b" "Some b \<notin> set (ish_managers (node_ish (g_world g) (g_nodes g ! i)))"
    and "net_inbox (w_net (g_world g)) b = []"
    and "m \<in> set (osm_mirrors (net_osm (w_net (g_world g)) (the (osh_managers (nd_osh (g_nodes g ! i)) ! 0))))"
    and "net_target (w_net (g_world g)) m = Some b"
  shows "\<exists>g' g''. Graph_RunOnce tc [i] g = Inr g' \<and> GetResult cast dflt name g' = Inr (r, g'')"
proof -
  let ?nd = "g_nodes g ! i" and ?w = "g_world g"
  obtain nd' w' where step: "Node_Process tc (?nd, ?w) = Inr (0, nd', w')"
    "\<forall>b. net_inbox (w_net w') b = (if Some b \<in> set (ish_managers (node_ish ?w ?nd)) then [] else net_inbox (w_net ?w) b) @
      mirrored (w_net ?w) (the (osh_managers (nd_osh ?nd) ! 0)) [Datum_val junk v] b"
    using node_step [OF assms(2-7)] by blast
  define g' where "g' = g\<lparr>g_nodes := (g_nodes g)[i := nd'], g_world := w'\<rparr>"
  have run: "Graph_RunOnce tc [i] g = Inr g'"
    using assms(1) step(1) by (simp add: Graph_RunOnce_def at_node_def g'_def)
  have "stream_names (w_net w') = stream_names (w_net ?w)"
    using Node_Process_wiring [OF step(1)] by (simp add: same_wiring_def)
  then have "observes g' name b" using assms(9) by (simp add: observes_def g'_def)
  moreover obtain ds where "net_inbox (w_net w') b = Datum_val junk v # ds"
    using mirrored_hd [OF assms(12,13)] step(2) assms(10,11) by fastforce
  ultimately have "\<exists>g''. GetResult cast dflt name g' = Inr (r, g'')"
    using assms(8) by (intro GetResult_observes) (auto simp: g'_def Datum_val_def)
  then show ?thesis using run by blast
qed

end

end
