(* ===== verification/Node_Life.thy ===== *)
theory Node_Life
  imports Graph
begin

text \<open>
  The life of a node inside a running graph: once its preparation has succeeded, no call on it
  follows a null pointer until it is finished, whatever else happens to the graph in between
  (\<open>node.cc\<close>, \<open>graph.cc\<close>). The proof is by progress and preservation over the steps of the graph.
\<close>

section \<open>What a call leaves in place\<close>


text \<open>The number of side data slots of a node; \<open>None\<close> if the node has no side data yet.\<close>

definition side_len :: "'v world \<Rightarrow> nat \<Rightarrow> nat option" where
  "side_len w n = map_option length (isd_data (w_side w n))"












section \<open>Contexts that fit their node\<close>

definition ctx_fits :: "node_config \<Rightarrow> 'v task_context \<Rightarrow> bool" where
  "ctx_fits c ctx \<longleftrightarrow>
     c_tags (ctx_inputs ctx) = nc_inputs c \<and> length (c_data (ctx_inputs ctx)) = nat (NStreams (nc_inputs c)) \<and>
     c_tags (ctx_outputs ctx) = nc_outputs c \<and> length (c_data (ctx_outputs ctx)) = nat (NStreams (nc_outputs c))"




text \<open>What a successful preparation gives it: a task that is registered, a context that fits, and side data.\<close>

definition prepared :: "('t, 'v) task_code \<Rightarrow> ('t \<Rightarrow> bool) \<Rightarrow> ('t, 'v) node \<Rightarrow> 'v world \<Rightarrow> bool" where
  "prepared tc ok nd w \<longleftrightarrow> tk_new tc (nc_task (ni_cfg (nd_info nd))) \<noteq> None \<and>
     (\<exists>t ctx. nd_task nd = Some t \<and> ok t \<and> nd_ctx nd = Some ctx \<and> ctx_fits (ni_cfg (nd_info nd)) ctx) \<and>
     side_len w (nd_id nd) = Some (length (Names (nc_input_side_data (ni_cfg (nd_info nd)))))"




section \<open>Progress of the parts\<close>










section \<open>Progress of the calls\<close>

lemma prepared_simps [simp]:
  "prepared tc ok nd (w\<lparr>w_net := n\<rparr>) = prepared tc ok nd w" "prepared tc ok (nd\<lparr>nd_status := s\<rparr>) w = prepared tc ok nd w"
  "prepared tc ok (nd\<lparr>nd_input_stream_ready := b\<rparr>) w = prepared tc ok nd w"
  "prepared tc ok (nd\<lparr>nd_input_side_data_ready := b\<rparr>) w = prepared tc ok nd w"
  by (simp_all add: prepared_def side_len_def)











section \<open>Nodes of a graph\<close>














section \<open>The life of a node\<close>







text \<open>Without a successful preparation there is no context: a node whose \<open>PrepareForRun\<close> returns -1
  is left as it was built, and \<open>Open\<close>, which the graph calls next, follows the null pointer.\<close>

lemma unprepared_open:
  assumes "Node_PrepareForRun tc all (nd, w) = Inr (rc, nd', w')" "rc \<noteq> 0" "nd_ctx nd = None"
  shows "nd' = nd \<and> Node_Open tc (nd', w') = Inl Undefined"
proof -
  obtain w1 where w1: "on_net (ish_PrepareForRun (node_ish w nd)) w = Inr w1"
    using assms(1) by (auto simp: Node_PrepareForRun_def bindE_Inr_iff)
  obtain rc1 sh where s: "isd_PrepareForRun (nc_input_side_data (ni_cfg (nd_info nd))) all (w_side w1 (nd_id nd)) = (rc1, sh)"
    by (cases "isd_PrepareForRun (nc_input_side_data (ni_cfg (nd_info nd))) all (w_side w1 (nd_id nd))")
  have "nd' = nd"
    using assms(1,2) w1 s by (cases "rc1 = 0") (auto simp: Node_PrepareForRun_def bindE_Inr_iff Let_def)
  then show ?thesis using assms(3) by (simp add: Node_Open_def ptr_deref_def)
qed




end
