(* ===== verification/Stats_Tasks.thy ===== *)
theory Stats_Tasks
  imports Task_Values
begin

text \<open>
  The statistics tasks of \<open>dni/tasks/snding\<close>: \<open>anomaly_detection_task.cc\<close>,
  \<open>feature_counter_task.cc\<close>, \<open>number_stats_task.cc\<close>, \<open>protocol_stats_task.cc\<close> and
  \<open>net_record_merge_task.cc\<close>. Signed overflow of a counter or a sum is \<open>Undefined\<close>, as is
  an index outside a row of the packet table.
\<close>

section \<open>Anomaly detection\<close>

definition add_int :: "int \<Rightarrow> int \<Rightarrow> int outcome" where
  "add_int a b = (if - 2147483648 \<le> a + b \<and> a + b \<le> 2147483647 then Inr (a + b) else Inl Undefined)"

text \<open>\<open>sum += (int(x + 0.5))\<close>.\<close>

definition add_rounded :: "double \<Rightarrow> int \<Rightarrow> int outcome" where
  "add_rounded x s = bindE (to_int32 (dadd x (Fin (1 / 2)))) (add_int s)"

definition abnormal_type :: "int \<Rightarrow> double \<Rightarrow> double \<Rightarrow> double \<Rightarrow> int" where
  "abnormal_type s pkt netdev resource =
     (if s = 3 then 1
      else if s = 2 then
        if deq (dadd pkt netdev) (Fin 2) then 2
        else if deq (dadd pkt resource) (Fin 2) then 3
        else if deq (dadd netdev resource) (Fin 2) then 4
        else 0
      else 0)"

definition some_outcome :: "'a outcome \<Rightarrow> 'a option outcome" where
  "some_outcome r = bindE r (\<lambda>x. Inr (Some x))"

lemma some_outcome_simps [simp]: "some_outcome (Inr x) = Inr (Some x)" "some_outcome (Inl e) = Inl e"
  by (simp_all add: some_outcome_def)

definition SndAdTask_Process :: "unit \<Rightarrow> int \<Rightarrow> val task_context \<Rightarrow> (int \<times> val task_context) outcome" where
  "SndAdTask_Process t junk ctx = finish junk ctx
     (if c_size (ctx_inputs ctx) \<noteq> 3 then Inr None
      else
        need (input_tag as_double (ctx_inputs ctx) ''PACKET'') (\<lambda>pkt.
        need (some_outcome (add_rounded pkt 0)) (\<lambda>sum.
        need (input_tag as_double (ctx_inputs ctx) ''NETDEV'') (\<lambda>netdev.
        need (some_outcome (add_rounded netdev sum)) (\<lambda>sum.
        need (input_tag as_double (ctx_inputs ctx) ''RESOURCE'') (\<lambda>resource.
        need (some_outcome (add_rounded resource sum)) (\<lambda>sum.
          Inr (Some (VInt (abnormal_type sum pkt netdev resource))))))))))"

section \<open>Feature counts\<close>

text \<open>\<open>int& cnt = ret[j][val]; ++cnt;\<close>\<close>

definition count_feature :: "u32 list \<Rightarrow> nat \<Rightarrow> (u32 \<times> int) list list \<Rightarrow> (u32 \<times> int) list list outcome" where
  "count_feature p j ret =
     (if length p \<le> j \<or> length ret \<le> j then Inl Undefined
      else bindE (add_int (case map_of (ret ! j) (p ! j) of None \<Rightarrow> 0 | Some c \<Rightarrow> c) 1) (\<lambda>c.
        Inr (ret[j := um_insert (p ! j) c (ret ! j)])))"

definition count_features :: "u32 list list \<Rightarrow> nat \<Rightarrow> (u32 \<times> int) list list outcome" where
  "count_features packets feat_size =
     foldE (\<lambda>p. foldE (count_feature p) [0..<feat_size]) packets (replicate feat_size [])"

definition emit_feature :: "int \<Rightarrow> string \<times> (u32 \<times> int) list \<Rightarrow> val task_context \<Rightarrow> val task_context outcome" where
  "emit_feature junk e ctx = bindE (Modify (ctx_outputs ctx) (fst e) 0 (os_AddDatum (Datum_val junk (VCounts (snd e)))))
     (\<lambda>outs. Inr (ctx\<lparr>ctx_outputs := outs\<rparr>))"

definition FeatureCounterTask_Process :: "string list \<Rightarrow> int \<Rightarrow> val task_context \<Rightarrow> (int \<times> val task_context) outcome" where
  "FeatureCounterTask_Process features junk ctx =
     bindE (input_at as_rows (ctx_inputs ctx) 0) (\<lambda>x. case x of
       None \<Rightarrow> Inr (- 1, ctx)
     | Some packets \<Rightarrow> bindE (count_features packets (length features)) (\<lambda>ret.
         bindE (foldE (emit_feature junk) (zip features ret) ctx) (\<lambda>ctx. Inr (0, ctx))))"

section \<open>Number statistics\<close>

record stats_options =
  so_sum :: int
  so_ratioMin :: double
  so_ratioMax :: double
  so_score_thresholds :: "double list"

record stats_task =
  sk_thresholds :: "double list"
  sk_min :: double
  sk_max :: double

definition SndNumberStatsTask_Open :: "stats_options \<Rightarrow> stats_task \<Rightarrow> int \<times> stats_task" where
  "SndNumberStatsTask_Open opts t =
     (if length (so_score_thresholds opts) \<noteq> 4 then (- 1, t\<lparr>sk_thresholds := so_score_thresholds opts\<rparr>)
      else (0, \<lparr>sk_thresholds = so_score_thresholds opts, sk_min = dmul (double_of_int (so_sum opts)) (so_ratioMin opts),
              sk_max = dmul (double_of_int (so_sum opts)) (so_ratioMax opts)\<rparr>))"

text \<open>The differences of neighbouring keys, as the loop enters them into a set.\<close>

fun insert_diffs :: "u32 list \<Rightarrow> u32 list \<Rightarrow> u32 list" where
  "insert_diffs (a # b # ks) keyDiffs = insert_diffs (b # ks) (us_insert (b - a) keyDiffs)"
| "insert_diffs _ keyDiffs = keyDiffs"

definition SndNumberStatsTask_score :: "stats_task \<Rightarrow> (u32 \<times> int) list \<Rightarrow> double option outcome" where
  "SndNumberStatsTask_score t stats_map =
     (let numKeyLen = double_of_int (int (length stats_map)) in
      if stats_map = [] then Inr None
      else
        let keys = sort (map fst stats_map);
            keySeriesDiffTypeNum = double_of_int (int (length (insert_diffs keys [])));
            pick = (\<lambda>i. if i < length (sk_thresholds t) then Inr (Some (sk_thresholds t ! i)) else Inl Undefined)
        in if dlt numKeyLen (sk_min t) then pick 0
           else if dge (sk_min t) keySeriesDiffTypeNum then pick 1
           else if dge keySeriesDiffTypeNum (sk_max t) then pick 2
           else pick 3)"

definition SndNumberStatsTask_Process :: "stats_task \<Rightarrow> int \<Rightarrow> val task_context \<Rightarrow> (int \<times> val task_context) outcome" where
  "SndNumberStatsTask_Process t junk ctx = finish junk ctx
     (need (input_at as_counts (ctx_inputs ctx) 0) (\<lambda>stats_map.
      need (SndNumberStatsTask_score t stats_map) (\<lambda>score. Inr (Some (VDouble score)))))"

section \<open>Protocol statistics\<close>

definition SndProtocolStatsTask_Open :: "stats_options \<Rightarrow> stats_task \<Rightarrow> int \<times> stats_task" where
  "SndProtocolStatsTask_Open opts t =
     (if length (so_score_thresholds opts) \<noteq> 3 then (- 1, t\<lparr>sk_thresholds := so_score_thresholds opts\<rparr>)
      else (0, \<lparr>sk_thresholds = so_score_thresholds opts, sk_min = dmul (double_of_int (so_sum opts)) (so_ratioMin opts),
              sk_max = dmul (double_of_int (so_sum opts)) (so_ratioMax opts)\<rparr>))"

text \<open>The loop keeps \<open>score\<close> and \<open>score_max\<close>; the task emits the first.\<close>

definition protocol_step :: "stats_task \<Rightarrow> u32 \<times> int \<Rightarrow> double \<times> double \<Rightarrow> double \<times> double" where
  "protocol_step t e = (\<lambda>(score, score_max).
     let n = double_of_int (snd e);
         score = (if dge n (sk_max t) then sk_thresholds t ! 0 else if dge n (sk_min t) then sk_thresholds t ! 1 else score)
     in (score, if dlt score_max score then score else score_max))"

definition SndProtocolStatsTask_Process :: "stats_task \<Rightarrow> int \<Rightarrow> val task_context \<Rightarrow> (int \<times> val task_context) outcome" where
  "SndProtocolStatsTask_Process t junk ctx = finish junk ctx
     (need (input_at as_counts (ctx_inputs ctx) 0) (\<lambda>proto_map.
        if length (sk_thresholds t) < 3 then Inl Undefined
        else Inr (Some (VDouble (fst (fold (protocol_step t) proto_map (sk_thresholds t ! 2, Fin 0)))))))"

section \<open>Merging the records of a net\<close>

text \<open>An input that is not of the expected type is logged and then read all the same: \<open>value()\<close>
  throws.\<close>

definition read_record :: "val input_stream collection \<Rightarrow> int \<Rightarrow> (string \<times> sip_stats) list list \<Rightarrow> (string \<times> sip_stats) list list outcome" where
  "read_record ins i acc = bindE (input_at as_stats ins i) (\<lambda>x. case x of
     None \<Rightarrow> Inl Bad_optional_access | Some m \<Rightarrow> Inr (acc @ [m]))"

definition link_key :: "string \<Rightarrow> u32 \<Rightarrow> string" where
  "link_key sip dip = sip @ '':'' @ to_string (int (unat dip)) @ ''/32''"

definition add_link :: "string \<times> sip_stats \<Rightarrow> u32 \<Rightarrow> (string \<times> string list) list \<Rightarrow> (string \<times> string list) list" where
  "add_link stat dip = um_update (link_key (fst stat) dip)
     (\<lambda>v. us_insert (st_hostNicSign (snd stat)) (case v of None \<Rightarrow> [] | Some hs \<Rightarrow> hs))"

definition merge_links :: "(string \<times> sip_stats) list list \<Rightarrow> (string \<times> string list) list" where
  "merge_links stats_in_all_net =
     fold (\<lambda>nic_stats. fold (\<lambda>stat. fold (add_link stat) (ns_value (st_dstIP (snd stat)))) nic_stats) stats_in_all_net []"

definition SndNetRecordMergeTask_Process :: "unit \<Rightarrow> int \<Rightarrow> val task_context \<Rightarrow> (int \<times> val task_context) outcome" where
  "SndNetRecordMergeTask_Process t junk ctx = finish junk ctx
     (bindE (foldE (read_record (ctx_inputs ctx)) (map int [0..<nat (c_size (ctx_inputs ctx))]) []) (\<lambda>all.
       Inr (Some (VLinks (merge_links all)))))"

section \<open>The verdict of anomaly detection\<close>

definition flag :: "bool \<Rightarrow> double" where
  "flag b = Fin (if b then 1 else 0)"

lemma add_rounded_flag: "add_rounded (flag b) s = add_int s (if b then 1 else 0)"
proof -
  have "to_int32 (dadd (Fin 1) (Fin (1 / 2))) = Inr 1" "to_int32 (dadd (Fin 0) (Fin (1 / 2))) = Inr 0"
    by code_simp+
  then show ?thesis by (simp add: add_rounded_def flag_def)
qed

lemma dadd_flag: "dadd (flag a) (flag b) = Fin (of_int ((if a then 1 else 0) + (if b then 1 else 0)))"
  using dadd_int [of "if a then 1 else 0" "if b then 1 else 0"] by (auto simp: flag_def split: if_splits)

text \<open>On scores that are 0 or 1 the anomaly detection task emits the type its header comment lists:
  1 when all three are set, 2, 3 and 4 for the three pairs, and 0 when at most one is set.\<close>

lemma SndAdTask_classifies:
  assumes "c_size (ctx_inputs ctx) = 3" "can_emit junk ctx"
    and "input_tag as_double (ctx_inputs ctx) ''PACKET'' = Inr (Some (flag p))"
    and "input_tag as_double (ctx_inputs ctx) ''NETDEV'' = Inr (Some (flag n))"
    and "input_tag as_double (ctx_inputs ctx) ''RESOURCE'' = Inr (Some (flag r))"
  shows "SndAdTask_Process () junk ctx = Inr (0, emitted (Datum_val junk (VInt
    (if p \<and> n \<and> r then 1 else if p \<and> n then 2 else if p \<and> r then 3 else if n \<and> r then 4 else 0))) ctx)"
  using assms
  by (simp add: SndAdTask_Process_def finish_def emit_emitted add_rounded_flag add_int_def abnormal_type_def dadd_flag)

definition ad_tags :: "(string \<times> tag_data) list" where
  "ad_tags = [(''NETDEV'', \<lparr>td_base = 0, td_count = 1\<rparr>), (''PACKET'', \<lparr>td_base = 1, td_count = 1\<rparr>),
     (''RESOURCE'', \<lparr>td_base = 2, td_count = 1\<rparr>)]"

lemma SndAdTask_classifies_example:
  "SndAdTask_Process () 1 (demo_ctx (demo_inputs ad_tags [VDouble (flag True), VDouble (flag False), VDouble (flag True)])) =
    Inr (0, emitted (Datum_val 1 (VInt 4)) (demo_ctx (demo_inputs ad_tags [VDouble (flag True), VDouble (flag False), VDouble (flag True)])))"
proof -
  let ?ins = "demo_inputs ad_tags [VDouble (flag True), VDouble (flag False), VDouble (flag True)]"
  have "c_size ?ins = 3" "input_tag as_double ?ins ''PACKET'' = Inr (Some (flag False))"
    "input_tag as_double ?ins ''NETDEV'' = Inr (Some (flag True))" "input_tag as_double ?ins ''RESOURCE'' = Inr (Some (flag True))"
    by code_simp+
  then show ?thesis using SndAdTask_classifies [of "demo_ctx ?ins" 1 False True True] by simp
qed

section \<open>Feature tables\<close>

definition count_in :: "(u32 \<times> int) list \<Rightarrow> u32 \<Rightarrow> int" where
  "count_in m v = (case map_of m v of None \<Rightarrow> 0 | Some c \<Rightarrow> c)"

definition bump :: "u32 \<Rightarrow> (u32 \<times> int) list \<Rightarrow> (u32 \<times> int) list" where
  "bump v m = um_insert v (count_in m v + 1) m"

lemma count_in_bump [simp]: "count_in (bump v m) w = count_in m w + of_bool (v = w)"
  by (auto simp: count_in_def bump_def um_lookup_update)

lemma bump_keys [simp]: "fst ` set (bump v m) = insert v (fst ` set m)" "um_invar m \<Longrightarrow> um_invar (bump v m)"
  by (simp_all add: bump_def um_update_keys um_invar_update)

lemma count_in_set: "um_invar m \<Longrightarrow> set m = {(v, count_in m v) |v. v \<in> fst ` set m}"
proof -
  assume m: "um_invar m"
  have "(v, c) \<in> set m \<longleftrightarrow> v \<in> fst ` set m \<and> c = count_in m v" for v c
    using map_of_eq_Some_iff [OF m, of v] map_of_eq_None_iff [of m v] by (cases "map_of m v") (auto simp: count_in_def, metis)
  then show ?thesis by auto
qed

lemma count_row:
  assumes "k \<le> length ret" "length ret \<le> length p"
    and "\<forall>j < length ret. 0 \<le> count_in (ret ! j) (p ! j) \<and> count_in (ret ! j) (p ! j) < 2147483647"
  shows "foldE (count_feature p) [0..<k] ret =
    Inr (map (\<lambda>j. if j < k then bump (p ! j) (ret ! j) else ret ! j) [0..<length ret])"
  using assms(1)
proof (induction k)
  case 0
  then show ?case by (simp add: map_nth)
next
  case (Suc k)
  let ?f = "\<lambda>k j. if j < k then bump (p ! j) (ret ! j) else ret ! j"
  have "map (?f (Suc k)) [0..<length ret] = (map (?f k) [0..<length ret])[k := bump (p ! k) (ret ! k)]"
    by (rule nth_equalityI) (auto simp: nth_list_update less_Suc_eq)
  moreover have "count_feature p k (map (?f k) [0..<length ret]) = Inr ((map (?f k) [0..<length ret])[k := bump (p ! k) (ret ! k)])"
    using Suc.prems assms(2) spec [OF assms(3), of k] by (simp add: count_feature_def add_int_def bump_def flip: count_in_def)
  ultimately show ?case using Suc by (simp add: foldE_append)
qed

definition tally :: "u32 list list \<Rightarrow> nat \<Rightarrow> u32 \<Rightarrow> int" where
  "tally rows j v = int (length (filter (\<lambda>p. p ! j = v) rows))"

lemma count_features_tally:
  assumes "\<forall>p\<in>set rows. n \<le> length p" "length rows \<le> 2147483647"
  shows "\<exists>ret. count_features rows n = Inr ret \<and> length ret = n \<and> (\<forall>j < n. um_invar (ret ! j) \<and>
    (\<forall>v. count_in (ret ! j) v = tally rows j v) \<and> fst ` set (ret ! j) = (\<lambda>p. p ! j) ` set rows)"
  using assms
proof (induction rows rule: rev_induct)
  case Nil
  then show ?case by (simp add: count_features_def count_in_def tally_def)
next
  case (snoc p rows)
  then obtain ret where ret: "count_features rows n = Inr ret" "length ret = n"
    "\<forall>j < n. um_invar (ret ! j) \<and> (\<forall>v. count_in (ret ! j) v = tally rows j v) \<and> fst ` set (ret ! j) = (\<lambda>p. p ! j) ` set rows"
    by auto
  have small: "0 \<le> tally rows j v \<and> tally rows j v < 2147483647" for j v
    using snoc.prems(2) le_trans [OF length_filter_le [of "\<lambda>p. p ! j = v" rows]] by (fastforce simp: tally_def)
  have "count_features (rows @ [p]) n = foldE (count_feature p) [0..<n] ret"
    using ret(1) by (simp add: count_features_def foldE_append)
  also have "\<dots> = Inr (map (\<lambda>j. bump (p ! j) (ret ! j)) [0..<n])"
    using count_row [of n ret p] ret(2,3) small snoc.prems(1) by simp
  finally show ?case using ret(2,3)
    by (simp add: tally_def)
qed

text \<open>The feature counter turns a table of packets whose rows have all the features into one table
  per feature, sent to the output tagged with the feature's name: its keys are the values that occur
  in that column, each once, with the number of packets that have it.\<close>

lemma FeatureCounterTask_tables:
  assumes "input_at as_rows (ctx_inputs ctx) 0 = Inr (Some rows)"
    and "\<forall>p\<in>set rows. length features \<le> length p" "length rows \<le> 2147483647"
  shows "\<exists>ret. FeatureCounterTask_Process features junk ctx =
      bindE (foldE (emit_feature junk) (zip features ret) ctx) (\<lambda>ctx. Inr (0, ctx)) \<and>
    length ret = length features \<and> (\<forall>j < length features. distinct (map fst (ret ! j)) \<and>
      set (ret ! j) = {(v, int (length (filter (\<lambda>p. p ! j = v) rows))) |v. v \<in> (\<lambda>p. p ! j) ` set rows})"
proof -
  obtain ret where ret: "count_features rows (length features) = Inr ret" "length ret = length features"
    "\<forall>j < length features. um_invar (ret ! j) \<and> (\<forall>v. count_in (ret ! j) v = tally rows j v) \<and>
      fst ` set (ret ! j) = (\<lambda>p. p ! j) ` set rows"
    using count_features_tally [OF assms(2,3)] by blast
  have "set (ret ! j) = {(v, int (length (filter (\<lambda>p. p ! j = v) rows))) |v. v \<in> (\<lambda>p. p ! j) ` set rows}"
    if j: "j < length features" for j
  proof -
    have "um_invar (ret ! j)" "\<forall>v. count_in (ret ! j) v = tally rows j v" "fst ` set (ret ! j) = (\<lambda>p. p ! j) ` set rows"
      using ret(3) j by blast+
    then show ?thesis using count_in_set [of "ret ! j"] by (simp add: tally_def)
  qed
  then show ?thesis using ret assms(1) by (intro exI [of _ ret]) (simp add: FeatureCounterTask_Process_def)
qed

lemma FeatureCounterTask_tables_example:
  "\<exists>ret. FeatureCounterTask_Process [''SIP''] 1 (demo_ctx (demo_inputs (plain_tags 1) [VRows [[7], [9], [7]]])) =
      bindE (foldE (emit_feature 1) (zip [''SIP''] ret) (demo_ctx (demo_inputs (plain_tags 1) [VRows [[7], [9], [7]]]))) (\<lambda>ctx. Inr (0, ctx)) \<and>
    set (ret ! 0) = {(7, 2), (9, 1)}"
proof -
  let ?ctx = "demo_ctx (demo_inputs (plain_tags 1) [VRows [[7], [9], [7]]])"
  have "input_at as_rows (ctx_inputs ?ctx) 0 = Inr (Some [[7], [9], [7]])"
    by (simp add: input_at_heads as_rows_def)
  then obtain ret where ret: "FeatureCounterTask_Process [''SIP''] 1 ?ctx =
      bindE (foldE (emit_feature 1) (zip [''SIP''] ret) ?ctx) (\<lambda>ctx. Inr (0, ctx))"
    "set (ret ! 0) = {(v, int (length (filter (\<lambda>p. p ! 0 = v) [[7], [9], [7]]))) |v. v \<in> (\<lambda>p. p ! 0) ` set [[7], [9], [7]]}"
    using FeatureCounterTask_tables [of ?ctx "[[7], [9], [7]]" "[''SIP'']" 1] by auto
  have "set (ret ! 0) = {(7, 2), (9, 1)}" unfolding ret(2) by auto
  then show ?thesis using ret(1) by blast
qed

section \<open>Gaps between keys\<close>

text \<open>The reference for \<open>keySeriesDiffTypeNum\<close>: the distances from each key to the next greater one.\<close>

definition gaps :: "'a::{linorder,minus} set \<Rightarrow> 'a set" where
  "gaps K = {b - a |a b. a \<in> K \<and> b \<in> K \<and> a < b \<and> (\<forall>c\<in>K. c \<le> a \<or> b \<le> c)}"

lemma gaps_Cons:
  fixes a b :: "'a::{linorder,minus}"
  assumes "sorted (a # b # ks)" "distinct (a # b # ks)"
  shows "gaps (set (a # b # ks)) = insert (b - a) (gaps (set (b # ks)))"
proof (rule set_eqI)
  fix x
  have "a \<le> b" "a \<noteq> b" "\<forall>c\<in>set ks. b \<le> c" "b \<notin> set ks" using assms by simp_all
  then have ab: "a < b" and above: "\<And>c. c \<in> set (b # ks) \<Longrightarrow> b \<le> c" by auto
  let ?next = "\<lambda>K u v. u \<in> K \<and> v \<in> K \<and> u < v \<and> (\<forall>c\<in>K. c \<le> u \<or> v \<le> c)"
  have *: "?next (set (a # b # ks)) u v \<longleftrightarrow> u = a \<and> v = b \<or> ?next (set (b # ks)) u v" for u v
  proof (cases "u = a")
    case True
    have na: "a \<notin> set (b # ks)" using ab above leD by blast
    have "?next (set (a # b # ks)) a v \<longleftrightarrow> v = b"
    proof
      assume "?next (set (a # b # ks)) a v"
      then have "v \<le> b" "v \<in> set (b # ks)" using ab by auto
      then show "v = b" using above [of v] by simp
    next
      assume "v = b"
      then show "?next (set (a # b # ks)) a v" using ab above by auto
    qed
    then show ?thesis using True na by simp
  next
    case False
    have "a \<le> u" if "u \<in> set (b # ks)" using above [OF that] ab by simp
    moreover have "v \<noteq> a" if "u \<in> set (b # ks)" "u < v" using above [OF that(1)] ab that(2) by auto
    ultimately show ?thesis using False by (simp only: list.set insert_iff ball_simps) blast
  qed
  show "x \<in> gaps (set (a # b # ks)) \<longleftrightarrow> x \<in> insert (b - a) (gaps (set (b # ks)))"
    unfolding gaps_def mem_Collect_eq insert_iff by (subst *) blast
qed

lemma insert_diffs_gaps:
  "sorted ks \<Longrightarrow> distinct ks \<Longrightarrow> distinct ds \<Longrightarrow>
     set (insert_diffs ks ds) = set ds \<union> gaps (set ks) \<and> distinct (insert_diffs ks ds)"
proof (induction ks ds rule: insert_diffs.induct)
  case (1 a b ks keyDiffs)
  then have "set (insert_diffs (b # ks) (us_insert (b - a) keyDiffs)) = set (us_insert (b - a) keyDiffs) \<union> gaps (set (b # ks)) \<and>
      distinct (insert_diffs (b # ks) (us_insert (b - a) keyDiffs))"
    by simp
  then show ?case using gaps_Cons [OF "1.prems"(1,2)] by auto
qed (auto simp: gaps_def)

lemma insert_diffs_count:
  assumes "distinct ks"
  shows "length (insert_diffs (sort ks) []) = card (gaps (set ks))"
  using insert_diffs_gaps [of "sort ks" "[]"] assms by (metis distinct_card distinct_sort distinct.simps(1) set_sort sorted_sort sup_bot_left list.set(1))

text \<open>The class of a table of numbers, from how many keys and how many different gaps it has.\<close>

definition number_class :: "nat \<Rightarrow> nat \<Rightarrow> double \<Rightarrow> double \<Rightarrow> nat" where
  "number_class n g lo hi =
     (if dlt (double_of_int (int n)) lo then 0 else if dge lo (double_of_int (int g)) then 1
      else if dge (double_of_int (int g)) hi then 2 else 3)"

lemma number_class_less: "number_class n g lo hi < 4"
  by (simp add: number_class_def)

lemma SndNumberStatsTask_score_class:
  assumes "distinct (map fst m)" "m \<noteq> []" "length (sk_thresholds t) = 4"
  shows "SndNumberStatsTask_score t m = Inr (Some (sk_thresholds t !
    number_class (card (fst ` set m)) (card (gaps (fst ` set m))) (sk_min t) (sk_max t)))"
proof -
  have "card (fst ` set m) = length m" using distinct_card [OF assms(1)] by simp
  then show ?thesis using assms
    by (simp add: SndNumberStatsTask_score_def Let_def insert_diffs_count number_class_def)
qed

definition SndNumberStatsTask_verdict :: "stats_task \<Rightarrow> val input_stream collection \<Rightarrow> val option outcome" where
  "SndNumberStatsTask_verdict t ins = need (input_at as_counts ins 0) (\<lambda>m.
     if m = [] then Inr None
     else let K = fst ` set m in
       Inr (Some (VDouble (sk_thresholds t ! number_class (card K) (card (gaps K)) (sk_min t) (sk_max t)))))"

interpretation number_stats: emitting_task SndNumberStatsTask_Process SndNumberStatsTask_verdict
  "\<lambda>t ins. length (sk_thresholds t) = 4 \<and> (\<forall>m. input_at as_counts ins 0 = Inr (Some m) \<longrightarrow> distinct (map fst m))"
proof
  fix t :: stats_task and junk and ctx :: "val task_context"
  assume "length (sk_thresholds t) = 4 \<and> (\<forall>m. input_at as_counts (ctx_inputs ctx) 0 = Inr (Some m) \<longrightarrow> distinct (map fst m))"
  then show "SndNumberStatsTask_Process t junk ctx = finish junk ctx (SndNumberStatsTask_verdict t (ctx_inputs ctx))"
    unfolding SndNumberStatsTask_Process_def SndNumberStatsTask_verdict_def
    by (cases "input_at as_counts (ctx_inputs ctx) 0")
      (auto simp: need_def SndNumberStatsTask_score_class Let_def SndNumberStatsTask_score_def [of t "[]"] split: option.split)
qed

text \<open>The number statistics task emits one of its four scores, chosen by the number of keys and the
  number of different gaps between neighbouring keys of its input table (the reference \<open>gaps\<close>),
  whatever the counts and the iteration order of the table; an empty table is rejected.\<close>

lemma SndNumberStatsTask_by_gaps:
  assumes "SndNumberStatsTask_Open opts t0 = (0, t)" "can_emit junk ctx"
    and "input_at as_counts (ctx_inputs ctx) 0 = Inr (Some m)" "distinct (map fst m)"
  shows "SndNumberStatsTask_Process t junk ctx =
    (if m = [] then Inr (- 1, ctx)
     else Inr (0, emitted (Datum_val junk (VDouble (so_score_thresholds opts !
       number_class (card (fst ` set m)) (card (gaps (fst ` set m)))
         (dmul (double_of_int (so_sum opts)) (so_ratioMin opts)) (dmul (double_of_int (so_sum opts)) (so_ratioMax opts))))) ctx))"
proof -
  have t: "length (sk_thresholds t) = 4" "sk_thresholds t = so_score_thresholds opts"
    "sk_min t = dmul (double_of_int (so_sum opts)) (so_ratioMin opts)" "sk_max t = dmul (double_of_int (so_sum opts)) (so_ratioMax opts)"
    using assms(1) by (auto simp: SndNumberStatsTask_Open_def split: if_splits)
  show ?thesis
  proof (cases "m = []")
    case True
    then show ?thesis using t(1) assms(3)
      by (simp add: number_stats.rejects SndNumberStatsTask_verdict_def)
  next
    case False
    then show ?thesis using t assms(2-4)
      by (simp add: number_stats.emits SndNumberStatsTask_verdict_def Let_def)
  qed
qed

lemma SndNumberStatsTask_by_gaps_example:
  "SndNumberStatsTask_Process
     (snd (SndNumberStatsTask_Open \<lparr>so_sum = 4, so_ratioMin = Fin (1 / 2), so_ratioMax = Fin 2, so_score_thresholds = [Fin 1, Fin 2, Fin 3, Fin 4]\<rparr>
       \<lparr>sk_thresholds = [], sk_min = Fin 0, sk_max = Fin 0\<rparr>)) 1
     (demo_ctx (demo_inputs (plain_tags 1) [VCounts [(9, 1), (5, 1), (7, 2)]])) =
   Inr (0, emitted (Datum_val 1 (VDouble (Fin 2))) (demo_ctx (demo_inputs (plain_tags 1) [VCounts [(9, 1), (5, 1), (7, 2)]])))"
proof -
  let ?opts = "\<lparr>so_sum = 4, so_ratioMin = Fin (1 / 2), so_ratioMax = Fin 2, so_score_thresholds = [Fin 1, Fin 2, Fin 3, Fin 4]\<rparr>"
  let ?t0 = "\<lparr>sk_thresholds = [], sk_min = Fin 0, sk_max = Fin 0\<rparr>"
  let ?m = "[(9, 1), (5, 1), (7, 2)] :: (u32 \<times> int) list"
  let ?ctx = "demo_ctx (demo_inputs (plain_tags 1) [VCounts ?m])"
  have o1: "SndNumberStatsTask_Open ?opts ?t0 = (0, snd (SndNumberStatsTask_Open ?opts ?t0))"
    by (simp add: SndNumberStatsTask_Open_def)
  have i: "input_at as_counts (ctx_inputs ?ctx) 0 = Inr (Some ?m)" by (simp add: input_at_heads as_counts_def)
  have "card (gaps (fst ` set ?m)) = 1"
    using insert_diffs_count [of "map fst ?m"] by (simp add: us_insert_def)
  moreover have "number_class (Suc (Suc (Suc 0))) (Suc 0) (dmul (double_of_int 4) (Fin (1 / 2))) (dmul (double_of_int 4) (Fin 2)) = 1"
    by code_simp
  ultimately show ?thesis
    using SndNumberStatsTask_by_gaps [OF o1 demo_can_emit i] by simp
qed

section \<open>The protocol score\<close>

definition protocol_reaches :: "stats_task \<Rightarrow> u32 \<times> int \<Rightarrow> bool" where
  "protocol_reaches t e \<longleftrightarrow> dge (double_of_int (snd e)) (sk_max t) \<or> dge (double_of_int (snd e)) (sk_min t)"

definition protocol_score :: "stats_task \<Rightarrow> u32 \<times> int \<Rightarrow> double" where
  "protocol_score t e = sk_thresholds t ! (if dge (double_of_int (snd e)) (sk_max t) then 0 else 1)"

lemma protocol_fold:
  "fst (fold (protocol_step t) es (s, mx)) = (if \<exists>e\<in>set es. protocol_reaches t e
     then protocol_score t (last (filter (protocol_reaches t) es)) else s)"
proof (induction es rule: rev_induct)
  case (snoc e es)
  have "fst (protocol_step t e st) = (if protocol_reaches t e then protocol_score t e else fst st)" for st
    by (cases st) (simp add: protocol_step_def protocol_reaches_def protocol_score_def Let_def)
  then show ?case using snoc by auto
qed simp

text \<open>The protocol statistics task emits the score of the last protocol, in the iteration order of its
  table, whose packet count reaches the lower bound (its first score where the upper bound is reached
  too, its second otherwise), and its third score when no protocol does. The greatest score, which
  the loop also computes, is not what is emitted.\<close>

lemma SndProtocolStatsTask_last:
  assumes "SndProtocolStatsTask_Open opts t0 = (0, t)" "can_emit junk ctx"
    and "input_at as_counts (ctx_inputs ctx) 0 = Inr (Some m)"
  shows "SndProtocolStatsTask_Process t junk ctx = Inr (0, emitted (Datum_val junk (VDouble
    (if \<exists>e\<in>set m. protocol_reaches t e then protocol_score t (last (filter (protocol_reaches t) m))
     else so_score_thresholds opts ! 2))) ctx)"
proof -
  have "length (sk_thresholds t) = 3" "sk_thresholds t = so_score_thresholds opts"
    using assms(1) by (auto simp: SndProtocolStatsTask_Open_def split: if_splits)
  then show ?thesis using assms(2,3)
    by (simp add: SndProtocolStatsTask_Process_def finish_def emit_emitted protocol_fold)
qed

definition proto_demo :: stats_task where
  "proto_demo = snd (SndProtocolStatsTask_Open \<lparr>so_sum = 10, so_ratioMin = Fin (1 / 2), so_ratioMax = Fin (3 / 4),
     so_score_thresholds = [Fin 9, Fin 5, Fin 1]\<rparr> \<lparr>sk_thresholds = [], sk_min = Fin 0, sk_max = Fin 0\<rparr>)"

lemma SndProtocolStatsTask_last_example:
  "SndProtocolStatsTask_Process proto_demo 1 (demo_ctx (demo_inputs (plain_tags 1) [VCounts [(6, 8), (17, 6), (1, 2)]])) =
   Inr (0, emitted (Datum_val 1 (VDouble (Fin 5))) (demo_ctx (demo_inputs (plain_tags 1) [VCounts [(6, 8), (17, 6), (1, 2)]])))"
proof -
  let ?opts = "\<lparr>so_sum = 10, so_ratioMin = Fin (1 / 2), so_ratioMax = Fin (3 / 4), so_score_thresholds = [Fin 9, Fin 5, Fin 1]\<rparr>"
  let ?m = "[(6, 8), (17, 6), (1, 2)] :: (u32 \<times> int) list"
  let ?ctx = "demo_ctx (demo_inputs (plain_tags 1) [VCounts ?m])"
  have o1: "SndProtocolStatsTask_Open ?opts \<lparr>sk_thresholds = [], sk_min = Fin 0, sk_max = Fin 0\<rparr> = (0, proto_demo)"
    by (simp add: SndProtocolStatsTask_Open_def proto_demo_def)
  have i: "input_at as_counts (ctx_inputs ?ctx) 0 = Inr (Some ?m)" by (simp add: input_at_heads as_counts_def)
  have "filter (protocol_reaches proto_demo) ?m = [(6, 8), (17, 6)]" "protocol_score proto_demo (17, 6) = Fin 5"
    "protocol_reaches proto_demo (6, 8)"
    by code_simp+
  then show ?thesis using SndProtocolStatsTask_last [OF o1 demo_can_emit i] by simp
qed

section \<open>Attack links\<close>

lemma read_records:
  assumes "complete ins"
  shows "foldE (read_record ins) (map int [0..<nat (c_size ins)]) [] =
    (if None \<in> set (heads as_stats ins) then Inl Bad_optional_access else Inr (map the (heads as_stats ins)))"
proof -
  have "foldE (read_record ins) (map int [0..<n]) [] =
      (if None \<in> set (take n (heads as_stats ins)) then Inl Bad_optional_access else Inr (map the (take n (heads as_stats ins))))"
    if "n \<le> length (c_data ins)" for n
    using that
  proof (induction n)
    case (Suc n)
    then have "take (Suc n) (heads as_stats ins) = take n (heads as_stats ins) @ [heads as_stats ins ! n]"
      by (simp add: take_Suc_conv_app_nth)
    then show ?case using Suc
      by (cases "heads as_stats ins ! n") (auto simp: foldE_append read_record_def input_at_heads)
  qed simp
  from this [of "length (c_data ins)"] show ?thesis using assms by (simp add: complete_def)
qed

definition links :: "(string \<times> sip_stats) list list \<Rightarrow> ((string \<times> sip_stats) \<times> u32) list" where
  "links all = concat (map (\<lambda>stat. map (Pair stat) (ns_value (st_dstIP (snd stat)))) (concat all))"

lemma mem_links: "(stat, dip) \<in> set (links all) \<longleftrightarrow> (\<exists>recs\<in>set all. stat \<in> set recs) \<and> dip \<in> set (ns_value (st_dstIP (snd stat)))"
proof -
  have "set (links all) = (\<Union>stat\<in>set (concat all). Pair stat ` set (ns_value (st_dstIP (snd stat))))"
    by (simp add: links_def)
  then show ?thesis by auto
qed

lemma merge_links_fold:
  "merge_links all = um_group (\<lambda>x. link_key (fst (fst x)) (snd x)) (\<lambda>x. st_hostNicSign (snd (fst x))) (links all)"
proof -
  have "merge_links all = fold (\<lambda>stat. fold (add_link stat) (ns_value (st_dstIP (snd stat)))) (concat all) []"
    unfolding merge_links_def by (simp add: fold_concat_lists)
  then show ?thesis
    by (simp add: fold_nested links_def um_group_def add_link_def [abs_def] case_prod_unfold cong: option.case_cong)
qed

text \<open>Merging the records of all network cards lists, for every attack link (source block and
  destination address) that some record has, exactly the hosts that have it, each once; a link no
  record has is not listed. An input of another type ends the task with an exception.\<close>

lemma SndNetRecordMergeTask_links:
  assumes "complete (ctx_inputs ctx)" "can_emit junk ctx"
  shows "if None \<in> set (heads as_stats (ctx_inputs ctx)) then SndNetRecordMergeTask_Process () junk ctx = Inl Bad_optional_access
    else \<exists>m. SndNetRecordMergeTask_Process () junk ctx = Inr (0, emitted (Datum_val junk (VLinks m)) ctx) \<and>
      distinct (map fst m) \<and> (\<forall>k hosts. (k, hosts) \<in> set m \<longrightarrow> distinct hosts) \<and>
      (\<forall>k h. (\<exists>hosts. (k, hosts) \<in> set m \<and> h \<in> set hosts) \<longleftrightarrow>
        (\<exists>recs sip st dip. Some recs \<in> set (heads as_stats (ctx_inputs ctx)) \<and> (sip, st) \<in> set recs \<and>
          dip \<in> set (ns_value (st_dstIP st)) \<and> k = link_key sip dip \<and> h = st_hostNicSign st))"
proof (cases "None \<in> set (heads as_stats (ctx_inputs ctx))")
  case True
  then show ?thesis by (simp add: SndNetRecordMergeTask_Process_def read_records [OF assms(1)])
next
  case False
  define all where "all = map the (heads as_stats (ctx_inputs ctx))"
  have mem: "recs \<in> set all \<longleftrightarrow> Some recs \<in> set (heads as_stats (ctx_inputs ctx))" for recs
    using False by (auto simp: all_def image_iff intro!: bexI [of _ "Some recs"]) (metis option.collapse)
  define m where "m = merge_links all"
  note group = um_group_lookup [where ky = "\<lambda>x. link_key (fst (fst x)) (snd x)" and f = "\<lambda>x. st_hostNicSign (snd (fst x))" and xs = "links all",
      folded merge_links_fold, folded m_def]
  have dist: "distinct (map fst m)" by (rule group(3))
  have in_m: "(k, hosts) \<in> set m \<longleftrightarrow> map_of m k = Some hosts" for k hosts using dist by simp
  have by_link: "(\<exists>hosts. (k, hosts) \<in> set m \<and> h \<in> set hosts) \<longleftrightarrow>
      (\<exists>x\<in>set (links all). k = link_key (fst (fst x)) (snd x) \<and> h = st_hostNicSign (snd (fst x)))" for k h
  proof (cases "map_of m k")
    case None
    then show ?thesis using group(1) [of k] by (auto simp: in_m)
  next
    case (Some hosts)
    then have "set hosts = (\<lambda>x. st_hostNicSign (snd (fst x))) ` {x \<in> set (links all). link_key (fst (fst x)) (snd x) = k}"
      using group(2) by blast
    then have "h \<in> set hosts \<longleftrightarrow> (\<exists>x\<in>set (links all). k = link_key (fst (fst x)) (snd x) \<and> h = st_hostNicSign (snd (fst x)))"
      by auto
    then show ?thesis using Some by (simp add: in_m)
  qed
  have by_record: "(\<exists>x\<in>set (links all). k = link_key (fst (fst x)) (snd x) \<and> h = st_hostNicSign (snd (fst x))) \<longleftrightarrow>
      (\<exists>recs sip st dip. Some recs \<in> set (heads as_stats (ctx_inputs ctx)) \<and> (sip, st) \<in> set recs \<and>
          dip \<in> set (ns_value (st_dstIP st)) \<and> k = link_key sip dip \<and> h = st_hostNicSign st)" for k h
    by (simp only: Bex_def [of "set (links all)"] split_paired_Ex mem_links fst_conv snd_conv mem [symmetric]) blast
  have run: "SndNetRecordMergeTask_Process () junk ctx = Inr (0, emitted (Datum_val junk (VLinks m)) ctx)"
    using False by (simp add: SndNetRecordMergeTask_Process_def read_records [OF assms(1)] finish_def emit_emitted [OF assms(2)] m_def all_def)
  have hosts: "distinct hosts" if "(k, hosts) \<in> set m" for k hosts
  proof -
    have "map_of m k = Some hosts" using that by (simp only: in_m)
    then show ?thesis using group(2) by blast
  qed
  show ?thesis unfolding if_not_P [OF False]
    using run dist hosts trans [OF by_link by_record] by (intro exI [of _ m]) simp
qed

lemma SndNetRecordMergeTask_links_example:
  "\<exists>m. SndNetRecordMergeTask_Process () 1 (demo_ctx (demo_inputs (plain_tags 1)
      [VStats [(''5/32'', SIPBaseMergeStats\<lparr>st_hostNicSign := ''h'', st_dstIP := \<lparr>ns_stat_type = [], ns_value = [8]\<rparr>\<rparr>)]])) =
    Inr (0, emitted (Datum_val 1 (VLinks m)) (demo_ctx (demo_inputs (plain_tags 1)
      [VStats [(''5/32'', SIPBaseMergeStats\<lparr>st_hostNicSign := ''h'', st_dstIP := \<lparr>ns_stat_type = [], ns_value = [8]\<rparr>\<rparr>)]]))) \<and>
    (\<exists>hosts. (''5/32:8/32'', hosts) \<in> set m \<and> ''h'' \<in> set hosts)"
proof -
  let ?st = "SIPBaseMergeStats\<lparr>st_hostNicSign := ''h'', st_dstIP := \<lparr>ns_stat_type = [], ns_value = [8]\<rparr>\<rparr>"
  let ?ctx = "demo_ctx (demo_inputs (plain_tags 1) [VStats [(''5/32'', ?st)]])"
  have h: "heads as_stats (ctx_inputs ?ctx) = [Some [(''5/32'', ?st)]]" by (simp add: as_stats_def)
  then obtain m where m: "SndNetRecordMergeTask_Process () 1 ?ctx = Inr (0, emitted (Datum_val 1 (VLinks m)) ?ctx)"
    "\<forall>k h. (\<exists>hosts. (k, hosts) \<in> set m \<and> h \<in> set hosts) \<longleftrightarrow>
        (\<exists>recs sip st dip. Some recs \<in> set (heads as_stats (ctx_inputs ?ctx)) \<and> (sip, st) \<in> set recs \<and>
          dip \<in> set (ns_value (st_dstIP st)) \<and> k = link_key sip dip \<and> h = st_hostNicSign st)"
    using SndNetRecordMergeTask_links [of ?ctx 1] by auto
  have "link_key ''5/32'' 8 = ''5/32:8/32''" by code_simp
  then have "\<exists>hosts. (''5/32:8/32'', hosts) \<in> set m \<and> ''h'' \<in> set hosts" unfolding m(2) [rule_format] h by force
  then show ?thesis using m(1) by blast
qed

end
