(* ===== verification/Sip_Merge.thy ===== *)
theory Sip_Merge
  imports Stats_Tasks
begin

text \<open>
  Source-address based merging: \<open>dni/tasks/snding/sip_base_merge_task.cc\<close>. Packets are grouped by the
  first attacker block that has their source address, and the packets of random attackers in the
  extra group \<open>RANDOM\<close>; every group is then labelled. \<open>packet["SIP"]\<close> enters 0 for a missing
  field, which no later read can tell from the field being absent. The counters are exact for fewer
  than \<open>2^31\<close> packets.
\<close>

section \<open>Data and options\<close>

type_synonym packet = "(string \<times> u32) list"

definition fld :: "packet \<Rightarrow> string \<Rightarrow> u32" where
  "fld p k = (case map_of p k of None \<Rightarrow> 0 | Some v \<Rightarrow> v)"

record sip_options =
  sp_num_ratioMin :: double
  sp_num_ratioMax :: double
  sp_num_label :: "string list"
  sp_proto_ratioMin :: double
  sp_proto_ratioMax :: double
  sp_proto_label :: "string list"

definition SndSIPBaseMergeTask_Open :: "sip_options \<Rightarrow> int" where
  "SndSIPBaseMergeTask_Open opts =
     (if length (sp_num_label opts) \<noteq> 4 then - 1 else if length (sp_proto_label opts) \<noteq> 3 then - 1 else 0)"

section \<open>Grouping\<close>

definition belongs :: "cidr \<Rightarrow> u32 \<Rightarrow> bool" where
  "belongs c ip = (if 32 < cidr_len c then False
     else if shr_u32 (cidr_ip c XOR ip) (32 - cidr_len c) \<noteq> 0 then False else True)"

definition cidr_string :: "cidr \<Rightarrow> string" where
  "cidr_string c = to_string (int (unat (cidr_ip c))) @ ''/'' @ to_string (cidr_len c)"

definition add_packet :: "packet \<Rightarrow> sip_merge_result \<Rightarrow> sip_merge_result" where
  "add_packet p r = r\<lparr>mr_packet_total := mr_packet_total r + 1,
     mr_sport := us_insert (fld p ''SPort'') (mr_sport r), mr_dport := us_insert (fld p ''DPort'') (mr_dport r),
     mr_length := us_insert (fld p ''Length'') (mr_length r),
     mr_protocol := um_update (sint (fld p ''Protocol'')) (\<lambda>v. (case v of None \<Rightarrow> 0 | Some c \<Rightarrow> c) + 1) (mr_protocol r),
     mr_dstIP := us_insert (fld p ''DIP'') (mr_dstIP r)\<rparr>"

text \<open>The group a packet joins: the first block that has its source address.\<close>

definition group_of :: "cidr list \<Rightarrow> packet \<Rightarrow> string option" where
  "group_of ips p = map_option cidr_string (find (\<lambda>c. belongs c (fld p ''SIP'')) ips)"

definition or_fresh :: "sip_merge_result option \<Rightarrow> sip_merge_result" where
  "or_fresh v = (case v of None \<Rightarrow> SIPBaseMergeResult | Some r \<Rightarrow> r)"

definition merge_step ::
  "cidr list \<Rightarrow> packet \<Rightarrow> (string \<times> sip_merge_result) list \<times> (u32 \<times> nat list) list \<times> nat \<Rightarrow>
   (string \<times> sip_merge_result) list \<times> (u32 \<times> nat list) list \<times> nat" where
  "merge_step ips p = (\<lambda>(all_merge_ret, ip_positions, index).
     ((case group_of ips p of None \<Rightarrow> all_merge_ret
       | Some k \<Rightarrow> um_update k (\<lambda>v. add_packet p (or_fresh v)) all_merge_ret),
      um_update (fld p ''SIP'') (\<lambda>v. (case v of None \<Rightarrow> [] | Some ps \<Rightarrow> ps) @ [index]) ip_positions, index + 1))"

definition merge_random ::
  "packet list \<Rightarrow> (u32 \<times> nat list) list \<Rightarrow> u32 list \<Rightarrow> (string \<times> sip_merge_result) list \<Rightarrow> (string \<times> sip_merge_result) list" where
  "merge_random packets ip_positions randomIPs all =
     um_update ''RANDOM'' (\<lambda>v. fold (\<lambda>ip. fold (\<lambda>index. add_packet (packets ! index))
       (case map_of ip_positions ip of None \<Rightarrow> [] | Some ps \<Rightarrow> ps)) randomIPs (or_fresh v)) all"

definition merge_packets :: "packet list \<Rightarrow> attacker_result \<Rightarrow> (string \<times> sip_merge_result) list" where
  "merge_packets packets a =
     (case fold (merge_step (ar_attackerIPs a)) packets ([], [], 0) of (all_merge_ret, ip_positions, index) \<Rightarrow>
        if ar_containRandomAttack a then merge_random packets ip_positions (ar_randomIPs a) all_merge_ret
        else all_merge_ret)"

definition convert_map :: "cidr list \<Rightarrow> (string \<times> cidr) list" where
  "convert_map ips = fold (\<lambda>c. om_insert (cidr_string c) c) ips []"

section \<open>Labels\<close>

definition label_at :: "string list \<Rightarrow> nat \<Rightarrow> string outcome" where
  "label_at ls i = (if i < length ls then Inr (ls ! i) else Inl Undefined)"

text \<open>\<open>keys.size() - 1\<close> of an empty vector wraps around: the loop then reads past its end.\<close>

definition calc_number_stat_type :: "u32 list \<Rightarrow> int \<Rightarrow> double \<Rightarrow> double \<Rightarrow> string list \<Rightarrow> string outcome" where
  "calc_number_stat_type uset numValueSum num_ratioMin num_ratioMax num_stat_type =
     (if uset = [] then Inl Undefined
      else
        let numKeyLen = double_of_int (int (length uset));
            keySeriesDiffTypeNum = double_of_int (int (length (insert_diffs (sort uset) [])));
            mi = dmul (double_of_int numValueSum) num_ratioMin; ma = dmul (double_of_int numValueSum) num_ratioMax
        in if dlt numKeyLen mi then label_at num_stat_type 0
           else if dge mi keySeriesDiffTypeNum then label_at num_stat_type 1
           else if dge keySeriesDiffTypeNum ma then label_at num_stat_type 2
           else label_at num_stat_type 3)"

definition calc_proto_stat_type :: "(int \<times> int) list \<Rightarrow> int \<Rightarrow> double \<Rightarrow> double \<Rightarrow> string list \<Rightarrow> (int \<times> string) list outcome" where
  "calc_proto_stat_type proto_map numValueSum proto_ratioMin proto_ratioMax proto_stat_type =
     (let mi = dmul (double_of_int numValueSum) proto_ratioMin; ma = dmul (double_of_int numValueSum) proto_ratioMax in
      foldE (\<lambda>(proto, n) stats. bindE (label_at proto_stat_type
          (if dge (double_of_int n) ma then 0 else if dge (double_of_int n) mi then 1 else 2)) (\<lambda>l.
        Inr (um_insert proto l stats))) proto_map [])"

definition number_stat :: "sip_options \<Rightarrow> string \<Rightarrow> u32 list \<Rightarrow> number_stats outcome" where
  "number_stat opts ty vals = bindE (label_at (sp_num_label opts) 0) (\<lambda>central.
     Inr \<lparr>ns_stat_type = ty, ns_value = (if ty = central then vals else [])\<rparr>)"

text \<open>The body of the loop over the groups.\<close>

definition make_stat :: "sip_options \<Rightarrow> string \<Rightarrow> (string \<times> cidr) list \<Rightarrow> string \<times> sip_merge_result \<Rightarrow> sip_stats outcome" where
  "make_stat opts host_nic_name conv = (\<lambda>(k, r).
     let n = mr_packet_total r; ty = (\<lambda>vals. calc_number_stat_type vals n (sp_num_ratioMin opts) (sp_num_ratioMax opts) (sp_num_label opts)) in
     bindE (ty (mr_sport r)) (\<lambda>sport_ty. bindE (ty (mr_dport r)) (\<lambda>dport_ty. bindE (ty (mr_length r)) (\<lambda>length_ty.
     bindE (number_stat opts sport_ty (mr_sport r)) (\<lambda>sport. bindE (number_stat opts dport_ty (mr_dport r)) (\<lambda>dport.
     bindE (number_stat opts length_ty (mr_length r)) (\<lambda>len.
     bindE (calc_proto_stat_type (mr_protocol r) n (sp_proto_ratioMin opts) (sp_proto_ratioMax opts) (sp_proto_label opts)) (\<lambda>prot.
       Inr \<lparr>st_hostNicSign = host_nic_name, st_isSrcIPRandom = (k = ''RANDOM''),
         st_srcIP = (if k = ''RANDOM'' then CIDR 0 32 else case map_of conv k of None \<Rightarrow> CIDR 0 32 | Some c \<Rightarrow> c),
         st_dstIP = \<lparr>ns_stat_type = [], ns_value = mr_dstIP r\<rparr>, st_srcPort = sport, st_dstPort = dport,
         st_length = len, st_protocol = prot\<rparr>))))))))"

definition SndSIPBaseMergeTask_Process :: "sip_options \<Rightarrow> int \<Rightarrow> val task_context \<Rightarrow> (int \<times> val task_context) outcome" where
  "SndSIPBaseMergeTask_Process opts junk ctx = finish junk ctx
     (need (input_tag as_packets (ctx_inputs ctx) ''PACKET'') (\<lambda>packets.
      need (input_tag as_attackers (ctx_inputs ctx) ''SIP'') (\<lambda>attacker_ip_merge.
      need (input_tag as_string (ctx_inputs ctx) ''NIC'') (\<lambda>host_nic_name.
        bindE (foldE (\<lambda>e all_stat. bindE (make_stat opts host_nic_name (convert_map (ar_attackerIPs attacker_ip_merge)) e)
            (\<lambda>stat. Inr (um_insert (fst e) stat all_stat)))
          (merge_packets packets attacker_ip_merge) []) (\<lambda>all_stat.
        Inr (Some (VStats all_stat)))))))"

section \<open>What a group holds\<close>

text \<open>The abstract view of a merge result: the statistics of a bag of packets.\<close>

definition column :: "string \<Rightarrow> packet list \<Rightarrow> u32 set" where
  "column f ps = (\<lambda>p. fld p f) ` set ps"

definition holds_column :: "u32 list \<Rightarrow> string \<Rightarrow> packet list \<Rightarrow> bool" where
  "holds_column xs f ps \<longleftrightarrow> distinct xs \<and> set xs = column f ps"

definition protocol_count :: "packet list \<Rightarrow> int \<Rightarrow> nat" where
  "protocol_count ps q = length (filter (\<lambda>p. sint (fld p ''Protocol'') = q) ps)"

definition summarises :: "sip_merge_result \<Rightarrow> packet list \<Rightarrow> bool" where
  "summarises r ps \<longleftrightarrow> mr_packet_total r = int (length ps) \<and>
     holds_column (mr_sport r) ''SPort'' ps \<and> holds_column (mr_dport r) ''DPort'' ps \<and>
     holds_column (mr_length r) ''Length'' ps \<and> holds_column (mr_dstIP r) ''DIP'' ps \<and>
     um_invar (mr_protocol r) \<and>
     (\<forall>q. map_of (mr_protocol r) q = (if protocol_count ps q = 0 then None else Some (int (protocol_count ps q))))"

lemma holds_column_insert: "holds_column xs f ps \<Longrightarrow> holds_column (us_insert (fld p f) xs) f (ps @ [p])"
  by (auto simp: holds_column_def column_def)

lemma protocol_count_snoc: "protocol_count (ps @ [p]) q = protocol_count ps q + of_bool (sint (fld p ''Protocol'') = q)"
  by (simp add: protocol_count_def)

lemma summarises_fresh: "summarises SIPBaseMergeResult []"
  by (simp add: summarises_def SIPBaseMergeResult_def holds_column_def column_def protocol_count_def)

lemma summarises_add: "summarises r ps \<Longrightarrow> summarises (add_packet p r) (ps @ [p])"
  by (auto simp: summarises_def add_packet_def holds_column_insert um_invar_update um_lookup_update protocol_count_snoc)

lemma summarises_fold: "summarises r ps \<Longrightarrow> summarises (fold add_packet qs r) (ps @ qs)"
proof (induction qs arbitrary: r ps)
  case (Cons q qs)
  from Cons.IH [OF summarises_add [OF Cons.prems, of q]] show ?case by simp
qed simp

lemma summarises_perm:
  assumes "mset ps = mset qs"
  shows "summarises r ps \<longleftrightarrow> summarises r qs"
proof -
  have "set ps = set qs" "length ps = length qs" using assms by (metis set_mset_mset, metis size_mset)
  moreover have "protocol_count ps q = protocol_count qs q" for q
    using assms unfolding protocol_count_def by (metis mset_filter size_mset)
  ultimately show ?thesis by (simp add: summarises_def holds_column_def column_def)
qed

section \<open>Who joins which group\<close>

lemma belongs_iff:
  assumes "wf_cidr c" "1 \<le> cidr_len c"
  shows "belongs c ip \<longleftrightarrow> ip \<in> cidr_set c"
proof -
  have "shr_u32 (cidr_ip c XOR ip) (32 - cidr_len c) = drop_bit (host_bits c) (cidr_ip c) XOR drop_bit (host_bits c) ip"
    using assms by (simp add: shr_u32_drop_bit wf_cidr_def host_bits_def drop_bit_xor)
  then show ?thesis using assms
    by (auto simp: belongs_def wf_cidr_def cidr_set_def addr_block_def xor_zero_iff)
qed

lemma digits_split:
  assumes "a @ ''/'' @ b = a' @ ''/'' @ b'" "\<forall>c\<in>set a. isdigit c" "\<forall>c\<in>set a'. isdigit c"
  shows "a = a' \<and> b = b'"
proof -
  have slash: "\<not> isdigit (CHR ''/'')" by (simp add: isdigit_def)
  have "takeWhile isdigit (a @ ''/'' @ b) = a" "takeWhile isdigit (a' @ ''/'' @ b') = a'"
    using assms(2,3) slash by (simp_all add: takeWhile_append takeWhile_eq_all_conv [THEN iffD2])
  then have "a = a'" using assms(1) by simp
  then show ?thesis using assms(1) by simp
qed

lemma cidr_string_inj:
  assumes "cidr_string c = cidr_string d" "0 \<le> cidr_len c" "0 \<le> cidr_len d"
  shows "c = d"
proof -
  have "\<forall>x\<in>set (to_string (int (unat (cidr_ip e)))). isdigit x" for e :: cidr
    by (auto simp: to_string_def nat_string_isdigit)
  then have "to_string (int (unat (cidr_ip c))) = to_string (int (unat (cidr_ip d)))" "to_string (cidr_len c) = to_string (cidr_len d)"
    using digits_split [OF assms(1) [unfolded cidr_string_def]] by auto
  from to_string_inj [OF _ _ this(1)] to_string_inj [OF assms(2,3) this(2)]
  have "cidr_ip c = cidr_ip d" "cidr_len c = cidr_len d" by (simp_all add: word_uint_eq_iff)
  then show ?thesis by (metis CIDR_collapse)
qed

lemma cidr_string_not_random: "cidr_string c \<noteq> ''RANDOM''"
proof
  assume "cidr_string c = ''RANDOM''"
  then have "hd (nat_string (unat (cidr_ip c))) = CHR ''R''"
    by (cases "nat_string (unat (cidr_ip c))") (auto simp: cidr_string_def to_string_def)
  then have "isdigit (CHR ''R'')" by (metis nat_string_isdigit nat_string_neq hd_in_set)
  then show False by (simp add: isdigit_def)
qed

text \<open>The packets of a group, and the random packets.\<close>

definition group_packets :: "packet list \<Rightarrow> attacker_result \<Rightarrow> string \<Rightarrow> packet list" where
  "group_packets ps a k = (if k = ''RANDOM'' then filter (\<lambda>p. ar_containRandomAttack a \<and> fld p ''SIP'' \<in> set (ar_randomIPs a)) ps
     else filter (\<lambda>p. group_of (ar_attackerIPs a) p = Some k) ps)"

lemma group_of_not_random: "group_of ips p \<noteq> Some ''RANDOM''"
  by (auto simp: group_of_def cidr_string_not_random)

lemma or_fresh_simps [simp]: "or_fresh None = SIPBaseMergeResult" "or_fresh (Some r) = r"
  by (simp_all add: or_fresh_def)

lemma fold_or_fresh:
  "fold (\<lambda>p v. Some (add_packet p (or_fresh v))) qs v = (if qs = [] then v else Some (fold add_packet qs (or_fresh v)))"
  by (induction qs arbitrary: v) simp_all

lemma merge_groups:
  "fst (fold (merge_step ips) ps ([], [], 0)) =
     fold (\<lambda>p. um_update (the (group_of ips p)) (\<lambda>v. add_packet p (or_fresh v))) (filter (\<lambda>p. group_of ips p \<noteq> None) ps) []"
proof (induction ps rule: rev_induct)
  case (snoc p ps)
  then show ?case by (auto simp: merge_step_def split: prod.split option.split)
qed simp

lemma merge_groups_lookup:
  "map_of (fst (fold (merge_step ips) ps ([], [], 0))) k =
     (let qs = filter (\<lambda>p. group_of ips p = Some k) ps in if qs = [] then None else Some (fold add_packet qs SIPBaseMergeResult))"
proof -
  have "filter (\<lambda>p. the (group_of ips p) = k) (filter (\<lambda>p. group_of ips p \<noteq> None) ps) = filter (\<lambda>p. group_of ips p = Some k) ps"
    by (induction ps) auto
  then show ?thesis
    unfolding merge_groups by (subst umap.lookup_fold) (simp_all add: fold_or_fresh Let_def)
qed

lemma merge_groups_invar: "um_invar (fst (fold (merge_step ips) ps ([], [], 0)))"
  unfolding merge_groups by (rule umap.invar_fold) simp

lemma merge_positions:
  "\<exists>all pos. fold (merge_step ips) ps ([], [], 0) = (all, pos, length ps) \<and>
     (\<forall>ip. (case map_of pos ip of None \<Rightarrow> [] | Some is \<Rightarrow> is) = filter (\<lambda>i. fld (ps ! i) ''SIP'' = ip) [0..<length ps])"
proof (induction ps rule: rev_induct)
  case (snoc p ps)
  then obtain all pos where pos: "fold (merge_step ips) ps ([], [], 0) = (all, pos, length ps)"
    "\<forall>ip. (case map_of pos ip of None \<Rightarrow> [] | Some is \<Rightarrow> is) = filter (\<lambda>i. fld (ps ! i) ''SIP'' = ip) [0..<length ps]"
    by blast
  have "filter (\<lambda>i. fld ((ps @ [p]) ! i) ''SIP'' = ip) [0..<length ps] = filter (\<lambda>i. fld (ps ! i) ''SIP'' = ip) [0..<length ps]" for ip
    by (intro filter_cong) (auto simp: nth_append)
  then have "\<exists>all' pos'. merge_step ips p (all, pos, length ps) = (all', pos', Suc (length ps)) \<and>
      (\<forall>ip. (case map_of pos' ip of None \<Rightarrow> [] | Some is \<Rightarrow> is) = filter (\<lambda>i. fld ((ps @ [p]) ! i) ''SIP'' = ip) [0..<Suc (length ps)])"
    using pos(2) by (simp add: merge_step_def um_lookup_update)
  then show ?case using pos(1) by simp
qed simp

lemma filter_by_index: "map ((!) ps) (filter (\<lambda>i. P (ps ! i)) [0..<length ps]) = filter P ps"
  using filter_map [of P "(!) ps" "[0..<length ps]"] by (simp add: comp_def map_nth)

lemma fold_by_index: "fold (\<lambda>i. f (ps ! i)) (filter (\<lambda>i. P (ps ! i)) [0..<length ps]) = fold f (filter P ps)"
proof -
  have "fold f (filter P ps) = fold f (map ((!) ps) (filter (\<lambda>i. P (ps ! i)) [0..<length ps]))" by (simp only: filter_by_index)
  then show ?thesis by (simp add: fold_map comp_def)
qed

lemma mset_split_by:
  assumes "distinct ks"
  shows "mset (concat (map (\<lambda>k. filter (\<lambda>p. f p = k) ps) ks)) = mset (filter (\<lambda>p. f p \<in> set ks) ps)"
  using assms
proof (induction ks)
  case (Cons k ks)
  have "mset (filter (\<lambda>p. f p = k \<or> f p \<in> set ks) ps) = mset (filter (\<lambda>p. f p = k) ps) + mset (filter (\<lambda>p. f p \<in> set ks) ps)"
    using Cons.prems by (induction ps) auto
  then show ?case using Cons by simp
qed simp

lemma merge_random_value:
  assumes "distinct (ar_randomIPs a)" "ar_containRandomAttack a"
  shows "\<exists>r. merge_packets ps a = um_insert ''RANDOM'' r (fst (fold (merge_step (ar_attackerIPs a)) ps ([], [], 0))) \<and>
    summarises r (group_packets ps a ''RANDOM'')"
proof -
  obtain all pos where pos: "fold (merge_step (ar_attackerIPs a)) ps ([], [], 0) = (all, pos, length ps)"
    "\<forall>ip. (case map_of pos ip of None \<Rightarrow> [] | Some is \<Rightarrow> is) = filter (\<lambda>i. fld (ps ! i) ''SIP'' = ip) [0..<length ps]"
    using merge_positions by blast
  define qs where "qs = concat (map (\<lambda>ip. filter (\<lambda>p. fld p ''SIP'' = ip) ps) (ar_randomIPs a))"
  have all: "map_of all ''RANDOM'' = None"
    using merge_groups_lookup [of "ar_attackerIPs a" ps "''RANDOM''"] pos(1) by (simp add: Let_def group_of_not_random filter_empty_conv)
  have "merge_packets ps a = um_update ''RANDOM'' (\<lambda>v. fold (\<lambda>ip. fold (\<lambda>index. add_packet (ps ! index))
      (filter (\<lambda>i. fld (ps ! i) ''SIP'' = ip) [0..<length ps])) (ar_randomIPs a) (or_fresh v)) all"
    using assms(2) by (simp only: merge_packets_def merge_random_def pos prod.case if_True spec [OF pos(2)])
  also have "\<dots> = um_insert ''RANDOM'' (fold (\<lambda>ip. fold (\<lambda>index. add_packet (ps ! index))
      (filter (\<lambda>i. fld (ps ! i) ''SIP'' = ip) [0..<length ps])) (ar_randomIPs a) SIPBaseMergeResult) all"
    by (rule trans [OF um_update_new [OF all]]) (simp only: or_fresh_simps)
  also have "fold (\<lambda>ip. fold (\<lambda>index. add_packet (ps ! index)) (filter (\<lambda>i. fld (ps ! i) ''SIP'' = ip) [0..<length ps]))
      (ar_randomIPs a) SIPBaseMergeResult = fold add_packet qs SIPBaseMergeResult"
    by (simp add: fold_by_index [where P = "\<lambda>p. fld p ''SIP'' = ip" for ip] qs_def fold_concat_lists fold_map comp_def)
  finally have run: "merge_packets ps a = um_insert ''RANDOM'' (fold add_packet qs SIPBaseMergeResult) all" .
  have perm: "mset qs = mset (group_packets ps a ''RANDOM'')"
    using mset_split_by [OF assms(1)] assms(2) by (simp add: qs_def group_packets_def)
  have "summarises (fold add_packet qs SIPBaseMergeResult) (group_packets ps a ''RANDOM'')"
    using summarises_fold [OF summarises_fresh, of qs] by (simp only: append_Nil summarises_perm [OF perm])
  then show ?thesis using run unfolding pos(1) fst_conv by blast
qed

text \<open>The whole grouping, as a refinement: every entry of the table summarises the packets of its group,
  and a group without packets has no entry, except the one for random attackers.\<close>

lemma merge_packets_groups:
  assumes "distinct (ar_randomIPs a)"
  shows "um_invar (merge_packets ps a)"
    and "map_of (merge_packets ps a) k = Some r \<Longrightarrow> summarises r (group_packets ps a k)"
    and "map_of (merge_packets ps a) k = None \<longleftrightarrow>
      group_packets ps a k = [] \<and> \<not> (k = ''RANDOM'' \<and> ar_containRandomAttack a)"
proof -
  let ?all = "fst (fold (merge_step (ar_attackerIPs a)) ps ([], [], 0))"
  have plain: "merge_packets ps a = ?all" if "\<not> ar_containRandomAttack a"
    using that by (simp add: merge_packets_def split: prod.split)
  have qs: "filter (\<lambda>p. group_of (ar_attackerIPs a) p = Some k) ps = (if k = ''RANDOM'' then [] else group_packets ps a k)" for k
    by (auto simp: group_packets_def group_of_not_random)
  have sum: "summarises (fold add_packet qs SIPBaseMergeResult) qs" for qs
    using summarises_fold [OF summarises_fresh, of qs] by simp
  show "um_invar (merge_packets ps a)"
  proof (cases "ar_containRandomAttack a")
    case True
    then obtain r where "merge_packets ps a = um_insert ''RANDOM'' r ?all" using merge_random_value [OF assms] by blast
    then show ?thesis by (simp only: um_invar_update merge_groups_invar)
  qed (simp add: plain merge_groups_invar)
  show "summarises r (group_packets ps a k)" if "map_of (merge_packets ps a) k = Some r"
  proof (cases "ar_containRandomAttack a")
    case True
    then show ?thesis using merge_random_value [OF assms True, of ps] that sum [of "group_packets ps a k"]
      by (auto simp: um_lookup_update merge_groups_lookup qs Let_def split: if_splits)
  next
    case False
    then show ?thesis using that sum [of "group_packets ps a k"]
      by (auto simp: plain merge_groups_lookup qs Let_def split: if_splits)
  qed
  show "map_of (merge_packets ps a) k = None \<longleftrightarrow> group_packets ps a k = [] \<and> \<not> (k = ''RANDOM'' \<and> ar_containRandomAttack a)"
  proof (cases "ar_containRandomAttack a")
    case True
    then show ?thesis using merge_random_value [OF assms True, of ps]
      by (auto simp: um_lookup_update merge_groups_lookup qs Let_def split: if_splits)
  next
    case False
    moreover have "group_packets ps a ''RANDOM'' = []" using False by (simp add: group_packets_def)
    ultimately show ?thesis by (auto simp: plain merge_groups_lookup qs Let_def split: if_splits)
  qed
qed

section \<open>Groups are blocks\<close>

definition blocks_ok :: "cidr list \<Rightarrow> bool" where
  "blocks_ok cs \<longleftrightarrow> (\<forall>c\<in>set cs. wf_cidr c \<and> 1 \<le> cidr_len c) \<and>
     (\<forall>c\<in>set cs. \<forall>d\<in>set cs. c \<noteq> d \<longrightarrow> cidr_set c \<inter> cidr_set d = {})"

lemma group_of_block:
  assumes "blocks_ok ips" "c \<in> set ips"
  shows "group_of ips p = Some (cidr_string c) \<longleftrightarrow> fld p ''SIP'' \<in> cidr_set c"
proof
  assume "group_of ips p = Some (cidr_string c)"
  then obtain d where d: "find (\<lambda>c. belongs c (fld p ''SIP'')) ips = Some d" "cidr_string d = cidr_string c"
    by (auto simp: group_of_def)
  then have mem: "d \<in> set ips" "belongs d (fld p ''SIP'')" by (auto simp: find_Some_iff)
  have ok: "0 \<le> cidr_len d" "0 \<le> cidr_len c" "wf_cidr d" "1 \<le> cidr_len d" using assms mem(1) by (auto simp: blocks_ok_def)
  then have "d = c" using cidr_string_inj [OF d(2)] by simp
  then show "fld p ''SIP'' \<in> cidr_set c" using belongs_iff [OF ok(3,4)] mem(2) by simp
next
  assume ip: "fld p ''SIP'' \<in> cidr_set c"
  have "belongs c (fld p ''SIP'')" using assms ip belongs_iff [of c] by (auto simp: blocks_ok_def)
  then obtain d where d: "find (\<lambda>c. belongs c (fld p ''SIP'')) ips = Some d"
    using assms(2) by (cases "find (\<lambda>c. belongs c (fld p ''SIP'')) ips") (auto simp: find_None_iff)
  then have mem: "d \<in> set ips" "belongs d (fld p ''SIP'')" by (auto simp: find_Some_iff)
  then have "fld p ''SIP'' \<in> cidr_set d" using assms(1) belongs_iff [of d] by (auto simp: blocks_ok_def)
  then have "d = c" using assms mem(1) ip by (auto simp: blocks_ok_def)
  then show "group_of ips p = Some (cidr_string c)" using d by (simp add: group_of_def)
qed

text \<open>C15: when the attacker blocks are well formed and pairwise disjoint, the merge keeps one entry per
  block that some packet comes from, and the entry summarises exactly the packets whose source
  address lies in the block: their number, their ports, lengths and destinations without
  repetition, and the count of each protocol. The entry for random attackers summarises exactly the
  packets from the random addresses.\<close>

theorem merge_packets_refines:
  assumes "blocks_ok (ar_attackerIPs a)" "distinct (ar_randomIPs a)" "c \<in> set (ar_attackerIPs a)"
  shows "(case map_of (merge_packets ps a) (cidr_string c) of
        None \<Rightarrow> \<forall>p\<in>set ps. fld p ''SIP'' \<notin> cidr_set c
      | Some r \<Rightarrow> summarises r (filter (\<lambda>p. fld p ''SIP'' \<in> cidr_set c) ps)) \<and>
    (case map_of (merge_packets ps a) ''RANDOM'' of
        None \<Rightarrow> \<not> ar_containRandomAttack a
      | Some r \<Rightarrow> ar_containRandomAttack a \<and> summarises r (filter (\<lambda>p. fld p ''SIP'' \<in> set (ar_randomIPs a)) ps))"
proof -
  have block: "group_packets ps a (cidr_string c) = filter (\<lambda>p. fld p ''SIP'' \<in> cidr_set c) ps"
    using group_of_block [OF assms(1,3)] by (simp add: group_packets_def cidr_string_not_random)
  have rand: "group_packets ps a ''RANDOM'' = (if ar_containRandomAttack a then filter (\<lambda>p. fld p ''SIP'' \<in> set (ar_randomIPs a)) ps else [])"
    by (simp add: group_packets_def)
  note g = merge_packets_groups [OF assms(2), of ps]
  have plain: "map_of (merge_packets ps a) ''RANDOM'' = None" if "\<not> ar_containRandomAttack a"
    using g(3) [of "''RANDOM''"] that by (simp add: rand)
  show ?thesis
  proof
    show "case map_of (merge_packets ps a) (cidr_string c) of None \<Rightarrow> \<forall>p\<in>set ps. fld p ''SIP'' \<notin> cidr_set c
        | Some r \<Rightarrow> summarises r (filter (\<lambda>p. fld p ''SIP'' \<in> cidr_set c) ps)"
      using g(2,3) [of "cidr_string c"] by (auto simp: block filter_empty_conv split: option.split)
    show "case map_of (merge_packets ps a) ''RANDOM'' of None \<Rightarrow> \<not> ar_containRandomAttack a
        | Some r \<Rightarrow> ar_containRandomAttack a \<and> summarises r (filter (\<lambda>p. fld p ''SIP'' \<in> set (ar_randomIPs a)) ps)"
      using g(2,3) [of "''RANDOM''"] plain by (auto simp: rand split: option.split if_splits)
  qed
qed

definition demo_packet :: "u32 \<Rightarrow> packet" where
  "demo_packet ip = [(''SIP'', ip), (''SPort'', 80), (''DPort'', 443), (''Length'', 64), (''Protocol'', 6), (''DIP'', 9)]"

theorem merge_packets_refines_witness:
  "\<exists>r. map_of (merge_packets [demo_packet 8, demo_packet 9, demo_packet 77]
        \<lparr>ar_attackerIPs = [CIDR 8 31], ar_containRandomAttack = False, ar_randomIPs = []\<rparr>) (cidr_string (CIDR 8 31)) = Some r \<and>
     summarises r (filter (\<lambda>p. fld p ''SIP'' \<in> cidr_set (CIDR 8 31)) [demo_packet 8, demo_packet 9, demo_packet 77]) \<and>
     mr_packet_total r = 2"
proof -
  let ?a = "\<lparr>ar_attackerIPs = [CIDR 8 31], ar_containRandomAttack = False, ar_randomIPs = []\<rparr>"
  let ?ps = "[demo_packet 8, demo_packet 9, demo_packet 77]"
  have "wf_cidr (CIDR 8 31)" by code_simp
  then have ok: "blocks_ok (ar_attackerIPs ?a)" by (simp add: blocks_ok_def)
  have "map_option mr_packet_total (map_of (merge_packets ?ps ?a) (cidr_string (CIDR 8 31))) = Some 2" by code_simp
  then obtain r where r: "map_of (merge_packets ?ps ?a) (cidr_string (CIDR 8 31)) = Some r" "mr_packet_total r = 2" by auto
  then show ?thesis using merge_packets_refines [OF ok, of "CIDR 8 31" ?ps] by simp
qed

section \<open>Labelling a group\<close>

lemma calc_number_label:
  assumes "distinct vals" "vals \<noteq> []" "length ls = 4"
  shows "calc_number_stat_type vals n lo hi ls = Inr (ls ! number_class (card (set vals)) (card (gaps (set vals)))
    (dmul (double_of_int n) lo) (dmul (double_of_int n) hi))"
  using assms by (simp add: calc_number_stat_type_def Let_def label_at_def insert_diffs_count number_class_def distinct_card)

lemma foldE_um_build:
  assumes "\<And>e. e \<in> set es \<Longrightarrow> f e = Inr (g e)" "distinct (map fst es)" "fst ` set es \<inter> fst ` set acc = {}"
  shows "foldE (\<lambda>e m. bindE (f e) (\<lambda>v. Inr (um_insert (fst e) v m))) es acc = Inr (acc @ map (\<lambda>e. (fst e, g e)) es)"
  using assms
proof (induction es arbitrary: acc)
  case (Cons e es)
  have new: "um_insert k v m = m @ [(k, v)]" if "k \<notin> fst ` set m" for k v and m :: "('a \<times> 'c) list"
    using that by (induction m) auto
  have "fst e \<notin> fst ` set acc" using Cons.prems(3) by auto
  then have "foldE (\<lambda>e m. bindE (f e) (\<lambda>v. Inr (um_insert (fst e) v m))) (e # es) acc =
      foldE (\<lambda>e m. bindE (f e) (\<lambda>v. Inr (um_insert (fst e) v m))) es (acc @ [(fst e, g e)])"
    using Cons.prems(1) by (simp add: new)
  also have "\<dots> = Inr ((acc @ [(fst e, g e)]) @ map (\<lambda>e. (fst e, g e)) es)"
    by (rule Cons.IH) (use Cons.prems in auto)
  finally show ?case by simp
qed simp

definition proto_label :: "sip_options \<Rightarrow> int \<Rightarrow> int \<Rightarrow> string" where
  "proto_label opts n c = sp_proto_label opts ! (if dge (double_of_int c) (dmul (double_of_int n) (sp_proto_ratioMax opts)) then 0
     else if dge (double_of_int c) (dmul (double_of_int n) (sp_proto_ratioMin opts)) then 1 else 2)"

lemma calc_proto_label:
  assumes "distinct (map fst m)" "length (sp_proto_label opts) = 3"
  shows "calc_proto_stat_type m n (sp_proto_ratioMin opts) (sp_proto_ratioMax opts) (sp_proto_label opts) =
    Inr (map (\<lambda>(q, c). (q, proto_label opts n c)) m)"
proof -
  have "foldE (\<lambda>e stats. bindE (label_at (sp_proto_label opts)
        (if dge (double_of_int (snd e)) (dmul (double_of_int n) (sp_proto_ratioMax opts)) then 0
         else if dge (double_of_int (snd e)) (dmul (double_of_int n) (sp_proto_ratioMin opts)) then 1 else 2)) (\<lambda>l. Inr (um_insert (fst e) l stats))) m [] =
      Inr ([] @ map (\<lambda>e. (fst e, proto_label opts n (snd e))) m)"
    by (rule foldE_um_build) (use assms in \<open>auto simp: label_at_def proto_label_def\<close>)
  then show ?thesis by (simp add: calc_proto_stat_type_def Let_def case_prod_unfold)
qed

text \<open>A labelled column: its class, and its values where the class is the first label.\<close>

definition labelled :: "sip_options \<Rightarrow> packet list \<Rightarrow> string \<Rightarrow> number_stats \<Rightarrow> bool" where
  "labelled opts qs f s \<longleftrightarrow> (let K = column f qs; n = double_of_int (int (length qs)) in
     ns_stat_type s = sp_num_label opts ! number_class (card K) (card (gaps K)) (dmul n (sp_num_ratioMin opts)) (dmul n (sp_num_ratioMax opts)) \<and>
     set (ns_value s) = (if ns_stat_type s = sp_num_label opts ! 0 then K else {}))"

definition stat_ok :: "sip_options \<Rightarrow> string \<Rightarrow> string \<Rightarrow> packet list \<Rightarrow> sip_stats \<Rightarrow> bool" where
  "stat_ok opts nic k qs st \<longleftrightarrow> st_hostNicSign st = nic \<and> (st_isSrcIPRandom st \<longleftrightarrow> k = ''RANDOM'') \<and>
     (k \<noteq> ''RANDOM'' \<longrightarrow> cidr_string (st_srcIP st) = k) \<and>
     set (ns_value (st_dstIP st)) = column ''DIP'' qs \<and> labelled opts qs ''SPort'' (st_srcPort st) \<and>
     labelled opts qs ''DPort'' (st_dstPort st) \<and> labelled opts qs ''Length'' (st_length st) \<and>
     set (st_protocol st) = {(q, proto_label opts (int (length qs)) (int (protocol_count qs q))) |q. protocol_count qs q \<noteq> 0}"

lemma number_stat_labelled:
  assumes "holds_column vals f qs" "qs \<noteq> []" "length (sp_num_label opts) = 4"
  shows "\<exists>ty s. calc_number_stat_type vals (int (length qs)) (sp_num_ratioMin opts) (sp_num_ratioMax opts) (sp_num_label opts) = Inr ty \<and>
    number_stat opts ty vals = Inr s \<and> labelled opts qs f s"
proof -
  have "vals \<noteq> []" using assms(1,2) by (auto simp: holds_column_def column_def)
  then show ?thesis using assms
    by (simp add: calc_number_label holds_column_def number_stat_def label_at_def labelled_def Let_def)
qed

lemma convert_map_lookup:
  "c \<in> set ips \<Longrightarrow> \<exists>d. map_of (convert_map ips) (cidr_string c) = Some d \<and> cidr_string d = cidr_string c"
proof (induction ips rule: rev_induct)
  case (snoc d ips)
  have "om_invar (convert_map ips)" unfolding convert_map_def by (rule omap.invar_fold) simp
  then have "map_of (convert_map (ips @ [d])) = (map_of (convert_map ips))(cidr_string d \<mapsto> d)"
    by (simp add: convert_map_def om_lookup_update)
  then show ?case using snoc by auto
qed simp

lemma summarised_protocols:
  assumes "summarises r qs"
  shows "set (map (\<lambda>(q, c). (q, proto_label opts (int (length qs)) c)) (mr_protocol r)) =
    {(q, proto_label opts (int (length qs)) (int (protocol_count qs q))) |q. protocol_count qs q \<noteq> 0}"
proof -
  have inv: "um_invar (mr_protocol r)"
    and cnt: "map_of (mr_protocol r) q = (if protocol_count qs q = 0 then None else Some (int (protocol_count qs q)))" for q
    using assms unfolding summarises_def by blast+
  have "(q, c) \<in> set (mr_protocol r) \<longleftrightarrow> protocol_count qs q \<noteq> 0 \<and> c = int (protocol_count qs q)" for q c
    using cnt [of q] map_of_eq_Some_iff [OF inv, of q c] by (auto split: if_splits)
  then show ?thesis by (auto simp: image_iff)
qed

lemma make_stat_ok:
  assumes "summarises r qs" "qs \<noteq> []" "SndSIPBaseMergeTask_Open opts = 0"
    and "k \<noteq> ''RANDOM'' \<Longrightarrow> \<exists>c. map_of conv k = Some c \<and> cidr_string c = k"
  shows "\<exists>st. make_stat opts nic conv (k, r) = Inr st \<and> stat_ok opts nic k qs st"
proof -
  have len: "length (sp_num_label opts) = 4" "length (sp_proto_label opts) = 3"
    using assms(3) by (auto simp: SndSIPBaseMergeTask_Open_def split: if_splits)
  note cols = assms(1) [unfolded summarises_def]
  from number_stat_labelled [OF _ assms(2) len(1)] cols
  obtain t1 s1 t2 s2 t3 s3 where s:
    "calc_number_stat_type (mr_sport r) (int (length qs)) (sp_num_ratioMin opts) (sp_num_ratioMax opts) (sp_num_label opts) = Inr t1"
    "number_stat opts t1 (mr_sport r) = Inr s1" "labelled opts qs ''SPort'' s1"
    "calc_number_stat_type (mr_dport r) (int (length qs)) (sp_num_ratioMin opts) (sp_num_ratioMax opts) (sp_num_label opts) = Inr t2"
    "number_stat opts t2 (mr_dport r) = Inr s2" "labelled opts qs ''DPort'' s2"
    "calc_number_stat_type (mr_length r) (int (length qs)) (sp_num_ratioMin opts) (sp_num_ratioMax opts) (sp_num_label opts) = Inr t3"
    "number_stat opts t3 (mr_length r) = Inr s3" "labelled opts qs ''Length'' s3"
    by meson
  have inv: "um_invar (mr_protocol r)" using cols by blast
  note prot = summarised_protocols [OF assms(1), of opts]
  show ?thesis using cols s calc_proto_label [OF inv len(2)] prot assms(4)
    by (auto simp: make_stat_def Let_def stat_ok_def holds_column_def)
qed

text \<open>C33: from packets, attacker blocks and the name of the network card the task emits one record per
  group of packets: the destinations of the group, its ports and packet lengths labelled by how many
  values and gaps they have (with the values where the label is the first one), and the label of
  each protocol by its count. The labels must have the lengths \<open>Open\<close> checks, and an announced
  random attack must have a packet.\<close>

theorem SndSIPBaseMergeTask_stats:
  assumes "SndSIPBaseMergeTask_Open opts = 0" "can_emit junk ctx"
    and "input_tag as_packets (ctx_inputs ctx) ''PACKET'' = Inr (Some ps)"
    and "input_tag as_attackers (ctx_inputs ctx) ''SIP'' = Inr (Some a)"
    and "input_tag as_string (ctx_inputs ctx) ''NIC'' = Inr (Some nic)"
    and "distinct (ar_randomIPs a)" "ar_containRandomAttack a \<longrightarrow> (\<exists>p\<in>set ps. fld p ''SIP'' \<in> set (ar_randomIPs a))"
  shows "\<exists>m. SndSIPBaseMergeTask_Process opts junk ctx = Inr (0, emitted (Datum_val junk (VStats m)) ctx) \<and>
    distinct (map fst m) \<and> fst ` set m = {k. group_packets ps a k \<noteq> []} \<and>
    (\<forall>(k, st)\<in>set m. stat_ok opts nic k (group_packets ps a k) st)"
proof -
  let ?conv = "convert_map (ar_attackerIPs a)"
  let ?all = "merge_packets ps a"
  note g = merge_packets_groups [OF assms(6), of ps]
  have rand: "group_packets ps a ''RANDOM'' \<noteq> []" if "ar_containRandomAttack a"
    using assms(7) that by (auto simp: group_packets_def filter_empty_conv)
  then have none: "map_of ?all k = None \<longleftrightarrow> group_packets ps a k = []" for k using g(3) [of k] by auto
  have keys: "fst ` set ?all = {k. group_packets ps a k \<noteq> []}"
    using none by (auto simp: map_of_eq_None_iff)
  define mk where "mk = (\<lambda>e. projr (make_stat opts nic ?conv e))"
  have mk: "make_stat opts nic ?conv e = Inr (mk e) \<and> stat_ok opts nic (fst e) (group_packets ps a (fst e)) (mk e)" if "e \<in> set ?all" for e
  proof -
    obtain k r where e: "e = (k, r)" by (cases e)
    have "map_of ?all k = Some r" using that g(1) by (simp add: e)
    then have "summarises r (group_packets ps a k)" and ne: "group_packets ps a k \<noteq> []" using g(2) none [of k] by auto
    moreover have "\<exists>c. map_of ?conv k = Some c \<and> cidr_string c = k" if "k \<noteq> ''RANDOM''"
      using ne that convert_map_lookup by (fastforce simp: group_packets_def group_of_def filter_empty_conv find_Some_iff)
    ultimately show ?thesis using make_stat_ok [OF _ _ assms(1), of r "group_packets ps a k" k ?conv nic] by (auto simp: e mk_def)
  qed
  have "foldE (\<lambda>e m. bindE (make_stat opts nic ?conv e) (\<lambda>v. Inr (um_insert (fst e) v m))) ?all [] = Inr ([] @ map (\<lambda>e. (fst e, mk e)) ?all)"
    by (rule foldE_um_build) (use mk g(1) in auto)
  then have "SndSIPBaseMergeTask_Process opts junk ctx = Inr (0, emitted (Datum_val junk (VStats (map (\<lambda>e. (fst e, mk e)) ?all))) ctx)"
    using assms(2-5) by (simp add: SndSIPBaseMergeTask_Process_def finish_def emit_emitted)
  moreover have "\<forall>(k, st)\<in>set (map (\<lambda>e. (fst e, mk e)) ?all). stat_ok opts nic k (group_packets ps a k) st"
    using mk by auto
  moreover have "fst ` set (map (\<lambda>e. (fst e, mk e)) ?all) = {k. group_packets ps a k \<noteq> []}" "distinct (map fst (map (\<lambda>e. (fst e, mk e)) ?all))"
    using keys g(1) by (simp_all add: image_image comp_def)
  ultimately show ?thesis by blast
qed

definition sip_tags :: "(string \<times> tag_data) list" where
  "sip_tags = [(''NIC'', \<lparr>td_base = 0, td_count = 1\<rparr>), (''PACKET'', \<lparr>td_base = 1, td_count = 1\<rparr>),
     (''SIP'', \<lparr>td_base = 2, td_count = 1\<rparr>)]"

definition sip_demo :: sip_options where
  "sip_demo = \<lparr>sp_num_ratioMin = Fin (1 / 2), sp_num_ratioMax = Fin 2, sp_num_label = [''few'', ''even'', ''spread'', ''other''],
     sp_proto_ratioMin = Fin (1 / 4), sp_proto_ratioMax = Fin (1 / 2), sp_proto_label = [''much'', ''some'', ''rare'']\<rparr>"

definition sip_inputs :: "packet list \<Rightarrow> attacker_result \<Rightarrow> val input_stream collection" where
  "sip_inputs ps a = demo_inputs sip_tags [VString ''eth0'', VPackets ps, VAttackers a]"

lemma sip_inputs_tags:
  "input_tag as_packets (sip_inputs ps a) ''PACKET'' = Inr (Some ps)"
  "input_tag as_attackers (sip_inputs ps a) ''SIP'' = Inr (Some a)"
  "input_tag as_string (sip_inputs ps a) ''NIC'' = Inr (Some ''eth0'')"
  by code_simp+

theorem SndSIPBaseMergeTask_stats_witness:
  "\<exists>m st. SndSIPBaseMergeTask_Process sip_demo 1 (demo_ctx (sip_inputs [demo_packet 8, demo_packet 9]
        \<lparr>ar_attackerIPs = [CIDR 8 31], ar_containRandomAttack = False, ar_randomIPs = []\<rparr>)) =
      Inr (0, emitted (Datum_val 1 (VStats m)) (demo_ctx (sip_inputs [demo_packet 8, demo_packet 9]
        \<lparr>ar_attackerIPs = [CIDR 8 31], ar_containRandomAttack = False, ar_randomIPs = []\<rparr>))) \<and>
    (''8/31'', st) \<in> set m \<and> stat_ok sip_demo ''eth0'' ''8/31'' [demo_packet 8, demo_packet 9] st"
proof -
  let ?ps = "[demo_packet 8, demo_packet 9]"
  let ?a = "\<lparr>ar_attackerIPs = [CIDR 8 31], ar_containRandomAttack = False, ar_randomIPs = []\<rparr>"
  let ?ctx = "demo_ctx (sip_inputs ?ps ?a)"
  have o: "SndSIPBaseMergeTask_Open sip_demo = 0" by code_simp
  have g: "group_packets ?ps ?a ''8/31'' = ?ps" by code_simp
  have tags: "input_tag as_packets (ctx_inputs ?ctx) ''PACKET'' = Inr (Some ?ps)"
    "input_tag as_attackers (ctx_inputs ?ctx) ''SIP'' = Inr (Some ?a)"
    "input_tag as_string (ctx_inputs ?ctx) ''NIC'' = Inr (Some ''eth0'')"
    by (simp_all add: sip_inputs_tags)
  obtain m where m: "SndSIPBaseMergeTask_Process sip_demo 1 ?ctx = Inr (0, emitted (Datum_val 1 (VStats m)) ?ctx)"
    "fst ` set m = {k. group_packets ?ps ?a k \<noteq> []}" "\<forall>(k, st)\<in>set m. stat_ok sip_demo ''eth0'' k (group_packets ?ps ?a k) st"
    using SndSIPBaseMergeTask_stats [OF o demo_can_emit tags] by auto
  have "''8/31'' \<in> fst ` set m" unfolding m(2) by (simp add: g)
  then obtain st where "(''8/31'', st) \<in> set m" by auto
  then show ?thesis using m(1,3) g by fastforce
qed

section \<open>A random attack without packets\<close>

lemma foldE_fails:
  assumes "\<And>e s x. e \<in> set es \<Longrightarrow> f e s = Inl x \<Longrightarrow> x = err" "e0 \<in> set es" "\<And>s. \<exists>x. f e0 s = Inl x"
  shows "foldE f es s = Inl err"
  using assms(1,2)
proof (induction es arbitrary: s)
  case (Cons e es)
  show ?case
  proof (cases "f e s")
    case (Inl x)
    then show ?thesis using Cons.prems(1) [of e s x] by simp
  next
    case (Inr s')
    then have "e \<noteq> e0" using assms(3) [of s] by auto
    then have "e0 \<in> set es" using Cons.prems(2) by simp
    then have "foldE f es s' = Inl err" by (rule Cons.IH [rotated]) (auto intro: Cons.prems(1))
    then show ?thesis using Inr by simp
  qed
qed simp

lemma label_at_error: "label_at ls i = Inl x \<Longrightarrow> x = Undefined"
  by (simp add: label_at_def split: if_splits)

lemma bindE_error: "bindE r f = Inl x \<longleftrightarrow> r = Inl x \<or> (\<exists>v. r = Inr v \<and> f v = Inl x)"
  by (cases r) auto

lemma foldE_error:
  assumes "\<And>e s x. f e s = Inl x \<Longrightarrow> x = err"
  shows "foldE f es s = Inl x \<Longrightarrow> x = err"
  by (induction es arbitrary: s) (auto simp: bindE_error dest: assms)

lemma make_stat_error: "make_stat opts nic conv e = Inl x \<Longrightarrow> x = Undefined"
proof -
  have n: "x = Undefined" if "calc_number_stat_type vals n lo hi ls = Inl x" for vals n lo hi ls
    using that by (auto simp: calc_number_stat_type_def Let_def label_at_error split: if_splits)
  have p: "x = Undefined" if "calc_proto_stat_type m n lo hi ls = Inl x" for m n lo hi ls
    using that unfolding calc_proto_stat_type_def Let_def
    by (rule foldE_error [rotated]) (auto simp: bindE_error label_at_error split: prod.splits)
  have c: "x = Undefined" if "number_stat opts ty vals = Inl x" for ty vals
    using that by (auto simp: number_stat_def bindE_error label_at_error)
  assume "make_stat opts nic conv e = Inl x"
  then show ?thesis unfolding make_stat_def Let_def by (cases e) (auto simp: bindE_error dest: n p c)
qed

text \<open>An attack announced as random although no packet comes from a random address leaves an
  empty group, and the loop over its gaps runs past the end of an empty vector, because the bound
  \<open>keys.size() - 1\<close> wraps around.\<close>

lemma SndSIPBaseMergeTask_empty_group:
  assumes "distinct (ar_randomIPs a)" "ar_containRandomAttack a"
    and "\<forall>p\<in>set ps. fld p ''SIP'' \<notin> set (ar_randomIPs a)"
    and "input_tag as_packets (ctx_inputs ctx) ''PACKET'' = Inr (Some ps)"
    and "input_tag as_attackers (ctx_inputs ctx) ''SIP'' = Inr (Some a)"
    and "input_tag as_string (ctx_inputs ctx) ''NIC'' = Inr (Some nic)"
  shows "SndSIPBaseMergeTask_Process opts junk ctx = Inl Undefined"
proof -
  let ?conv = "convert_map (ar_attackerIPs a)"
  obtain r where r: "map_of (merge_packets ps a) ''RANDOM'' = Some r" "summarises r (group_packets ps a ''RANDOM'')"
    using merge_packets_groups(2,3) [OF assms(1), of ps "''RANDOM''"] assms(2) by fastforce
  have "group_packets ps a ''RANDOM'' = []" using assms(3) by (simp add: group_packets_def filter_empty_conv)
  then have "mr_sport r = []" using r(2) by (simp add: summarises_def holds_column_def column_def)
  then have bad: "make_stat opts nic ?conv (''RANDOM'', r) = Inl Undefined" by (simp add: make_stat_def calc_number_stat_type_def)
  have "foldE (\<lambda>e m. bindE (make_stat opts nic ?conv e) (\<lambda>v. Inr (um_insert (fst e) v m))) (merge_packets ps a) [] = Inl Undefined"
    by (rule foldE_fails [OF _ map_of_SomeD [OF r(1)]]) (auto simp: bad bindE_error dest: make_stat_error)
  then show ?thesis using assms(4-6) by (simp add: SndSIPBaseMergeTask_Process_def finish_def)
qed

lemma SndSIPBaseMergeTask_empty_group_example:
  "SndSIPBaseMergeTask_Process sip_demo 1 (demo_ctx (sip_inputs [demo_packet 8]
     \<lparr>ar_attackerIPs = [], ar_containRandomAttack = True, ar_randomIPs = [5]\<rparr>)) = Inl Undefined"
  by (rule SndSIPBaseMergeTask_empty_group [where ps = "[demo_packet 8]" and
        a = "\<lparr>ar_attackerIPs = [], ar_containRandomAttack = True, ar_randomIPs = [5]\<rparr>"])
    (simp_all add: sip_inputs_tags demo_packet_def fld_def)

end
