(* ===== verification/Dms_Rules.thy ===== *)
theory Dms_Rules
  imports Sip_Merge
begin

text \<open>
  The tasks that turn merged records into defence rules: \<open>dni/tasks/snding/dms_rules_task.cc\<close> (from the
  structured statistics) and \<open>dms_rules_dedup_task.cc\<close> (from records of strings). Both walk over
  pairs of inputs \<open>CIDR:i\<close> and \<open>NETDEV:i\<close> and collect the rules under the name of the
  network card. Numbers of rules are exact below \<open>2^31\<close>.
\<close>

section \<open>Limits\<close>

definition epsilon :: double where
  "epsilon = round64 (1 / 1000000)"

text \<open>\<open>netdev\<close>: bps value, bps score, pps value, pps score.\<close>

definition calc_limit_rule :: "double list \<Rightarrow> (string \<times> int) outcome" where
  "calc_limit_rule netdev =
     (if length netdev < 4 then Inl Undefined
      else if dlt epsilon (dsub (netdev ! 1) (netdev ! 3))
      then bindE (to_uint64 (dhalf (netdev ! 0))) (\<lambda>limitMaxValue. Inr (''bps'', limitMaxValue))
      else bindE (to_uint64 (dhalf (netdev ! 2))) (\<lambda>limitMaxValue. Inr (''pps'', limitMaxValue)))"

text \<open>The action, its mode and its limit.\<close>

definition quick_action :: "bool \<Rightarrow> double list \<Rightarrow> (string \<times> string \<times> int) outcome" where
  "quick_action drops netdev = (if drops then Inr (''drop'', [], 0)
     else bindE (calc_limit_rule netdev) (\<lambda>(limitMode, limitMaxValue). Inr (''limit'', limitMode, limitMaxValue)))"

section \<open>Rules from statistics\<close>

definition DMSRule :: dms_rule where
  "DMSRule = \<lparr>dr_hostNicSign = [], dr_srcIP = CIDR 0 32, dr_dstIP = CIDR 0 32, dr_sPort = [], dr_dPort = [], dr_length = [],
     dr_protocol = - 1, dr_action = ''drop'', dr_limitMode = [], dr_limitMaxValue = 0\<rparr>"

text \<open>\<open>dPort = dPorts[j]\<close> assigns an \<open>int\<close> to a \<open>std::string\<close>: the one-character
  string of its low byte.\<close>

definition assign_char :: "int \<Rightarrow> string" where
  "assign_char i = [char_of (nat (i mod 256))]"

definition fill_rule :: "sip_stats \<Rightarrow> string \<times> string \<times> int \<Rightarrow> int \<Rightarrow> int \<Rightarrow> dms_rule \<Rightarrow> dms_rule" where
  "fill_rule stat = (\<lambda>(action, limitMode, limitMaxValue) dPort protocol r.
     r\<lparr>dr_hostNicSign := st_hostNicSign stat, dr_srcIP := st_srcIP stat, dr_dPort := assign_char dPort,
       dr_protocol := protocol, dr_action := action, dr_limitMode := limitMode, dr_limitMaxValue := limitMaxValue\<rparr>)"

definition or_minus_one :: "int list \<Rightarrow> int list" where
  "or_minus_one xs = (if xs = [] then [- 1] else xs)"

definition dest_ports :: "sip_stats \<Rightarrow> int list" where
  "dest_ports stat = (if ns_stat_type (st_dstPort stat) = ''centralize'' then map sint (ns_value (st_dstPort stat)) else [])"

definition protocol_numbers :: "sip_stats \<Rightarrow> int list" where
  "protocol_numbers stat = map fst (st_protocol stat)"

definition stat_drops :: "sip_stats \<Rightarrow> bool" where
  "stat_drops stat \<longleftrightarrow> \<not> st_isSrcIPRandom stat \<or> ns_stat_type (st_srcPort stat) = ''centralize'' \<or>
     ns_stat_type (st_dstPort stat) = ''centralize''"

text \<open>The loop body: the next slot of the vector is filled.\<close>

definition put_rule :: "(dms_rule \<Rightarrow> dms_rule) \<Rightarrow> nat \<times> dms_rule list \<Rightarrow> (nat \<times> dms_rule list) outcome" where
  "put_rule f = (\<lambda>(index, gen_rules). if index < length gen_rules
     then Inr (index + 1, gen_rules[index := f (gen_rules ! index)]) else Inl Undefined)"

definition generate_dms_rules :: "sip_stats \<Rightarrow> double list \<Rightarrow> dms_rule list outcome" where
  "generate_dms_rules stat netdev = bindE (quick_action (stat_drops stat) netdev) (\<lambda>act.
     let dPorts = dest_ports stat; protocols = protocol_numbers stat;
         rules_num = 1 * (if dPorts = [] then 1 else length dPorts) * (if protocols = [] then 1 else length protocols)
     in bindE (foldE (\<lambda>dPort. foldE (\<lambda>protocol. put_rule (fill_rule stat act dPort protocol)) (or_minus_one protocols)) (or_minus_one dPorts)
          (0, replicate rules_num DMSRule)) (\<lambda>(index, gen_rules). Inr gen_rules))"

section \<open>The loop over the input pairs\<close>

text \<open>\<open>gen\<close> names the network card of a record and generates its rules.\<close>

definition file_rules ::
  "('a \<Rightarrow> double list \<Rightarrow> (string \<times> dms_rule list) outcome) \<Rightarrow> double list \<Rightarrow> string \<times> 'a \<Rightarrow> (string \<times> dms_rule list) list \<Rightarrow>
   (string \<times> dms_rule list) list outcome" where
  "file_rules gen netdevs = (\<lambda>(k, stat) nic_rules. bindE (gen stat netdevs) (\<lambda>(nic, dms_rules).
     Inr (um_update nic (\<lambda>v. (case v of None \<Rightarrow> [] | Some rules \<Rightarrow> rules) @ dms_rules) nic_rules)))"

fun input_pairs ::
  "(val \<Rightarrow> (string \<times> 'a) list option) \<Rightarrow> ('a \<Rightarrow> double list \<Rightarrow> (string \<times> dms_rule list) outcome) \<Rightarrow>
   val input_stream collection \<Rightarrow> int list \<Rightarrow> (string \<times> dms_rule list) list \<Rightarrow> (string \<times> dms_rule list) list option outcome" where
  "input_pairs cast gen ins [] nic_rules = Inr (Some nic_rules)"
| "input_pairs cast gen ins (i # is) nic_rules =
     need (input_get cast ins ''CIDR'' i) (\<lambda>cidr.
     need (input_get as_doubles ins ''NETDEV'' i) (\<lambda>netdevs.
       bindE (foldE (file_rules gen netdevs) cidr nic_rules) (input_pairs cast gen ins is)))"

definition half_indices :: "val input_stream collection \<Rightarrow> int list" where
  "half_indices ins = map int [0..<nat (c_size ins div 2)]"

definition SndGenDMSRulesTask_Process :: "unit \<Rightarrow> int \<Rightarrow> val task_context \<Rightarrow> (int \<times> val task_context) outcome" where
  "SndGenDMSRulesTask_Process s junk ctx = finish junk ctx
     (need (input_pairs as_stats (\<lambda>stat netdevs. bindE (generate_dms_rules stat netdevs) (\<lambda>rs. Inr (st_hostNicSign stat, rs)))
        (ctx_inputs ctx) (half_indices (ctx_inputs ctx)) []) (\<lambda>nic_rules. Inr (Some (VRules nic_rules))))"

section \<open>Rules from records of strings\<close>

type_synonym str_record = "(string \<times> string) list"

definition sfld :: "str_record \<Rightarrow> string \<Rightarrow> string" where
  "sfld r k = (case map_of r k of None \<Rightarrow> [] | Some v \<Rightarrow> v)"

text \<open>\<open>static_cast<uint32_t>(std::stoul(s))\<close>: a minus sign negates modulo \<open>2^64\<close>.\<close>

definition stoul :: "string \<Rightarrow> u32 outcome" where
  "stoul s = (case signed_digits s of
       None \<Rightarrow> Inl Invalid_argument
     | Some (neg, ds) \<Rightarrow> if 18446744073709551615 < digits_val ds then Inl Out_of_range
         else Inr (word_of_int (if neg then - digits_val ds else digits_val ds)))"

definition parse_cidr :: "string \<Rightarrow> cidr outcome" where
  "parse_cidr s = (let idx = str_find (CHR ''/'') s in
     bindE (stoul (if idx = - 1 then s else substr_len s 0 idx)) (\<lambda>ip.
     bindE (stoi (substr s (idx + 1))) (\<lambda>len. Inr (CIDR ip len))))"

definition generate_dms_rule :: "str_record \<Rightarrow> double list \<Rightarrow> dms_rule outcome" where
  "generate_dms_rule stat netdev =
     bindE (quick_action (sfld stat ''SIP'' \<noteq> ''RANDOM'' \<or> sfld stat ''SPort'' \<noteq> ''-1'' \<or> sfld stat ''DPort'' \<noteq> ''-1'') netdev)
       (\<lambda>(action, limitMode, limitMaxValue).
     bindE (if sfld stat ''SIP'' = ''RANDOM'' then Inr (CIDR 0 (- 1)) else parse_cidr (sfld stat ''SIP'')) (\<lambda>srcIP.
     bindE (stoul (sfld stat ''DIP'')) (\<lambda>ip.
     bindE (stoi (sfld stat ''Protocol'')) (\<lambda>protocol.
       Inr \<lparr>dr_hostNicSign = sfld stat ''hostNicSign'', dr_srcIP = srcIP, dr_dstIP = CIDR ip 32, dr_sPort = sfld stat ''SPort'',
         dr_dPort = sfld stat ''DPort'', dr_length = sfld stat ''Length'', dr_protocol = protocol, dr_action = action,
         dr_limitMode = limitMode, dr_limitMaxValue = limitMaxValue\<rparr>))))"

definition SndGenDeDupDMSRulesTask_Process :: "unit \<Rightarrow> int \<Rightarrow> val task_context \<Rightarrow> (int \<times> val task_context) outcome" where
  "SndGenDeDupDMSRulesTask_Process s junk ctx = finish junk ctx
     (need (input_pairs as_records (\<lambda>stat netdevs. bindE (generate_dms_rule stat netdevs) (\<lambda>r. Inr (sfld stat ''hostNicSign'', [r])))
        (ctx_inputs ctx) (half_indices (ctx_inputs ctx)) []) (\<lambda>nic_rules. Inr (Some (VRules nic_rules))))"

section \<open>The rules of one record\<close>

lemma put_rules_all:
  "foldE (\<lambda>x. put_rule (f x)) xs (length rs, rs @ replicate (length xs) d) = Inr (length rs + length xs, rs @ map (\<lambda>x. f x d) xs)"
proof (induction xs arbitrary: rs)
  case (Cons x xs)
  have "put_rule (f x) (length rs, rs @ replicate (length (x # xs)) d) =
      Inr (length (rs @ [f x d]), (rs @ [f x d]) @ replicate (length xs) d)"
    by (simp add: put_rule_def)
  then show ?case using Cons [of "rs @ [f x d]"] by simp
qed simp

lemma foldE_nested:
  "foldE (\<lambda>x. foldE (f x) ys) xs s = foldE (\<lambda>z. f (fst z) (snd z)) (List.product xs ys) s"
proof (induction xs arbitrary: s)
  case (Cons x xs)
  have "foldE (\<lambda>z. f (fst z) (snd z)) (map (Pair x) ys) s = foldE (f x) ys s" for s
    by (induction ys arbitrary: s) (simp_all add: bindE_def cong: sum.case_cong)
  moreover have "foldE (\<lambda>x. foldE (f x) ys) xs = foldE (\<lambda>z. f (fst z) (snd z)) (List.product xs ys)"
    using Cons by (intro ext)
  ultimately show ?case by (simp add: foldE_append)
qed simp

text \<open>C37: the index loop over a vector of precomputed length never leaves the vector and yields
  exactly one rule per pair of a destination port (those of a centralised port column, else -1) and a
  protocol (else -1), in that order, all with the action, mode and limit of the record; the only way to
  fail is the computation of the limit.\<close>

theorem generate_dms_rules_product:
  "generate_dms_rules stat netdev = bindE (quick_action (stat_drops stat) netdev) (\<lambda>act.
     Inr (map (\<lambda>(dPort, protocol). fill_rule stat act dPort protocol DMSRule)
       (List.product (or_minus_one (dest_ports stat)) (or_minus_one (protocol_numbers stat)))))"
proof -
  let ?ps = "or_minus_one (dest_ports stat)" and ?qs = "or_minus_one (protocol_numbers stat)"
  have len: "(if dest_ports stat = [] then 1 else length (dest_ports stat)) *
      (if protocol_numbers stat = [] then 1 else length (protocol_numbers stat)) = length (List.product ?ps ?qs)"
    by (simp add: or_minus_one_def)
  have "foldE (\<lambda>dPort. foldE (\<lambda>protocol. put_rule (fill_rule stat act dPort protocol)) ?qs) ?ps
        (0, replicate (length (List.product ?ps ?qs)) DMSRule) =
      Inr (length (List.product ?ps ?qs), map (\<lambda>z. fill_rule stat act (fst z) (snd z) DMSRule) (List.product ?ps ?qs))" for act
    using put_rules_all [of "\<lambda>z. fill_rule stat act (fst z) (snd z)" "List.product ?ps ?qs" "[]" DMSRule] by (simp add: foldE_nested)
  then show ?thesis unfolding generate_dms_rules_def Let_def mult_1 len by (simp add: case_prod_unfold)
qed

section \<open>The rules of a network card\<close>

text \<open>The inputs come as pairs of a table of records and the measurements of a device.\<close>

definition paired :: "(val \<Rightarrow> (string \<times> 'a) list option) \<Rightarrow> val input_stream collection \<Rightarrow> ((string \<times> 'a) list \<times> double list) list \<Rightarrow> bool" where
  "paired cast ins ps \<longleftrightarrow> length ps = nat (c_size ins div 2) \<and>
     (\<forall>i<length ps. input_get cast ins ''CIDR'' (int i) = Inr (Some (fst (ps ! i))) \<and>
        input_get as_doubles ins ''NETDEV'' (int i) = Inr (Some (snd (ps ! i))))"

definition pair_records :: "((string \<times> 'a) list \<times> double list) list \<Rightarrow> ('a \<times> double list) list" where
  "pair_records ps = concat (map (\<lambda>(cidr, nd). map (\<lambda>e. (snd e, nd)) cidr) ps)"

definition add_rules :: "('a \<Rightarrow> string) \<Rightarrow> ('a \<Rightarrow> double list \<Rightarrow> dms_rule list) \<Rightarrow> 'a \<times> double list \<Rightarrow>
    (string \<times> dms_rule list) list \<Rightarrow> (string \<times> dms_rule list) list" where
  "add_rules nic rules = (\<lambda>z. um_update (nic (fst z)) (\<lambda>v. (case v of None \<Rightarrow> [] | Some rs \<Rightarrow> rs) @ rules (fst z) (snd z)))"

text \<open>The rules a map holds for a card are those of the records of that card.\<close>

definition rules_by_nic :: "('a \<Rightarrow> string) \<Rightarrow> ('a \<Rightarrow> double list \<Rightarrow> dms_rule list) \<Rightarrow> ('a \<times> double list) list \<Rightarrow>
    (string \<times> dms_rule list) list \<Rightarrow> bool" where
  "rules_by_nic nic rules recs m \<longleftrightarrow> um_invar m \<and> (\<forall>k. map_of m k =
     (let rs = filter (\<lambda>z. nic (fst z) = k) recs in if rs = [] then None else Some (concat (map (\<lambda>(st, nd). rules st nd) rs))))"

lemma fold_add_rules: "rules_by_nic nic rules recs (fold (add_rules nic rules) recs [])"
proof -
  have app: "fold (\<lambda>z v. Some ((case v of None \<Rightarrow> [] | Some rs \<Rightarrow> rs) @ rules (fst z) (snd z))) rs v =
      (if rs = [] then v else Some ((case v of None \<Rightarrow> [] | Some x \<Rightarrow> x) @ concat (map (\<lambda>(st, nd). rules st nd) rs)))" for rs v
    by (induction rs arbitrary: v) (auto simp: case_prod_unfold)
  show ?thesis unfolding rules_by_nic_def add_rules_def
    by (subst umap.lookup_fold) (simp_all add: app Let_def umap.invar_fold)
qed

lemma file_rules_fold:
  assumes "\<forall>e\<in>set cidr. gen (snd e) nd = Inr (nic (snd e), rules (snd e) nd)"
  shows "foldE (file_rules gen nd) cidr m = Inr (fold (add_rules nic rules) (map (\<lambda>e. (snd e, nd)) cidr) m)"
  using assms by (induction cidr arbitrary: m) (simp_all add: file_rules_def add_rules_def case_prod_unfold)

lemma input_pairs_from:
  assumes "paired cast ins ps" "\<forall>(st, nd)\<in>set (pair_records ps). gen st nd = Inr (nic st, rules st nd)" "n \<le> length ps"
  shows "input_pairs cast gen ins (map int [n..<length ps]) m = Inr (Some (fold (add_rules nic rules) (pair_records (drop n ps)) m))"
  using assms(3)
proof (induction "length ps - n" arbitrary: n m)
  case 0
  then show ?case by (simp add: pair_records_def)
next
  case (Suc k)
  then have n: "n < length ps" by simp
  obtain cidr nd where p: "ps ! n = (cidr, nd)" by (cases "ps ! n")
  have up: "[n..<length ps] = n # [Suc n..<length ps]" using n by (simp add: upt_conv_Cons)
  have d: "drop n ps = (cidr, nd) # drop (Suc n) ps" using n p by (simp flip: Cons_nth_drop_Suc)
  have "(cidr, nd) \<in> set ps" using n p by (metis nth_mem)
  then have "\<forall>e\<in>set cidr. gen (snd e) nd = Inr (nic (snd e), rules (snd e) nd)"
    using assms(2) by (fastforce simp: pair_records_def)
  then have "foldE (file_rules gen nd) cidr m = Inr (fold (add_rules nic rules) (map (\<lambda>e. (snd e, nd)) cidr) m)" by (rule file_rules_fold)
  moreover have "input_get cast ins ''CIDR'' (int n) = Inr (Some cidr)" "input_get as_doubles ins ''NETDEV'' (int n) = Inr (Some nd)"
    using assms(1) n p by (auto simp: paired_def)
  ultimately show ?case using n Suc.hyps(1) [of "Suc n"] Suc.hyps(2)
    by (simp add: up d pair_records_def)
qed

text \<open>A task that files the rules of \<open>gen\<close> under the network card it names.\<close>

locale rules_task =
  fixes process :: "unit \<Rightarrow> int \<Rightarrow> val task_context \<Rightarrow> (int \<times> val task_context) outcome"
    and cast :: "val \<Rightarrow> (string \<times> 'a) list option"
    and gen :: "'a \<Rightarrow> double list \<Rightarrow> (string \<times> dms_rule list) outcome"
  assumes process_pairs: "process s junk ctx = finish junk ctx
    (need (input_pairs cast gen (ctx_inputs ctx) (half_indices (ctx_inputs ctx)) []) (\<lambda>m. Inr (Some (VRules m))))"
begin

lemma by_nic:
  assumes "paired cast (ctx_inputs ctx) ps" "can_emit junk ctx"
    and "\<forall>(st, nd)\<in>set (pair_records ps). gen st nd = Inr (nic st, rules st nd)"
  shows "\<exists>m. process s junk ctx = Inr (0, emitted (Datum_val junk (VRules m)) ctx) \<and> rules_by_nic nic rules (pair_records ps) m"
proof -
  have "half_indices (ctx_inputs ctx) = map int [0..<length ps]" using assms(1) by (simp add: half_indices_def paired_def)
  then have "process s junk ctx = Inr (0, emitted (Datum_val junk (VRules (fold (add_rules nic rules) (pair_records ps) []))) ctx)"
    using input_pairs_from [OF assms(1,3), of 0 "[]"] assms(2) by (simp add: process_pairs finish_def emit_emitted)
  then show ?thesis using fold_add_rules by blast
qed

end

interpretation dms_rules: rules_task SndGenDMSRulesTask_Process as_stats
  "\<lambda>stat netdevs. bindE (generate_dms_rules stat netdevs) (\<lambda>rs. Inr (st_hostNicSign stat, rs))"
  by unfold_locales (simp add: SndGenDMSRulesTask_Process_def)

interpretation dedup_rules: rules_task SndGenDeDupDMSRulesTask_Process as_records
  "\<lambda>stat netdevs. bindE (generate_dms_rule stat netdevs) (\<lambda>r. Inr (sfld stat ''hostNicSign'', [r]))"
  by unfold_locales (simp add: SndGenDeDupDMSRulesTask_Process_def)

text \<open>Given pairs of record tables and device measurements, the task emits a map from network
  cards to rules that holds for a card exactly the rules generated for its records, in the order of the
  inputs, and no entry for a card without records.\<close>

lemma SndGenDMSRulesTask_by_nic:
  assumes "paired as_stats (ctx_inputs ctx) ps" "can_emit junk ctx"
    and "\<forall>(st, nd)\<in>set (pair_records ps). generate_dms_rules st nd = Inr (rules st nd)"
  shows "\<exists>m. SndGenDMSRulesTask_Process () junk ctx = Inr (0, emitted (Datum_val junk (VRules m)) ctx) \<and>
    rules_by_nic st_hostNicSign rules (pair_records ps) m"
  by (rule dms_rules.by_nic [OF assms(1,2)]) (use assms(3) in auto)

definition dms_stat :: sip_stats where
  "dms_stat = SIPBaseMergeStats\<lparr>st_hostNicSign := ''h#eth0'', st_srcIP := CIDR 8 31, st_protocol := [(6, ''flood''), (17, ''rapid'')]\<rparr>"

definition dms_inputs :: "val input_stream collection" where
  "dms_inputs = demo_inputs [(''CIDR'', \<lparr>td_base = 0, td_count = 1\<rparr>), (''NETDEV'', \<lparr>td_base = 1, td_count = 1\<rparr>)]
     [VStats [(''8/31'', dms_stat)], VDoubles []]"

lemma SndGenDMSRulesTask_by_nic_example:
  "\<exists>m rules. SndGenDMSRulesTask_Process () 1 (demo_ctx dms_inputs) = Inr (0, emitted (Datum_val 1 (VRules m)) (demo_ctx dms_inputs)) \<and>
    map_of m ''h#eth0'' = Some rules \<and> map dr_protocol rules = [6, 17]"
proof -
  let ?ps = "[([(''8/31'', dms_stat)], [])] :: ((string \<times> sip_stats) list \<times> double list) list"
  let ?rules = "\<lambda>st nd. projr (generate_dms_rules st nd)"
  have p: "paired as_stats (ctx_inputs (demo_ctx dms_inputs)) ?ps"
  proof -
    have "nat (c_size dms_inputs div 2) = 1" "input_get as_stats dms_inputs ''CIDR'' 0 = Inr (Some [(''8/31'', dms_stat)])"
      "input_get as_doubles dms_inputs ''NETDEV'' 0 = Inr (Some [])" by code_simp+
    then show ?thesis by (simp add: paired_def)
  qed
  have r: "pair_records ?ps = [(dms_stat, [])]" by (simp add: pair_records_def)
  have g: "generate_dms_rules dms_stat [] = Inr (?rules dms_stat [])" "map dr_protocol (?rules dms_stat []) = [6, 17]" by code_simp+
  obtain m where "SndGenDMSRulesTask_Process () 1 (demo_ctx dms_inputs) = Inr (0, emitted (Datum_val 1 (VRules m)) (demo_ctx dms_inputs))"
    "rules_by_nic st_hostNicSign ?rules [(dms_stat, [])] m"
    using SndGenDMSRulesTask_by_nic [OF p demo_can_emit, of ?rules] g(1) r by auto
  then show ?thesis using g(2) by (auto simp: rules_by_nic_def dms_stat_def)
qed

section \<open>Records of strings\<close>

lemma stoul_to_string [simp]: "stoul (to_string (uint (w::u32))) = Inr w"
proof -
  have "signed_digits (to_string (uint w)) = Some (False, nat_string (nat (uint w)))"
    using signed_digits_plain [of "nat_string (nat (uint w))" "[]"] by (simp add: to_string_def nat_string_isdigit)
  moreover have "uint w < 2 ^ 32" using uint_bounded [of w] by simp
  ultimately show ?thesis by (simp add: stoul_def digits_val_nat_string)
qed

lemma parse_cidr_string:
  assumes "0 \<le> cidr_len c" "cidr_len c \<le> 32"
  shows "parse_cidr (cidr_string c) = Inr c"
proof -
  let ?a = "to_string (uint (cidr_ip c))" and ?b = "to_string (cidr_len c)"
  have s: "cidr_string c = ?a @ CHR ''/'' # ?b" by (simp add: cidr_string_def)
  have "CHR ''/'' \<notin> set ?a" using nat_string_isdigit by (force simp: to_string_def isdigit_def)
  then have "str_find (CHR ''/'') (cidr_string c) = int (length ?a)" unfolding s by (rule str_find_append)
  moreover have "nat (int (length ?a) + 1) = Suc (length ?a)" by simp
  then have "substr_len (cidr_string c) 0 (int (length ?a)) = ?a" "substr (cidr_string c) (int (length ?a) + 1) = ?b"
    by (simp_all add: s substr_len_def substr_def)
  ultimately show ?thesis using assms by (simp add: parse_cidr_def Let_def stoi_to_string)
qed

lemma parsed_record_rule:
  assumes "sfld stat ''SIP'' = cidr_string c" "0 \<le> cidr_len c" "cidr_len c \<le> 32"
    and "sfld stat ''DIP'' = to_string (int (unat dip))" "sfld stat ''Protocol'' = to_string p" "0 \<le> p" "p \<le> 2147483647"
  shows "\<exists>r. generate_dms_rule stat nd = Inr r \<and> dr_srcIP r = c \<and> dr_dstIP r = CIDR dip 32 \<and> dr_protocol r = p \<and>
    dr_sPort r = sfld stat ''SPort'' \<and> dr_dPort r = sfld stat ''DPort'' \<and> dr_length r = sfld stat ''Length'' \<and>
    dr_hostNicSign r = sfld stat ''hostNicSign'' \<and> dr_action r = ''drop''"
  using assms cidr_string_not_random [of c]
  by (simp add: generate_dms_rule_def quick_action_def parse_cidr_string stoul_to_string stoi_to_string)

text \<open>The text of a block, as the merging task prints it, is read back as the same block: a rule
  made from a record with that source address, a printed destination and a printed protocol has
  them, keeps the port and length columns and drops the packets.\<close>

lemma generate_dms_rule_roundtrip:
  assumes "sfld stat ''SIP'' = cidr_string c" "0 \<le> cidr_len c" "cidr_len c \<le> 32"
    and "sfld stat ''DIP'' = to_string (int (unat dip))" "sfld stat ''Protocol'' = to_string p" "0 \<le> p" "p \<le> 2147483647"
  shows "\<exists>r. generate_dms_rule stat nd = Inr r \<and> dr_srcIP r = c \<and> dr_dstIP r = CIDR dip 32 \<and> dr_protocol r = p \<and>
    dr_sPort r = sfld stat ''SPort'' \<and> dr_dPort r = sfld stat ''DPort'' \<and> dr_length r = sfld stat ''Length'' \<and>
    dr_hostNicSign r = sfld stat ''hostNicSign'' \<and> dr_action r = ''drop''"
  by (rule parsed_record_rule [OF assms])

lemma generate_dms_rule_roundtrip_example:
  "\<exists>r. generate_dms_rule [(''SIP'', ''8/31''), (''DIP'', ''9''), (''Protocol'', ''6''), (''DPort'', ''443'')] [] = Inr r \<and>
    dr_srcIP r = CIDR 8 31 \<and> dr_dstIP r = CIDR 9 32 \<and> dr_protocol r = 6 \<and> dr_dPort r = ''443'' \<and> dr_action r = ''drop''"
proof -
  let ?st = "[(''SIP'', ''8/31''), (''DIP'', ''9''), (''Protocol'', ''6''), (''DPort'', ''443'')]"
  have "sfld ?st ''SIP'' = cidr_string (CIDR 8 31)" "sfld ?st ''DIP'' = to_string (int (unat (9::u32)))"
    "sfld ?st ''Protocol'' = to_string 6" "sfld ?st ''DPort'' = ''443''" by code_simp+
  then show ?thesis using generate_dms_rule_roundtrip [of ?st "CIDR 8 31" 9 6 "[]"] by auto
qed

end
