(* ===== verification/Attacker_Merge.thy ===== *)
theory Attacker_Merge
  imports Task_Values
begin

text \<open>
  From counts of source addresses to attacker blocks: \<open>dni/tasks/snding/attacker_ip_merge_task.cc\<close>.
  Four programs in a row take addresses out of the map: single addresses with a high count,
  suspect \<open>/24\<close> networks, suspect \<open>/16\<close> networks, and finally random attackers among the
  unknown rest. The map is reached through a pointer, so the task's changes to it are part of the
  model's result. The sum of the counts is exact below \<open>2^31\<close>.
\<close>

section \<open>Options\<close>

type_synonym counts = "(u32 \<times> int) list"

record merge_options =
  mo_ipFw4CountRatio :: "double option"
  mo_ipFw3CountRatio :: "double option"
  mo_ipSegCoverThreshold :: "double option"
  mo_ipFw2CountRatio :: "double option"
  mo_ipRandCountThreshold :: "int option"
  mo_ipRandCountRatio :: "double option"

record merge_task =
  ipFw4CountRatio :: double
  ipFw3CountRatio :: double
  ipSegCoverThreshold :: double
  ipFw2CountRatio :: double
  ipRandCountThreshold :: int
  ipRandCountRatio :: double

definition SndAttackerIPMergeTask :: merge_task where
  "SndAttackerIPMergeTask = \<lparr>ipFw4CountRatio = round64 (1 / 10), ipFw3CountRatio = round64 (1 / 5), ipSegCoverThreshold = Fin 100,
     ipFw2CountRatio = round64 (2 / 5), ipRandCountThreshold = 2, ipRandCountRatio = Fin (1 / 2)\<rparr>"

definition set_if :: "'a option \<Rightarrow> 'a \<Rightarrow> 'a" where
  "set_if x old = (case x of None \<Rightarrow> old | Some v \<Rightarrow> v)"

definition SndAttackerIPMergeTask_Open :: "merge_options \<Rightarrow> merge_task \<Rightarrow> int \<times> merge_task" where
  "SndAttackerIPMergeTask_Open opts t = (0, \<lparr>ipFw4CountRatio = set_if (mo_ipFw4CountRatio opts) (ipFw4CountRatio t),
     ipFw3CountRatio = set_if (mo_ipFw3CountRatio opts) (ipFw3CountRatio t),
     ipSegCoverThreshold = set_if (mo_ipSegCoverThreshold opts) (ipSegCoverThreshold t),
     ipFw2CountRatio = set_if (mo_ipFw2CountRatio opts) (ipFw2CountRatio t),
     ipRandCountThreshold = set_if (mo_ipRandCountThreshold opts) (ipRandCountThreshold t),
     ipRandCountRatio = set_if (mo_ipRandCountRatio opts) (ipRandCountRatio t)\<rparr>)"

section \<open>Shared steps\<close>

definition belongs_24 :: "u32 \<Rightarrow> u32 \<Rightarrow> bool" where
  "belongs_24 cidr_24 ip \<longleftrightarrow> \<not> drop_bit 8 (cidr_24 XOR ip) \<noteq> 0"

definition belongs_16 :: "u32 \<Rightarrow> u32 \<Rightarrow> bool" where
  "belongs_16 cidr_16 ip \<longleftrightarrow> \<not> drop_bit 16 (cidr_16 XOR ip) \<noteq> 0"

definition count_sum :: "counts \<Rightarrow> int" where
  "count_sum df = fold (\<lambda>e s. s + snd e) df 0"

text \<open>The counts and the addresses of each network.\<close>

definition fw_counts :: "u32 \<Rightarrow> counts \<Rightarrow> counts" where
  "fw_counts msk df = fold (\<lambda>e. um_update (fst e AND msk) (\<lambda>v. (case v of None \<Rightarrow> 0 | Some c \<Rightarrow> c) + snd e)) df []"

definition orig_ips :: "u32 \<Rightarrow> counts \<Rightarrow> (u32 \<times> u32 list) list" where
  "orig_ips msk df = fold (\<lambda>e. um_update (fst e AND msk) (\<lambda>v. (case v of None \<Rightarrow> [] | Some ips \<Rightarrow> ips) @ [fst e])) df []"

text \<open>\<open>(int) (ipCountSum * ratio)\<close> and \<open>(int) (ipCountSum * ratio / 2)\<close>.\<close>

definition limits :: "int \<Rightarrow> double \<Rightarrow> (int \<times> int) outcome" where
  "limits s ratio = bindE (to_int32 (dmul (double_of_int s) ratio)) (\<lambda>full.
     bindE (to_int32 (dhalf (dmul (double_of_int s) ratio))) (\<lambda>half. Inr (full, half)))"

text \<open>The number of networks is a \<open>size_t\<close>: a negative limit is compared as a huge one.\<close>

definition suspects :: "int \<times> int \<Rightarrow> counts \<Rightarrow> u32 list" where
  "suspects = (\<lambda>(full, half) fw.
     if full mod 18446744073709551616 \<le> int (length fw)
     then map fst (filter (\<lambda>e. half \<le> snd e) fw) else map fst (filter (\<lambda>e. full \<le> snd e) fw))"

definition erase_ips :: "u32 list \<Rightarrow> counts \<Rightarrow> counts" where
  "erase_ips ips df = fold um_erase ips df"

definition erase_networks :: "(u32 \<times> u32 list) list \<Rightarrow> u32 list \<Rightarrow> counts \<Rightarrow> counts" where
  "erase_networks orig sus df = fold (\<lambda>b. erase_ips (case map_of orig b of None \<Rightarrow> [] | Some ips \<Rightarrow> ips)) sus df"

definition min_u8 :: "8 word list \<Rightarrow> 8 word" where
  "min_u8 xs = fold min (tl xs) (hd xs)"

definition max_u8 :: "8 word list \<Rightarrow> 8 word" where
  "max_u8 xs = fold max (tl xs) (hd xs)"

section \<open>The four programs\<close>

definition program1 :: "merge_task \<Rightarrow> int \<Rightarrow> counts \<Rightarrow> (cidr list \<times> counts) outcome" where
  "program1 t s df = bindE (to_int32 (dmul (double_of_int s) (ipFw4CountRatio t))) (\<lambda>limit.
     let ipFw4 = map fst (filter (\<lambda>e. limit \<le> snd e) df) in
     Inr (map (\<lambda>ip. CIDR ip 32) ipFw4, erase_ips ipFw4 df))"

definition blocks_24 :: "merge_task \<Rightarrow> counts \<Rightarrow> u32 \<Rightarrow> cidr list" where
  "blocks_24 t df ipSusFw3IP =
     (let ipFw3P4List = map (\<lambda>e. ucast (fst e AND 255) :: 8 word) (filter (\<lambda>e. belongs_24 ipSusFw3IP (fst e)) df) in
      if ipFw3P4List = [] then []
      else let mn = min_u8 ipFw3P4List; mx = max_u8 ipFw3P4List in
        if uint mx - uint mn \<ge> 200 then [CIDR ipSusFw3IP 24]
        else if dge (double_of_int (int (length ipFw3P4List))) (ipSegCoverThreshold t) then [CIDR ipSusFw3IP 24]
        else iprange_to_cidrs (CIDR (ipSusFw3IP + ucast mn) 32) (CIDR (ipSusFw3IP + ucast mx) 32))"

definition program2 :: "merge_task \<Rightarrow> int \<Rightarrow> counts \<Rightarrow> (cidr list \<times> counts) outcome" where
  "program2 t s df = bindE (limits s (ipFw3CountRatio t)) (\<lambda>lm.
     let ipSusFw3IPs = suspects lm (fw_counts 0xFFFFFF00 df) in
     Inr (concat (map (blocks_24 t df) ipSusFw3IPs), erase_networks (orig_ips 0xFFFFFF00 df) ipSusFw3IPs df))"

text \<open>\<open>push_back(first & 0x0000FF00)\<close> into a vector of bytes keeps the low byte only.\<close>

definition blocks_16 :: "merge_task \<Rightarrow> counts \<Rightarrow> u32 \<Rightarrow> cidr list" where
  "blocks_16 t df ipSusFw2IP =
     (let ips = filter (\<lambda>e. belongs_16 ipSusFw2IP (fst e)) df;
          ipFw2P3List = map (\<lambda>e. ucast (fst e AND 0xFF00) :: 8 word) ips;
          ipFw2P4List = map (\<lambda>e. ucast (fst e AND 255) :: 8 word) ips in
      if ipFw2P3List = [] \<or> ipFw2P4List = [] then []
      else if dge (double_of_int (int (length ipFw2P3List))) (ipSegCoverThreshold t) \<and>
              dge (double_of_int (int (length ipFw2P4List))) (ipSegCoverThreshold t) then [CIDR ipSusFw2IP 16]
      else iprange_to_cidrs (CIDR (ipSusFw2IP + push_bit 8 (ucast (min_u8 ipFw2P3List))) 24)
             (CIDR (ipSusFw2IP + push_bit 8 (ucast (max_u8 ipFw2P3List))) 24))"

definition program3 :: "merge_task \<Rightarrow> int \<Rightarrow> counts \<Rightarrow> (cidr list \<times> counts) outcome" where
  "program3 t s df = bindE (limits s (ipFw2CountRatio t)) (\<lambda>lm.
     let ipSusFw2IPs = suspects lm (fw_counts 0xFFFF0000 df) in
     Inr (concat (map (blocks_16 t df) ipSusFw2IPs), erase_networks (orig_ips 0xFFFF0000 df) ipSusFw2IPs df))"

text \<open>\<open>std::set_difference\<close>: the merge of two ranges, which the caller must have sorted.\<close>

fun set_difference :: "'a::linorder list \<Rightarrow> 'a list \<Rightarrow> 'a list" where
  "set_difference [] ys = []"
| "set_difference xs [] = xs"
| "set_difference (x # xs) (y # ys) =
     (if x < y then x # set_difference xs (y # ys)
      else if y < x then set_difference (x # xs) ys
      else set_difference xs ys)"

definition program4 :: "merge_task \<Rightarrow> int \<Rightarrow> counts \<Rightarrow> u32 list \<Rightarrow> bool \<times> u32 list" where
  "program4 t s df all_known_ips =
     (let all_DF3_ips = sort (map fst df);
          all_unknown_ips = fold us_insert (set_difference all_DF3_ips all_known_ips) [];
          (ipUnknownRandCountSum, randomIPs) = fold (\<lambda>ip (total, ips).
              let cnt = (case map_of df ip of None \<Rightarrow> 0 | Some n \<Rightarrow> n) in
              if cnt \<le> ipRandCountThreshold t then (total + cnt, us_insert ip ips) else (total, ips)) all_unknown_ips (0, [])
      in if dge (double_of_int ipUnknownRandCountSum) (dmul (double_of_int s) (ipRandCountRatio t)) then (True, randomIPs) else (False, []))"

section \<open>The task\<close>

definition ip_result :: "cidr list \<Rightarrow> bool \<times> u32 list \<Rightarrow> attacker_result" where
  "ip_result cs r = \<lparr>ar_attackerIPs = cs, ar_containRandomAttack = fst r, ar_randomIPs = snd r\<rparr>"

text \<open>The result and the map as it is left; an empty map ends the task early.\<close>

definition merge_attackers :: "merge_task \<Rightarrow> counts \<Rightarrow> u32 list \<Rightarrow> (attacker_result \<times> counts) outcome" where
  "merge_attackers t df known =
     (let s = count_sum df in
      bindE (program1 t s df) (\<lambda>(a32, df1).
      if df1 = [] then Inr (ip_result a32 (False, []), df1) else
      bindE (program2 t s df1) (\<lambda>(a24, df2).
      if df2 = [] then Inr (ip_result (a32 @ a24) (False, []), df2) else
      bindE (program3 t s df2) (\<lambda>(a16, df3).
      if df3 = [] then Inr (ip_result (a32 @ a24 @ a16) (False, []), df3) else
      Inr (ip_result (a32 @ a24 @ a16) (program4 t s df3 known), df3)))))"

text \<open>\<open>Process\<close> returns its code, the context, and what the map named by the input pointer holds afterwards.\<close>

definition SndAttackerIPMergeTask_Process ::
  "merge_task \<Rightarrow> int \<Rightarrow> val task_context \<Rightarrow> (int \<times> val task_context \<times> counts option) outcome" where
  "SndAttackerIPMergeTask_Process t junk ctx =
     bindE (need (input_tag as_counts_ptr (ctx_inputs ctx) ''SIP'') (\<lambda>ipCountDF.
            need (input_tag as_ips (ctx_inputs ctx) ''KNOWN_IPS'') (\<lambda>all_known_ips.
              bindE (merge_attackers t ipCountDF all_known_ips) (\<lambda>r. Inr (Some r))))) (\<lambda>v. case v of
         None \<Rightarrow> Inr (- 1, ctx, None)
       | Some (nodeRet, df) \<Rightarrow> bindE (emit junk 0 (VAttackers nodeRet) ctx) (\<lambda>ctx. Inr (0, ctx, Some df)))"


section \<open>Addresses and their networks\<close>

lemma masks: "(0xFFFFFF00 :: u32) = NOT (mask 8)" "(0xFFFF0000 :: u32) = NOT (mask 16)" "(255 :: u32) = mask 8"
  by (simp_all add: mask_eq_exp_minus_1)

lemma drop_bit_network: "drop_bit k (x AND NOT (mask k)) = drop_bit k (x::u32)"
  by (rule bit_eqI) (auto simp: bit_simps dest: bit_imp_le_length)

lemma network_and: "x AND NOT (mask k) = push_bit k (drop_bit k (x::u32))"
  by (rule bit_eqI) (auto simp: bit_simps)

lemma aligned_network_and [simp]: "aligned k (x AND NOT (mask k))"
  unfolding aligned_def network_and by (rule bit_eqI) (auto simp: bit_simps)

lemma same_network:
  assumes "aligned k b"
  shows "drop_bit k (b XOR x) = 0 \<longleftrightarrow> x AND NOT (mask k) = (b::u32)"
proof -
  have b: "b AND NOT (mask k) = b"
    using assms bits_ident [of k b] unfolding network_and by (simp add: aligned_def)
  have "x AND NOT (mask k) = b \<longleftrightarrow> drop_bit k x = drop_bit k b"
  proof
    assume "x AND NOT (mask k) = b"
    then show "drop_bit k x = drop_bit k b" using drop_bit_network [of k x] by simp
  next
    assume "drop_bit k x = drop_bit k b"
    then have "x AND NOT (mask k) = b AND NOT (mask k)" by (simp only: network_and)
    then show "x AND NOT (mask k) = b" by (simp only: b)
  qed
  moreover have "drop_bit k (b XOR x) = 0 \<longleftrightarrow> drop_bit k b = drop_bit k x" by (simp only: drop_bit_xor xor_zero_iff)
  ultimately show ?thesis by (simp only: eq_commute [of "drop_bit k b"])
qed

lemma cidr_set_network:
  assumes "k \<le> 32" "aligned k b"
  shows "x \<in> cidr_set (CIDR b (32 - int k)) \<longleftrightarrow> x AND NOT (mask k) = b"
proof -
  have "x \<in> cidr_set (CIDR b (32 - int k)) \<longleftrightarrow> drop_bit k (b XOR x) = 0"
    using assms(1) by (auto simp: cidr_set_def addr_block_def host_bits_def drop_bit_xor xor_zero_iff)
  then show ?thesis by (simp only: same_network [OF assms(2)])
qed

lemmas cidr_set_24 = cidr_set_network [of 8, simplified]
lemmas cidr_set_16 = cidr_set_network [of 16, simplified]

text \<open>An address is its \<open>/24\<close> network plus its last byte.\<close>

lemma unat_last_byte: "unat (ucast (x AND 255 :: u32) :: 8 word) = unat x mod 256"
proof -
  have "ucast (x AND 255 :: u32) = (ucast x :: 8 word)" unfolding masks by (rule bit_eqI) (auto simp: bit_simps)
  then show ?thesis by (simp add: unsigned_ucast_eq take_bit_nat_def)
qed

lemma unat_network_24: "unat (x AND 0xFFFFFF00 :: u32) = 256 * (unat x div 256)"
proof -
  have "256 * (unat x div 256) < 2 ^ LENGTH(32)" using unat_lt_32 [of x] by simp
  then have "unat (256 * (x div 256)) = 256 * (unat x div 256)"
    using unat_mult_lem [of "256 :: u32" "x div 256"] by (simp add: unat_div)
  moreover have "x AND 0xFFFFFF00 = 256 * (x div 256)"
    unfolding masks network_and by (simp add: push_bit_eq_mult drop_bit_eq_div)
  ultimately show ?thesis by simp
qed

lemma unat_network_plus_byte:
  fixes x :: u32 and p :: "8 word"
  shows "unat ((x AND 0xFFFFFF00) + ucast p) = 256 * (unat x div 256) + unat p"
proof -
  have p: "unat p < 256" using unsigned_less [where ?'a = nat and w = p] by simp
  then have u: "unat (ucast p :: u32) = unat p" by (simp add: unsigned_ucast_eq take_bit_nat_eq_self)
  have "unat x div 256 < 16777216" using unat_lt_32 [of x] by (simp add: less_mult_imp_div_less)
  then have "256 * (unat x div 256) + unat p < 2 ^ LENGTH(32)" using p by simp
  then show ?thesis
    using unat_add_lem [of "x AND 0xFFFFFF00" "ucast p"] by (simp only: unat_network_24 u)
qed

section \<open>What the loops collect\<close>

lemma fw_counts_keys: "fst ` set (fw_counts msk df) = (\<lambda>x. x AND msk) ` fst ` set df"
  using umap.keys_fold [of "[]" "\<lambda>e. fst e AND msk" "\<lambda>e v. (case v of None \<Rightarrow> 0 | Some c \<Rightarrow> c) + snd e" df]
  by (simp add: fw_counts_def image_image)

lemma orig_ips_lookup:
  "(case map_of (orig_ips msk df) b of None \<Rightarrow> [] | Some ips \<Rightarrow> ips) = filter (\<lambda>x. x AND msk = b) (map fst df)"
proof -
  have app: "fold (\<lambda>e v. Some ((case v of None \<Rightarrow> [] | Some ips \<Rightarrow> ips) @ [fst e])) es v =
      (if es = [] then v else Some ((case v of None \<Rightarrow> [] | Some ips \<Rightarrow> ips) @ map fst es))" for es :: counts and v
    by (induction es arbitrary: v) auto
  have "map_of (orig_ips msk df) b = (let es = filter (\<lambda>e. fst e AND msk = b) df in if es = [] then None else Some (map fst es))"
    unfolding orig_ips_def by (subst umap.lookup_fold) (simp_all add: app Let_def)
  then show ?thesis by (simp add: Let_def filter_map comp_def)
qed

lemma erase_ips_filter: "erase_ips ips df = filter (\<lambda>e. fst e \<notin> set ips) df"
  by (induction ips arbitrary: df) (auto simp: erase_ips_def um_erase_def intro: filter_cong)

lemma erase_networks_filter: "erase_networks (orig_ips msk df) sus df = filter (\<lambda>e. fst e AND msk \<notin> set sus) df"
proof -
  have "fold (\<lambda>b. erase_ips (filter (\<lambda>x. x AND msk = b) (map fst df))) sus m = filter (\<lambda>e. fst e AND msk \<notin> set sus) m"
    if "set m \<subseteq> set df" for m
    using that
  proof (induction sus arbitrary: m)
    case (Cons b sus)
    have "erase_ips (filter (\<lambda>x. x AND msk = b) (map fst df)) m = filter (\<lambda>e. fst e AND msk \<noteq> b) m"
      unfolding erase_ips_filter using Cons.prems by (intro filter_cong) force+
    then show ?case using Cons.IH [of "filter (\<lambda>e. fst e AND msk \<noteq> b) m"] Cons.prems by (auto intro: filter_cong)
  qed simp
  then show ?thesis by (simp add: erase_networks_def orig_ips_lookup)
qed

lemma suspects_keys: "set (suspects lm fw) \<subseteq> fst ` set fw"
  by (auto simp: suspects_def split: prod.split if_splits)

lemma u8_Min_Max: "xs \<noteq> [] \<Longrightarrow> min_u8 xs = Min (set xs)" "xs \<noteq> [] \<Longrightarrow> max_u8 xs = Max (set xs)"
  by (cases xs; simp add: min_u8_def max_u8_def flip: Min.set_eq_fold Max.set_eq_fold)+

lemma min_u8_le: "x \<in> set xs \<Longrightarrow> min_u8 xs \<le> x" and max_u8_ge: "x \<in> set xs \<Longrightarrow> x \<le> max_u8 xs"
  by (cases "xs = []"; simp add: u8_Min_Max)+

section \<open>Programs 1 and 2: exact cover\<close>

lemma network_broadcast_32 [simp]: "network a 32 = a" "broadcast a 32 = a"
  by (simp_all add: network_def broadcast_def netmask_def shl_one_def)

lemma blocks_24_cover:
  assumes "x \<in> fst ` set df" "b = x AND 0xFFFFFF00"
  shows "x \<in> cover_set (blocks_24 t df b)" "cover_set (blocks_24 t df b) \<subseteq> {y. y AND 0xFFFFFF00 = b}"
proof -
  define ps where "ps = map (\<lambda>e. ucast (fst e AND 255) :: 8 word) (filter (\<lambda>e. belongs_24 b (fst e)) df)"
  have al: "aligned 8 b" using assms(2) by (simp only: masks aligned_network_and)
  have bel: "belongs_24 b y \<longleftrightarrow> y AND 0xFFFFFF00 = b" for y
    using same_network [OF al, of y] by (simp add: belongs_24_def masks)
  have xp: "ucast (x AND 255) \<in> set ps" using assms bel by (force simp: ps_def)
  let ?lo = "b + ucast (min_u8 ps)" and ?hi = "b + ucast (max_u8 ps)"
  have lohi: "unat ?lo = 256 * (unat x div 256) + unat (min_u8 ps)" "unat ?hi = 256 * (unat x div 256) + unat (max_u8 ps)"
    unfolding assms(2) by (rule unat_network_plus_byte)+
  have "min_u8 ps \<le> ucast (x AND 255)" "ucast (x AND 255) \<le> max_u8 ps" using min_u8_le [OF xp] max_u8_ge [OF xp] by auto
  then have mod: "unat (min_u8 ps) \<le> unat x mod 256" "unat x mod 256 \<le> unat (max_u8 ps)"
    by (simp_all add: word_le_nat_alt unat_last_byte)
  have x: "unat x = 256 * (unat x div 256) + unat x mod 256" by simp
  have in_range: "?lo \<le> x" "x \<le> ?hi" unfolding word_le_nat_alt lohi using mod x by linarith+
  then have cov: "cover_set (iprange_to_cidrs (CIDR ?lo 32) (CIDR ?hi 32)) = {?lo .. ?hi}"
    using iprange_to_cidrs_cover [of "CIDR ?lo 32" "CIDR ?hi 32"] by simp
  have sub: "y AND 0xFFFFFF00 = b" if "?lo \<le> y" "y \<le> ?hi" for y
  proof -
    have "unat (max_u8 ps) < 256" using unsigned_less [where ?'a = nat and w = "max_u8 ps"] by simp
    then have "unat y div 256 = unat x div 256" using that by (simp add: word_le_nat_alt lohi)
    then show ?thesis unfolding assms(2) by (intro word_unat_eq_iff [THEN iffD2]) (simp only: unat_network_24)
  qed
  have cases: "blocks_24 t df b \<in> {[CIDR b 24], iprange_to_cidrs (CIDR ?lo 32) (CIDR ?hi 32)}"
    using xp by (auto simp: blocks_24_def Let_def ps_def [symmetric])
  then show "x \<in> cover_set (blocks_24 t df b)"
    using in_range cov assms(2) al by (auto simp: cidr_set_24 masks)
  show "cover_set (blocks_24 t df b) \<subseteq> {y. y AND 0xFFFFFF00 = b}"
    using cases sub cov al by (auto simp: cidr_set_24 masks)
qed

lemma program1_exact:
  assumes "program1 t s df = Inr (a32, df1)"
  shows "fst ` set df1 = fst ` set df - cover_set a32"
    and "\<exists>limit. to_int32 (dmul (double_of_int s) (ipFw4CountRatio t)) = Inr limit \<and> cover_set a32 = fst ` {e \<in> set df. limit \<le> snd e}"
proof -
  obtain limit where l: "to_int32 (dmul (double_of_int s) (ipFw4CountRatio t)) = Inr limit"
    and a: "a32 = map (\<lambda>ip. CIDR ip 32) (map fst (filter (\<lambda>e. limit \<le> snd e) df))"
    and df1: "df1 = erase_ips (map fst (filter (\<lambda>e. limit \<le> snd e) df)) df"
    using assms by (auto simp: program1_def Let_def bindE_Inr_iff)
  have hosts: "cover_set (map (\<lambda>ip. CIDR ip 32) ips) = set ips" for ips by (induction ips) auto
  have c: "cover_set a32 = fst ` {e \<in> set df. limit \<le> snd e}" unfolding a hosts by simp
  then show "fst ` set df1 = fst ` set df - cover_set a32" unfolding df1 erase_ips_filter by auto
  show "\<exists>limit. to_int32 (dmul (double_of_int s) (ipFw4CountRatio t)) = Inr limit \<and> cover_set a32 = fst ` {e \<in> set df. limit \<le> snd e}"
    using l c by blast
qed

lemma cover_set_concat: "x \<in> cover_set (concat (map f bs)) \<longleftrightarrow> (\<exists>b\<in>set bs. x \<in> cover_set (f b))"
  by (induction bs) auto

lemma program2_exact:
  assumes "program2 t s df = Inr (a24, df2)"
  shows "fst ` set df2 = fst ` set df - cover_set a24"
proof -
  define sus where "sus = (case limits s (ipFw3CountRatio t) of Inr lm \<Rightarrow> suspects lm (fw_counts 0xFFFFFF00 df) | Inl _ \<Rightarrow> [])"
  have a24: "a24 = concat (map (blocks_24 t df) sus)" and "df2 = erase_networks (orig_ips 0xFFFFFF00 df) sus df"
    using assms by (auto simp: program2_def Let_def bindE_Inr_iff sus_def)
  then have df2: "fst ` set df2 = {x \<in> fst ` set df. x AND 0xFFFFFF00 \<notin> set sus}" by (auto simp: erase_networks_filter)
  have sus: "\<exists>y\<in>fst ` set df. b = y AND 0xFFFFFF00" if "b \<in> set sus" for b
    using that suspects_keys fw_counts_keys by (fastforce simp: sus_def split: sum.splits)
  have "x \<in> cover_set a24 \<longleftrightarrow> x AND 0xFFFFFF00 \<in> set sus" if "x \<in> fst ` set df" for x
  proof
    assume "x \<in> cover_set a24"
    then obtain b where b: "b \<in> set sus" "x \<in> cover_set (blocks_24 t df b)" unfolding a24 cover_set_concat by blast
    obtain y where "y \<in> fst ` set df" "b = y AND 0xFFFFFF00" using sus [OF b(1)] by blast
    from blocks_24_cover(2) [OF this, where t = t] b show "x AND 0xFFFFFF00 \<in> set sus" by blast
  next
    assume "x AND 0xFFFFFF00 \<in> set sus"
    with blocks_24_cover(1) [OF that refl, where t = t] show "x \<in> cover_set a24" unfolding a24 cover_set_concat by blast
  qed
  then show ?thesis unfolding df2 by auto
qed

section \<open>Program 3\<close>

text \<open>The third byte never reaches the byte vector.\<close>

lemma third_byte_lost: "(ucast (x AND 0xFF00 :: u32) :: 8 word) = 0"
proof -
  have "(0xFF00 :: u32) = push_bit 8 255" by simp
  then have "ucast (x AND 0xFF00 :: u32) = (ucast (x AND push_bit 8 255) :: 8 word)" by simp
  also have "\<dots> = 0" by (rule bit_eqI) (auto simp: bit_simps simp del: push_bit_numeral)
  finally show ?thesis .
qed

lemma blocks_16_first_24:
  assumes "aligned 16 b" "e \<in> set df" "fst e AND 0xFFFF0000 = b"
    and "\<not> dge (double_of_int (int (length (filter (\<lambda>e. fst e AND 0xFFFF0000 = b) df)))) (ipSegCoverThreshold t)"
  shows "blocks_16 t df b = iprange_to_cidrs (CIDR b 24) (CIDR b 24)"
proof -
  have "belongs_16 b y \<longleftrightarrow> y AND 0xFFFF0000 = b" for y
    using same_network [OF assms(1), of y] by (simp add: belongs_16_def masks)
  moreover define es where "es = filter (\<lambda>e. fst e AND 0xFFFF0000 = b) df"
  moreover have "es \<noteq> []" using assms(2,3) by (auto simp: es_def filter_empty_conv)
  ultimately show ?thesis using assms(4)
    by (simp add: blocks_16_def Let_def third_byte_lost u8_Min_Max image_constant_conv flip: es_def)
qed

lemma wf_cidr_network: "k \<le> 32 \<Longrightarrow> aligned k b \<Longrightarrow> wf_cidr (CIDR b (32 - int k))"
  by (simp add: wf_cidr_def host_bits_def)

lemma iprange_same_24:
  assumes "aligned 16 b"
  shows "cover_set (iprange_to_cidrs (CIDR b 24) (CIDR b 24)) = cidr_set (CIDR b 24)" "\<forall>c\<in>set (iprange_to_cidrs (CIDR b 24) (CIDR b 24)). wf_cidr c"
proof -
  have al: "aligned 8 b" using aligned_mono [OF assms, of 8] by simp
  have wf: "wf_cidr (CIDR b 24)" using wf_cidr_network [OF _ al] by simp
  have nm: "netmask 24 = NOT (mask 8)" by code_simp
  have "b AND NOT (mask 8) = b" using al bits_ident [of 8 b] unfolding network_and by (simp add: aligned_def)
  then have net: "network b 24 = b" by (simp only: network_def nm)
  have bro: "unat (broadcast b 24) = unat b + 255" using unat_broadcast [of 24 b] al by simp
  then have le: "b \<le> broadcast b 24" by (simp add: word_le_nat_alt)
  have cov: "cover_set (iprange_to_cidrs (CIDR b 24) (CIDR b 24)) = {b .. broadcast b 24} \<and> ordered_blocks (iprange_to_cidrs (CIDR b 24) (CIDR b 24))"
    using iprange_to_cidrs_cover [of "CIDR b 24" "CIDR b 24"] le by (simp add: net)
  have "y \<in> {b .. broadcast b 24} \<longleftrightarrow> y \<in> cidr_set (CIDR b 24)" for y
    unfolding cidr_set_iff [OF wf] atLeastAtMost_iff word_le_nat_alt bro by (simp add: host_bits_def) arith
  then show "cover_set (iprange_to_cidrs (CIDR b 24) (CIDR b 24)) = cidr_set (CIDR b 24)" using cov by blast
  show "\<forall>c\<in>set (iprange_to_cidrs (CIDR b 24) (CIDR b 24)). wf_cidr c" using cov by (simp add: ordered_blocks_def)
qed

lemma first_24_in_16:
  assumes "aligned 16 b" "y \<in> cidr_set (CIDR b 24)"
  shows "y AND 0xFFFF0000 = b \<and> y AND 0xFF00 = 0"
proof -
  have al: "aligned 8 b" using aligned_mono [OF assms(1), of 8] by simp
  have y: "y AND NOT (mask 8) = b" using assms(2) cidr_set_24 [OF al] by simp
  have b: "b AND NOT (mask 16) = b" using assms(1) bits_ident [of 16 b] unfolding network_and by (simp add: aligned_def)
  have masked: "NOT (mask 16) AND 0xFF00 = (0::u32)" "NOT (mask 8) AND NOT (mask 16) = (NOT (mask 16) :: u32)"
    "NOT (mask 8) AND 0xFF00 = (0xFF00 :: u32)" by code_simp+
  have "y AND NOT (mask 16) = (y AND NOT (mask 8)) AND NOT (mask 16)" by (simp only: and.assoc masked)
  moreover have "y AND 0xFF00 = (y AND NOT (mask 8)) AND 0xFF00" by (simp only: and.assoc masked)
  moreover have "(b AND NOT (mask 16)) AND 0xFF00 = 0" by (simp only: and.assoc masked) simp
  ultimately show ?thesis unfolding masks by (simp only: y b simp_thms)
qed

lemma blocks_16_inside:
  assumes "aligned 16 b"
  shows "cover_set (blocks_16 t df b) \<subseteq> {y. y AND 0xFFFF0000 = b} \<and> (\<forall>c\<in>set (blocks_16 t df b). wf_cidr c)"
proof -
  define es where "es = filter (\<lambda>e. belongs_16 b (fst e)) df"
  have "blocks_16 t df b \<in> {[], [CIDR b 16], iprange_to_cidrs (CIDR b 24) (CIDR b 24)}"
    by (simp add: blocks_16_def Let_def third_byte_lost u8_Min_Max image_constant_conv flip: es_def)
  then show ?thesis
    using iprange_same_24 [OF assms] first_24_in_16 [OF assms] wf_cidr_network [of 16, OF _ assms] cidr_set_16 [OF assms]
    by (auto simp: masks)
qed

lemma program3_shape:
  assumes "program3 t s df = Inr (a16, df3)"
  obtains sus where "a16 = concat (map (blocks_16 t df) sus)" "df3 = filter (\<lambda>e. fst e AND 0xFFFF0000 \<notin> set sus) df"
    "\<And>b. b \<in> set sus \<Longrightarrow> aligned 16 b"
proof
  define sus where "sus = (case limits s (ipFw2CountRatio t) of Inr lm \<Rightarrow> suspects lm (fw_counts 0xFFFF0000 df) | Inl _ \<Rightarrow> [])"
  show "a16 = concat (map (blocks_16 t df) sus)" and "df3 = filter (\<lambda>e. fst e AND 0xFFFF0000 \<notin> set sus) df"
    using assms by (auto simp: program3_def Let_def bindE_Inr_iff sus_def erase_networks_filter)
  show "aligned 16 b" if "b \<in> set sus" for b
  proof -
    have "b \<in> fst ` set (fw_counts 0xFFFF0000 df)" using that suspects_keys by (fastforce simp: sus_def split: sum.splits)
    then obtain x where "b = x AND 0xFFFF0000" unfolding fw_counts_keys by blast
    then show ?thesis by (simp only: masks aligned_network_and)
  qed
qed

text \<open>A \<open>/16\<close> network that is suspect but has fewer addresses than the cover threshold is
  replaced by its first \<open>/24\<close> only, since the third byte is masked but not shifted before it is stored
  in a byte: an address with a third byte other than 0 leaves the map without being covered.\<close>

lemma program3_uncovered:
  assumes "program3 t s df = Inr (a16, df3)" "x \<in> fst ` set df" "x \<notin> fst ` set df3" "x AND 0xFF00 \<noteq> 0"
    and "\<not> dge (double_of_int (int (length (filter (\<lambda>e. fst e AND 0xFFFF0000 = x AND 0xFFFF0000) df)))) (ipSegCoverThreshold t)"
  shows "x \<notin> cover_set a16"
proof
  assume "x \<in> cover_set a16"
  obtain sus where sus: "a16 = concat (map (blocks_16 t df) sus)" "df3 = filter (\<lambda>e. fst e AND 0xFFFF0000 \<notin> set sus) df"
    "\<And>b. b \<in> set sus \<Longrightarrow> aligned 16 b" using program3_shape [OF assms(1)] by blast
  obtain b where b: "b \<in> set sus" "x \<in> cover_set (blocks_16 t df b)"
    using \<open>x \<in> cover_set a16\<close> unfolding sus(1) cover_set_concat by blast
  have al: "aligned 16 b" by (rule sus(3) [OF b(1)])
  have "x AND 0xFFFF0000 = b" using blocks_16_inside [OF al, of t df] b(2) by blast
  moreover obtain e where "e \<in> set df" "x = fst e" using assms(2) by blast
  ultimately have "blocks_16 t df b = iprange_to_cidrs (CIDR b 24) (CIDR b 24)"
    using assms(5) by (intro blocks_16_first_24 [OF al, of e]) simp_all
  then have "x \<in> cidr_set (CIDR b 24)" using b(2) iprange_same_24(1) [OF al] by simp
  then show False using first_24_in_16 [OF al] assms(4) by blast
qed

lemma program3_uncovered_example:
  "program3 SndAttackerIPMergeTask 10 [(0x0A000501, 9)] = Inr (iprange_to_cidrs (CIDR 0x0A000000 24) (CIDR 0x0A000000 24), []) \<and>
   0x0A000501 \<notin> cover_set (iprange_to_cidrs (CIDR 0x0A000000 24) (CIDR 0x0A000000 24))"
proof -
  have p: "program3 SndAttackerIPMergeTask 10 [(0x0A000501, 9)] = Inr (iprange_to_cidrs (CIDR 0x0A000000 24) (CIDR 0x0A000000 24), [])"
    by code_simp
  have "\<not> dge (double_of_int (int (length (filter (\<lambda>e. fst e AND 0xFFFF0000 = (0x0A000501::u32) AND 0xFFFF0000) [(0x0A000501::u32, 9::int)]))))
      (ipSegCoverThreshold SndAttackerIPMergeTask)" "(0x0A000501::u32) AND 0xFF00 \<noteq> 0"
    by code_simp+
  then show ?thesis using p program3_uncovered [OF p, of "0x0A000501"] by simp
qed

section \<open>Program 4\<close>

lemma set_difference_sorted:
  assumes "sorted xs" "sorted ys" "distinct xs"
  shows "set (set_difference xs ys) = set xs - set ys"
  using assms by (induction xs ys rule: set_difference.induct) auto

lemma fold_random:
  "fold (\<lambda>ip (tot, ips). let cnt = c ip in if cnt \<le> lm then (tot + cnt, us_insert ip ips) else (tot, ips)) us (t0, ips0) =
     (t0 + sum_list (map c (filter (\<lambda>ip. c ip \<le> lm) us)), fold us_insert (filter (\<lambda>ip. c ip \<le> lm) us) ips0)"
  for c :: "'a \<Rightarrow> int"
  by (induction us arbitrary: t0 ips0) (simp_all add: Let_def add.assoc)

text \<open>The entries of unknown addresses with few packets.\<close>

definition rare_unknown :: "merge_task \<Rightarrow> counts \<Rightarrow> u32 list \<Rightarrow> (u32 \<times> int) set" where
  "rare_unknown t df known = {e \<in> set df. fst e \<notin> set known \<and> snd e \<le> ipRandCountThreshold t}"

lemma program4_sets:
  assumes "um_invar df" "sorted known"
  shows "(fst (program4 t s df known) \<longleftrightarrow>
      dge (double_of_int (\<Sum>e\<in>rare_unknown t df known. snd e)) (dmul (double_of_int s) (ipRandCountRatio t))) \<and>
    set (snd (program4 t s df known)) = (if fst (program4 t s df known) then fst ` rare_unknown t df known else {}) \<and>
    distinct (snd (program4 t s df known))"
proof -
  define c where "c = (\<lambda>ip. case map_of df ip of None \<Rightarrow> 0 | Some n \<Rightarrow> n)"
  define us where "us = fold us_insert (set_difference (sort (map fst df)) known) []"
  define rs where "rs = filter (\<lambda>ip. c ip \<le> ipRandCountThreshold t) us"
  have "distinct us" "set us = fst ` set df - set known"
    using assms by (auto simp: us_def us_fold_set us_fold_distinct set_difference_sorted)
  moreover have ce: "c (fst e) = snd e" if "e \<in> set df" for e
    using that map_of_is_SomeI [OF assms(1), of "fst e" "snd e"] by (simp add: c_def)
  ultimately have rs: "distinct rs" "set rs = fst ` rare_unknown t df known"
    by (auto simp: rs_def rare_unknown_def)
  have inj: "inj_on fst (rare_unknown t df known)"
    using assms(1) by (auto simp: rare_unknown_def distinct_map inj_on_def)
  have "sum_list (map c rs) = sum c (fst ` rare_unknown t df known)" using rs by (simp add: sum_list_distinct_conv_sum_set)
  also have "\<dots> = (\<Sum>e\<in>rare_unknown t df known. snd e)"
    unfolding sum.reindex [OF inj] by (rule sum.cong) (auto simp: rare_unknown_def ce)
  finally have tot: "sum_list (map c rs) = (\<Sum>e\<in>rare_unknown t df known. snd e)" .
  have p4: "program4 t s df known = (if dge (double_of_int (sum_list (map c rs))) (dmul (double_of_int s) (ipRandCountRatio t))
      then (True, fold us_insert rs []) else (False, []))"
    unfolding program4_def Let_def us_def [symmetric]
    using fold_random [of c "ipRandCountThreshold t" us 0 "[]"] by (simp add: rs_def Let_def c_def)
  show ?thesis by (simp add: p4 tot us_fold_set us_fold_distinct rs(2))
qed

text \<open>With the known addresses sorted, the last program reports a random attack exactly when the
  packets of unknown addresses with few packets each make up the given share of all packets, and then
  the random addresses are those; otherwise there are none.\<close>

lemma program4_random:
  assumes "um_invar df" "sorted known"
  shows "(fst (program4 t s df known) \<longleftrightarrow>
      dge (double_of_int (\<Sum>e\<in>rare_unknown t df known. snd e)) (dmul (double_of_int s) (ipRandCountRatio t))) \<and>
    set (snd (program4 t s df known)) = (if fst (program4 t s df known) then fst ` rare_unknown t df known else {}) \<and>
    distinct (snd (program4 t s df known))"
  by (rule program4_sets [OF assms])

lemma program4_random_example:
  "set (snd (program4 SndAttackerIPMergeTask 5 [(7, 1), (9, 2), (8, 3)] [8])) = {7, 9}"
proof -
  have "fst (program4 SndAttackerIPMergeTask 5 [(7, 1), (9, 2), (8, 3)] [8])" by code_simp
  moreover have "rare_unknown SndAttackerIPMergeTask [(7, 1), (9, 2), (8, 3)] [8] = {(7, 1), (9, 2)}"
    by (auto simp: rare_unknown_def SndAttackerIPMergeTask_def)
  ultimately show ?thesis
    using program4_random [of "[(7, 1), (9, 2), (8, 3)]" "[8]" SndAttackerIPMergeTask 5] by simp
qed

section \<open>The whole task\<close>

definition is_ratio :: "double \<Rightarrow> bool" where
  "is_ratio d \<longleftrightarrow> (case d of Fin r \<Rightarrow> 0 \<le> r \<and> r \<le> 1 | _ \<Rightarrow> False)"

lemma limits_between:
  assumes "0 \<le> s" "s \<le> 2147483647" "is_ratio d"
  shows "\<exists>full half. limits s d = Inr (full, half) \<and> 0 \<le> full \<and> full \<le> s \<and> 0 \<le> half \<and> half \<le> s"
proof -
  obtain r where d: "d = Fin r" "0 \<le> r" "r \<le> 1" using assms(3) by (auto simp: is_ratio_def split: double.splits)
  obtain q where q: "dmul (double_of_int s) d = Fin q" "0 \<le> q" "q \<le> of_int s"
    using dmul_ratio [OF assms(1) _ d(2,3)] assms(2) d(1) by auto
  obtain h where h: "dhalf (Fin q) = Fin h" "0 \<le> h" "h \<le> of_int s"
    using dhalf_between [OF q(2,3)] assms(2) by auto
  show ?thesis
    using to_int32_between [OF q(2,3) assms(2)] to_int32_between [OF h(2,3) assms(2)] by (auto simp: limits_def q(1) h(1))
qed

text \<open>For a share between 0 and 1 and a sum of counts in the range of \<open>int\<close>, both limits
  are computed without leaving the range: they lie between 0 and the sum.\<close>

lemma limits_bounded:
  assumes "0 \<le> s" "s \<le> 2147483647" "is_ratio d"
  shows "\<exists>full half. limits s d = Inr (full, half) \<and> 0 \<le> full \<and> full \<le> s \<and> 0 \<le> half \<and> half \<le> s"
  by (rule limits_between [OF assms])

lemma limits_bounded_example: "limits 10 (Fin (3 / 4)) = Inr (7, 3) \<and> (7::int) \<le> 10"
proof -
  have "limits 10 (Fin (3 / 4)) = Inr (7, 3)" by code_simp
  then show ?thesis using limits_bounded [of 10 "Fin (3 / 4)"] by (simp add: is_ratio_def)
qed

definition ratios_ok :: "merge_task \<Rightarrow> bool" where
  "ratios_ok t \<longleftrightarrow> is_ratio (ipFw4CountRatio t) \<and> is_ratio (ipFw3CountRatio t) \<and> is_ratio (ipFw2CountRatio t)"

lemma programs_return:
  assumes "0 \<le> s" "s \<le> 2147483647" "ratios_ok t"
  shows "\<exists>a df1. program1 t s df = Inr (a, df1)" "\<exists>a df2. program2 t s df = Inr (a, df2)" "\<exists>a df3. program3 t s df = Inr (a, df3)"
proof -
  have l: "\<exists>lm. limits s d = Inr lm" if "is_ratio d" for d using limits_between [OF assms(1,2) that] by blast
  have "\<exists>n. to_int32 (dmul (double_of_int s) d) = Inr n" if "is_ratio d" for d
    using l [OF that] by (auto simp: limits_def bindE_Inr_iff)
  then show "\<exists>a df1. program1 t s df = Inr (a, df1)" using assms(3) by (fastforce simp: ratios_ok_def program1_def Let_def)
  show "\<exists>a df2. program2 t s df = Inr (a, df2)" using l assms(3) by (fastforce simp: ratios_ok_def program2_def Let_def)
  show "\<exists>a df3. program3 t s df = Inr (a, df3)" using l assms(3) by (fastforce simp: ratios_ok_def program3_def Let_def)
qed

text \<open>C11: the first two programs lose nothing: they return, and the addresses left in the map are
  exactly those of the input that the emitted blocks do not cover.\<close>

theorem programs_exact_cover:
  assumes "0 \<le> s" "s \<le> 2147483647" "ratios_ok t"
  shows "\<exists>a32 df1 a24 df2. program1 t s df = Inr (a32, df1) \<and> program2 t s df1 = Inr (a24, df2) \<and>
    fst ` set df2 = fst ` set df - cover_set (a32 @ a24)"
proof -
  obtain a32 df1 where p1: "program1 t s df = Inr (a32, df1)" using programs_return(1) [OF assms] by blast
  obtain a24 df2 where p2: "program2 t s df1 = Inr (a24, df2)" using programs_return(2) [OF assms] by blast
  have "fst ` set df2 = fst ` set df - cover_set (a32 @ a24)"
    using program1_exact(1) [OF p1] program2_exact [OF p2] by auto
  then show ?thesis using p1 p2 by blast
qed

theorem programs_exact_cover_witness:
  "\<exists>a32 df1 a24 df2. program1 SndAttackerIPMergeTask 10 [(0x0A000501, 9), (0x0A000502, 1)] = Inr (a32, df1) \<and>
    program2 SndAttackerIPMergeTask 10 df1 = Inr (a24, df2) \<and>
    fst ` set df2 = {0x0A000501, 0x0A000502} - cover_set (a32 @ a24)"
proof -
  have "ratios_ok SndAttackerIPMergeTask" by code_simp
  then show ?thesis using programs_exact_cover [of 10 SndAttackerIPMergeTask "[(0x0A000501, 9), (0x0A000502, 1)]"] by simp
qed

lemma iprange_empty: "hi < lo \<Longrightarrow> iprange_to_cidrs (CIDR lo 32) (CIDR hi 32) = []"
  using split_range_inverted [of hi lo 0 0 "[]"] by (auto simp: iprange_to_cidrs_def Let_def split: prod.splits)

lemma wf_blocks_12:
  assumes "program1 t s df = Inr (a32, df1)" "program2 t s df1 = Inr (a24, df2)"
  shows "\<forall>c\<in>set (a32 @ a24). wf_cidr c"
proof -
  have "\<forall>c\<in>set a32. wf_cidr c" using assms(1) by (auto simp: program1_def Let_def bindE_Inr_iff)
  moreover have "wf_cidr c" if c: "c \<in> set a24" for c
  proof -
    obtain lm where "a24 = concat (map (blocks_24 t df1) (suspects lm (fw_counts 0xFFFFFF00 df1)))"
      using assms(2) by (auto simp: program2_def Let_def bindE_Inr_iff)
    then obtain b where b: "b \<in> set (suspects lm (fw_counts 0xFFFFFF00 df1))" "c \<in> set (blocks_24 t df1 b)" using c by auto
    then obtain x where "b = x AND 0xFFFFFF00" using suspects_keys fw_counts_keys by blast
    then have al: "aligned 8 b" by (simp only: masks aligned_network_and)
    have "\<forall>c\<in>set (iprange_to_cidrs (CIDR lo 32) (CIDR hi 32)). wf_cidr c" for lo hi
      using iprange_to_cidrs_cover [of "CIDR lo 32" "CIDR hi 32"] iprange_empty [of hi lo]
      by (cases "lo \<le> hi") (auto simp: ordered_blocks_def)
    then show ?thesis using b(2) wf_cidr_network [of 8, OF _ al] by (auto simp: blocks_24_def Let_def split: if_splits)
  qed
  ultimately show ?thesis by auto
qed

text \<open>What the result and the map left over have to do with each other.\<close>

definition merged_ok :: "counts \<Rightarrow> attacker_result \<Rightarrow> counts \<Rightarrow> bool" where
  "merged_ok df r df' \<longleftrightarrow> (\<forall>c\<in>set (ar_attackerIPs r). wf_cidr c) \<and> cover_set (ar_attackerIPs r) \<inter> fst ` set df' = {} \<and>
     set df' \<subseteq> set df \<and> set (ar_randomIPs r) \<subseteq> fst ` set df' \<and> distinct (ar_randomIPs r)"

lemma program_filters:
  "program1 t s df = Inr (a32, df1) \<Longrightarrow> \<exists>P. df1 = filter P df"
  "program2 t s df = Inr (a24, df2) \<Longrightarrow> \<exists>P. df2 = filter P df"
  "program3 t s df = Inr (a16, df3) \<Longrightarrow> \<exists>P. df3 = filter P df"
  by (auto simp: program1_def program2_def program3_def Let_def bindE_Inr_iff erase_ips_filter erase_networks_filter)

lemma program3_ok:
  assumes "program3 t s df = Inr (a16, df3)"
  shows "cover_set a16 \<inter> fst ` set df3 = {}" "\<forall>c\<in>set a16. wf_cidr c"
proof -
  obtain sus where sus: "a16 = concat (map (blocks_16 t df) sus)" "df3 = filter (\<lambda>e. fst e AND 0xFFFF0000 \<notin> set sus) df"
    "\<And>b. b \<in> set sus \<Longrightarrow> aligned 16 b" using program3_shape [OF assms] by blast
  show "cover_set a16 \<inter> fst ` set df3 = {}" "\<forall>c\<in>set a16. wf_cidr c"
    using blocks_16_inside [OF sus(3)] unfolding sus(1,2) by (fastforce simp: cover_set_concat)+
qed

lemma disjoint_chain:
  "A \<inter> X = {} \<Longrightarrow> B \<inter> Y = {} \<Longrightarrow> C \<inter> Z = {} \<Longrightarrow> Y \<subseteq> X \<Longrightarrow> Z \<subseteq> Y \<Longrightarrow> (A \<union> (B \<union> C)) \<inter> Z = {}"
  by blast

lemma merge_attackers_ok:
  assumes "ratios_ok t" "0 \<le> count_sum df" "count_sum df \<le> 2147483647" "um_invar df" "sorted known"
  shows "\<exists>r df'. merge_attackers t df known = Inr (r, df') \<and> merged_ok df r df'"
proof -
  let ?s = "count_sum df"
  note ret = programs_return [OF assms(2,3,1)]
  obtain a32 df1 where p1: "program1 t ?s df = Inr (a32, df1)" using ret(1) by blast
  obtain a24 df2 where p2: "program2 t ?s df1 = Inr (a24, df2)" using ret(2) by blast
  obtain a16 df3 where p3: "program3 t ?s df2 = Inr (a16, df3)" using ret(3) by blast
  obtain P where d1: "df1 = filter P df" using program_filters(1) [OF p1] by (elim exE)
  obtain Q where d2: "df2 = filter Q df1" using program_filters(2) [OF p2] by (elim exE)
  obtain R where d3: "df3 = filter R df2" using program_filters(3) [OF p3] by (elim exE)
  have c: "cover_set a32 \<inter> fst ` set df1 = {}" "cover_set a24 \<inter> fst ` set df2 = {}" "cover_set a16 \<inter> fst ` set df3 = {}"
    using program1_exact(1) [OF p1] program2_exact [OF p2] program3_ok(1) [OF p3] by auto
  have sub: "fst ` set df2 \<subseteq> fst ` set df1" "fst ` set df3 \<subseteq> fst ` set df2" "set df1 \<subseteq> set df" "set df2 \<subseteq> set df" "set df3 \<subseteq> set df"
    by (auto simp: d1 d2 d3)
  note wf = wf_blocks_12 [OF p1 p2] program3_ok(2) [OF p3]
  have run: "merge_attackers t df known = Inr (
      if df1 = [] then (ip_result a32 (False, []), df1) else if df2 = [] then (ip_result (a32 @ a24) (False, []), df2)
      else (ip_result (a32 @ a24 @ a16) (if df3 = [] then (False, []) else program4 t ?s df3 known), df3))"
    by (simp add: merge_attackers_def Let_def p1 p2 p3)
  have "um_invar df3" using assms(4) by (simp add: d1 d2 d3 distinct_map_filter)
  then have r: "set (snd (program4 t ?s df3 known)) \<subseteq> fst ` set df3" "distinct (snd (program4 t ?s df3 known))"
    using program4_sets [OF _ assms(5), of df3 t ?s] by (auto simp: rare_unknown_def split: if_splits)
  have "merged_ok df (ip_result a32 (False, [])) []" "merged_ok df (ip_result (a32 @ a24) (False, [])) []"
    using wf(1) by (auto simp: merged_ok_def ip_result_def)
  moreover have "merged_ok df (ip_result (a32 @ a24 @ a16) (if df3 = [] then (False, []) else program4 t ?s df3 known)) df3"
  proof -
    have "cover_set (a32 @ a24 @ a16) \<inter> fst ` set df3 = {}" 
      unfolding cover_set_simps by (rule disjoint_chain [OF c sub(1,2)])
    then show ?thesis unfolding merged_ok_def ip_result_def using wf sub(5) r by (cases "df3 = []") (simp_all add: ball_Un)
  qed
  ultimately show ?thesis unfolding run by (cases "df1 = []"; cases "df2 = []") simp_all
qed

text \<open>C22: for shares between 0 and 1 and a sum of counts in the range of \<open>int\<close> the task always
  emits a result: all its blocks are well formed, none of them covers an address that is left in the
  map, random addresses are distinct addresses left in the map, and the map has only lost entries.\<close>

theorem SndAttackerIPMergeTask_emits:
  assumes "ratios_ok t" "0 \<le> count_sum df" "count_sum df \<le> 2147483647" "um_invar df" "sorted known" "can_emit junk ctx"
    and "input_tag as_counts_ptr (ctx_inputs ctx) ''SIP'' = Inr (Some df)"
    and "input_tag as_ips (ctx_inputs ctx) ''KNOWN_IPS'' = Inr (Some known)"
  shows "\<exists>r df'. SndAttackerIPMergeTask_Process t junk ctx = Inr (0, emitted (Datum_val junk (VAttackers r)) ctx, Some df') \<and>
    (\<forall>c\<in>set (ar_attackerIPs r). wf_cidr c) \<and> cover_set (ar_attackerIPs r) \<inter> fst ` set df' = {} \<and>
    set df' \<subseteq> set df \<and> set (ar_randomIPs r) \<subseteq> fst ` set df' \<and> distinct (ar_randomIPs r)"
  using merge_attackers_ok [OF assms(1-5)] assms(6-8) emit_emitted [OF assms(6)]
  by (auto simp: SndAttackerIPMergeTask_Process_def merged_ok_def)

definition merge_demo :: "val input_stream collection" where
  "merge_demo = demo_inputs [(''KNOWN_IPS'', \<lparr>td_base = 0, td_count = 1\<rparr>), (''SIP'', \<lparr>td_base = 1, td_count = 1\<rparr>)]
     [VIPs [5], VCountsPtr [(0x0A000501, 9), (0x0A000502, 1)]]"

theorem SndAttackerIPMergeTask_emits_witness:
  "\<exists>r df'. SndAttackerIPMergeTask_Process SndAttackerIPMergeTask 1 (demo_ctx merge_demo) =
      Inr (0, emitted (Datum_val 1 (VAttackers r)) (demo_ctx merge_demo), Some df') \<and>
    cover_set (ar_attackerIPs r) \<inter> fst ` set df' = {}"
proof -
  have h: "ratios_ok SndAttackerIPMergeTask" "count_sum [(0x0A000501, 9), (0x0A000502, 1)] = 10"
    "um_invar [(0x0A000501 :: u32, 9 :: int), (0x0A000502, 1)]"
    "input_tag as_counts_ptr merge_demo ''SIP'' = Inr (Some [(0x0A000501, 9), (0x0A000502, 1)])"
    "input_tag as_ips merge_demo ''KNOWN_IPS'' = Inr (Some [5])"
    by code_simp+
  then show ?thesis
    using SndAttackerIPMergeTask_emits [OF h(1) _ _ h(3) _ demo_can_emit, of "[5]" merge_demo]
    by (simp only: demo_ctx_simps) auto
qed
end
