(* ===== verification/Packet_Parse.thy ===== *)
theory Packet_Parse
  imports Task_Values
begin

text \<open>
  From bytes to packets: \<open>dni/tasks/snding/rb_data_parse_task.cc\<close> and
  \<open>dni/tasks/snding/pcap_parse_task.cc\<close>. A buffer is the list of its bytes and a pointer into it an
  offset; a read outside the buffer is undefined. The headers are read in network byte order, the
  fields of the ring buffer itself in the byte order of the host, little endian. The layout of the
  Ethernet, IPv4, TCP and UDP headers and their constants are those of the system's headers.
\<close>

section \<open>Reading bytes\<close>

type_synonym bytes = "8 word list"

definition byte_at :: "bytes \<Rightarrow> nat \<Rightarrow> u32 outcome" where
  "byte_at mem p = (if p < length mem then Inr (ucast (mem ! p)) else Inl Undefined)"

definition be16_at :: "bytes \<Rightarrow> nat \<Rightarrow> u32 outcome" where
  "be16_at mem p = bindE (byte_at mem p) (\<lambda>h. bindE (byte_at mem (p + 1)) (\<lambda>l. Inr (256 * h + l)))"

definition be32_at :: "bytes \<Rightarrow> nat \<Rightarrow> u32 outcome" where
  "be32_at mem p = bindE (be16_at mem p) (\<lambda>h. bindE (be16_at mem (p + 2)) (\<lambda>l. Inr (65536 * h + l)))"

definition le16_at :: "bytes \<Rightarrow> nat \<Rightarrow> u32 outcome" where
  "le16_at mem p = bindE (byte_at mem p) (\<lambda>l. bindE (byte_at mem (p + 1)) (\<lambda>h. Inr (256 * h + l)))"

definition le32_at :: "bytes \<Rightarrow> nat \<Rightarrow> u32 outcome" where
  "le32_at mem p = bindE (le16_at mem p) (\<lambda>l. bindE (le16_at mem (p + 2)) (\<lambda>h. Inr (65536 * h + l)))"

definition le64_at :: "bytes \<Rightarrow> nat \<Rightarrow> nat outcome" where
  "le64_at mem p = bindE (le32_at mem p) (\<lambda>l. bindE (le32_at mem (p + 4)) (\<lambda>h. Inr (4294967296 * unat h + unat l)))"

section \<open>Headers\<close>

fun vlan_loop :: "nat \<Rightarrow> bytes \<Rightarrow> nat \<Rightarrow> u32 \<Rightarrow> nat \<Rightarrow> (u32 \<times> nat) outcome" where
  "vlan_loop 0 mem eth_header h_proto l3_off = Inr (h_proto, l3_off)"
| "vlan_loop (Suc n) mem eth_header h_proto l3_off =
     (if h_proto \<noteq> 0x8100 \<and> h_proto \<noteq> 0x88A8 then Inr (h_proto, l3_off)
      else let l3_off = l3_off + 4 in
        bindE (be16_at mem (eth_header + l3_off - 2)) (\<lambda>h_proto. vlan_loop n mem eth_header h_proto l3_off))"

text \<open>Result code, protocol (in host order) and offset of the network header.\<close>

definition parse_ethtype_vlan :: "bytes \<Rightarrow> nat \<Rightarrow> (int \<times> u32 \<times> nat) outcome" where
  "parse_ethtype_vlan mem eth_header =
     (let l3_off = 14 in
      bindE (be16_at mem (eth_header + 12)) (\<lambda>h_proto.
      if h_proto < 0x0600 then Inr (- 1, h_proto, l3_off)
      else bindE (vlan_loop 2 mem eth_header h_proto l3_off) (\<lambda>(h_proto, l3_off). Inr (0, h_proto, l3_off))))"

type_synonym features = "(string \<times> u32) list"

text \<open>The branch of the protocol: the ports, nothing, or \<open>default: return\<close>.\<close>

definition parse_ports :: "bytes \<Rightarrow> nat \<Rightarrow> u32 \<Rightarrow> features \<Rightarrow> features option outcome" where
  "parse_ports mem ip_header proto packet =
     (if proto = 6 \<or> proto = 17 then
        bindE (byte_at mem ip_header) (\<lambda>vhl.
        let l4 = ip_header + unat (vhl AND 15) * 4 in
        bindE (be16_at mem l4) (\<lambda>sport. bindE (be16_at mem (l4 + 2)) (\<lambda>dport.
          Inr (Some (um_insert ''DPort'' dport (um_insert ''SPort'' sport packet))))))
      else if proto = 1 then Inr (Some packet)
      else Inr None)"

definition parse_snd_features :: "bytes \<Rightarrow> nat \<Rightarrow> features list \<Rightarrow> features list outcome" where
  "parse_snd_features mem body packets = bindE (parse_ethtype_vlan mem body) (\<lambda>(rc, h_proto, l3_off).
     if rc \<noteq> 0 then Inr packets
     else if h_proto = 0x0800 then
       let ip_header = body + l3_off in
       bindE (be32_at mem (ip_header + 12)) (\<lambda>src.
       bindE (be32_at mem (ip_header + 16)) (\<lambda>dst.
       bindE (byte_at mem (ip_header + 9)) (\<lambda>proto.
       bindE (parse_ports mem ip_header proto (um_insert ''DIP'' dst (um_insert ''SIP'' src []))) (\<lambda>r. case r of
           None \<Rightarrow> Inr packets
         | Some packet \<Rightarrow> bindE (be16_at mem (ip_header + 2)) (\<lambda>ip_len.
             Inr (packets @ [um_insert ''Protocol'' proto (um_insert ''Length'' ip_len packet)]))))))
     else Inr packets)"

section \<open>The ring buffer\<close>

text \<open>\<open>cnt - i\<close> packets are left, \<open>data\<close> points at the length field of the next one, already read.\<close>

fun packet_loop :: "nat \<Rightarrow> bytes \<Rightarrow> nat \<Rightarrow> u32 \<Rightarrow> features list \<Rightarrow> features list outcome" where
  "packet_loop 0 mem data pkt_len packets = Inr packets"
| "packet_loop (Suc n) mem data pkt_len packets =
     (let data = data + 2 in
      bindE (parse_snd_features mem data packets) (\<lambda>packets.
      let data = data + unat pkt_len in
      bindE (le16_at mem data) (\<lambda>pkt_len. packet_loop n mem data pkt_len packets)))"

definition parse_packets :: "bytes \<Rightarrow> nat \<Rightarrow> u32 \<Rightarrow> features list \<Rightarrow> features list outcome" where
  "parse_packets mem pktsdata cnt packets =
     bindE (le16_at mem pktsdata) (\<lambda>pkt_len. packet_loop (unat cnt) mem pktsdata pkt_len packets)"

record rb_header =
  rb_nic_name :: string
  rb_ts :: nat
  rb_stats :: "u32 list"
  rb_offset :: nat

definition parse_header :: "bytes \<Rightarrow> rb_header outcome" where
  "parse_header rbdata = bindE (le16_at rbdata 0) (\<lambda>nic_name_len.
     let slot = 2; n = unat nic_name_len in
     if length rbdata < slot + n then Inl Undefined
     else let nic_name = map (\<lambda>b. char_of (unat b)) (take n (drop slot rbdata)); slot = slot + n in
       bindE (le64_at rbdata slot) (\<lambda>ts.
       let slot = slot + 8 in
       bindE (foldE (\<lambda>i (slot, stats). bindE (le32_at rbdata slot) (\<lambda>v. Inr (slot + 4, stats @ [v]))) [0..<9] (slot, [])) (\<lambda>(slot, stats).
         Inr \<lparr>rb_nic_name = nic_name, rb_ts = ts, rb_stats = stats, rb_offset = slot\<rparr>)))"

definition RBDataParseTask_Process :: "unit \<Rightarrow> int \<Rightarrow> val task_context \<Rightarrow> (int \<times> val task_context) outcome" where
  "RBDataParseTask_Process s junk ctx =
     bindE (input_tag as_bytes (ctx_inputs ctx) ''RBData'') (\<lambda>x. case x of
         None \<Rightarrow> Inr (- 1, ctx)
       | Some rbdata \<Rightarrow> bindE (parse_header rbdata) (\<lambda>h.
           let count_total = rb_stats h ! 0 in
           if count_total = 0 then Inr (- 100, ctx)
           else let pkts_cnt = (if 10000 < count_total then 10000 else count_total) in
             bindE (parse_packets rbdata (rb_offset h) pkts_cnt []) (\<lambda>packets.
             bindE (emit_tag junk ''ParsedPackets'' 0 (VPackets packets) ctx) (\<lambda>ctx.
             bindE (emit_tag junk ''NIC'' 0 (VString (rb_nic_name h)) ctx) (\<lambda>ctx.
             bindE (emit_tag junk ''Timestamp'' 0 (VU64 (rb_ts h)) ctx) (\<lambda>ctx.
             bindE (emit_tag junk ''Statistic'' 0 (VIPs (rb_stats h)) ctx) (\<lambda>ctx. Inr (0, ctx))))))))"

section \<open>Capture files\<close>

text \<open>
  The capture library is a parameter: \<open>pcap_open_offline\<close> gives the frames of a file in order, or
  nothing when the file cannot be opened. The callback has the same body as
  \<open>parse_snd_features\<close> above, at the start of the captured bytes.
\<close>

definition pcap_callback :: "bytes \<Rightarrow> features list \<Rightarrow> features list outcome" where
  "pcap_callback body packets = parse_snd_features body 0 packets"

definition SndPcapParseTask_Process ::
  "(string \<Rightarrow> bytes list option) \<Rightarrow> unit \<Rightarrow> int \<Rightarrow> val task_context \<Rightarrow> (int \<times> val task_context) outcome" where
  "SndPcapParseTask_Process pcap_open_offline s junk ctx = finish junk ctx
     (need (input_tag as_string (ctx_inputs ctx) ''PATH'') (\<lambda>pcap.
        case pcap_open_offline pcap of
          None \<Rightarrow> Inr None
        | Some frames \<Rightarrow> bindE (foldE pcap_callback frames []) (\<lambda>packets. Inr (Some (VPackets packets)))))"

section \<open>Writing bytes\<close>

text \<open>Encoders for what the parser reads: the inverse of the network and host byte orders.\<close>

definition enc16 :: "16 word \<Rightarrow> bytes" where
  "enc16 w = [ucast (drop_bit 8 w), ucast w]"

definition enc32 :: "u32 \<Rightarrow> bytes" where
  "enc32 w = enc16 (ucast (drop_bit 16 w)) @ enc16 (ucast w)"

definition enc_le16 :: "16 word \<Rightarrow> bytes" where
  "enc_le16 w = [ucast w, ucast (drop_bit 8 w)]"

definition enc_le32 :: "u32 \<Rightarrow> bytes" where
  "enc_le32 w = enc_le16 (ucast w) @ enc_le16 (ucast (drop_bit 16 w))"

definition enc_le64 :: "u32 \<Rightarrow> u32 \<Rightarrow> bytes" where
  "enc_le64 h l = enc_le32 l @ enc_le32 h"

lemma enc_length [simp]:
  "length (enc16 w) = 2" "length (enc32 v) = 4" "length (enc_le16 w) = 2" "length (enc_le32 v) = 4" "length (enc_le64 v u) = 8"
  by (simp_all add: enc16_def enc32_def enc_le16_def enc_le32_def enc_le64_def)

lemma unat_ucast_mod: "unat (ucast w :: 'b::len word) = unat w mod 2 ^ LENGTH('b)" for w :: "'a::len word"
  by (simp add: unsigned_ucast_eq take_bit_nat_def)

lemma split16: "256 * ucast (ucast (drop_bit 8 w) :: 8 word) + ucast (ucast w :: 8 word) = (ucast w :: u32)"
  for w :: "16 word"
proof -
  have w: "unat w < 65536" using unsigned_less [where ?'a = nat and w = w] by simp
  have "unat (ucast (ucast (drop_bit 8 w) :: 8 word) :: u32) = unat w div 256"
    using w by (simp only: unat_ucast_mod unat_drop_bit_eq drop_bit_eq_div) (simp add: unat_div less_mult_imp_div_less)
  moreover have "unat (ucast (ucast w :: 8 word) :: u32) = unat w mod 256"
    by (simp only: unat_ucast_mod) simp
  moreover have "unat (ucast w :: u32) = unat w" using w by (simp only: unat_ucast_mod) simp
  moreover have "256 * (unat w div 256) + unat w mod 256 = unat w" by simp
  ultimately show ?thesis using w
    by (simp add: word_unat_eq_iff unat_word_ariths)
qed

lemma split32: "65536 * ucast (ucast (drop_bit 16 w) :: 16 word) + ucast (ucast w :: 16 word) = w"
  for w :: u32
proof -
  have w: "unat w < 4294967296" using unsigned_less [where ?'a = nat and w = w] by simp
  have "unat (ucast (ucast (drop_bit 16 w) :: 16 word) :: u32) = unat w div 65536"
    using w by (simp only: unat_ucast_mod unat_drop_bit_eq drop_bit_eq_div) (simp add: unat_div less_mult_imp_div_less)
  moreover have "unat (ucast (ucast w :: 16 word) :: u32) = unat w mod 65536"
    by (simp only: unat_ucast_mod) simp
  moreover have "65536 * (unat w div 65536) + unat w mod 65536 = unat w" by simp
  ultimately show ?thesis using w
    by (simp add: word_unat_eq_iff unat_word_ariths)
qed

lemma byte_at_enc: "length xs = p \<Longrightarrow> byte_at (xs @ b # ys) p = Inr (ucast b)"
  by (auto simp: byte_at_def)

lemma be16_at_enc: "length xs = p \<Longrightarrow> be16_at (xs @ enc16 w @ ys) p = Inr (ucast w)"
  using byte_at_enc [of xs p "ucast (drop_bit 8 w)" "ucast w # ys"] byte_at_enc [of "xs @ [ucast (drop_bit 8 w)]" "p + 1" "ucast w" ys]
  by (simp add: be16_at_def enc16_def split16)

lemma be32_at_enc: "length xs = p \<Longrightarrow> be32_at (xs @ enc32 w @ ys) p = Inr w"
  using be16_at_enc [of xs p "ucast (drop_bit 16 w)" "enc16 (ucast w) @ ys"]
    be16_at_enc [of "xs @ enc16 (ucast (drop_bit 16 w))" "p + 2" "ucast w" ys]
  by (simp add: be32_at_def enc32_def split32)

lemma le16_at_enc: "length xs = p \<Longrightarrow> le16_at (xs @ enc_le16 w @ ys) p = Inr (ucast w)"
  using byte_at_enc [of xs p "ucast w" "ucast (drop_bit 8 w) # ys"] byte_at_enc [of "xs @ [ucast w]" "p + 1" "ucast (drop_bit 8 w)" ys]
  by (simp add: le16_at_def enc_le16_def split16)

lemma le32_at_enc: "length xs = p \<Longrightarrow> le32_at (xs @ enc_le32 w @ ys) p = Inr w"
  using le16_at_enc [of xs p "ucast w" "enc_le16 (ucast (drop_bit 16 w)) @ ys"]
    le16_at_enc [of "xs @ enc_le16 (ucast w)" "p + 2" "ucast (drop_bit 16 w)" ys]
  by (simp add: le32_at_def enc_le32_def split32)

lemma le64_at_enc: "length xs = p \<Longrightarrow> le64_at (xs @ enc_le64 h l @ ys) p = Inr (4294967296 * unat h + unat l)"
  using le32_at_enc [of xs p l "enc_le32 h @ ys"] le32_at_enc [of "xs @ enc_le32 l" "p + 4" h ys]
  by (simp add: le64_at_def enc_le64_def)

section \<open>Frames\<close>

text \<open>A frame as the network sends it: addresses, VLAN tags, an Ethernet type and an IPv4 packet.\<close>

record frame =
  fr_macs :: bytes
  fr_tags :: "(16 word \<times> bytes) list"
  fr_vhl :: "8 word"
  fr_tos :: "8 word"
  fr_len :: "16 word"
  fr_mid :: bytes
  fr_proto :: "8 word"
  fr_sum :: bytes
  fr_src :: u32
  fr_dst :: u32
  fr_opts :: bytes
  fr_sport :: "16 word"
  fr_dport :: "16 word"
  fr_rest :: bytes

definition enc_tags :: "(16 word \<times> bytes) list \<Rightarrow> bytes" where
  "enc_tags tags = concat (map (\<lambda>(t, b). enc16 t @ b) tags)"

definition enc_ip :: "frame \<Rightarrow> bytes" where
  "enc_ip f = [fr_vhl f, fr_tos f] @ enc16 (fr_len f) @ fr_mid f @ [fr_proto f] @ fr_sum f @ enc32 (fr_src f) @ enc32 (fr_dst f) @
     fr_opts f @ enc16 (fr_sport f) @ enc16 (fr_dport f) @ fr_rest f"

definition enc_frame :: "frame \<Rightarrow> bytes" where
  "enc_frame f = fr_macs f @ enc_tags (fr_tags f) @ enc16 0x0800 @ enc_ip f"

definition wf_tags :: "(16 word \<times> bytes) list \<Rightarrow> bool" where
  "wf_tags tags \<longleftrightarrow> list_all (\<lambda>(t, b). (t = 0x8100 \<or> t = 0x88A8) \<and> length b = 2) tags"

definition wf_frame :: "frame \<Rightarrow> bool" where
  "wf_frame f \<longleftrightarrow> length (fr_macs f) = 12 \<and> wf_tags (fr_tags f) \<and> length (fr_tags f) \<le> 2 \<and> length (fr_mid f) = 5 \<and>
     length (fr_sum f) = 2 \<and> unat (ucast (fr_vhl f) AND 15 :: u32) * 4 = 20 + length (fr_opts f)"

text \<open>What the parser makes of a frame: ports for TCP and UDP, none for ICMP, nothing otherwise.\<close>

definition frame_features :: "frame \<Rightarrow> features list" where
  "frame_features f = (let proto = ucast (fr_proto f) :: u32;
       ports = (if proto = 1 then [] else [(''SPort'', ucast (fr_sport f)), (''DPort'', ucast (fr_dport f))]) in
     if proto = 6 \<or> proto = 17 \<or> proto = 1 then
       [[(''SIP'', fr_src f), (''DIP'', fr_dst f)] @ ports @ [(''Length'', ucast (fr_len f)), (''Protocol'', proto)]]
     else [])"

definition first_type :: "(16 word \<times> bytes) list \<Rightarrow> 16 word" where
  "first_type tags = (case tags of [] \<Rightarrow> 0x0800 | (t, b) # _ \<Rightarrow> t)"

lemma first_type_at: "length xs = p \<Longrightarrow> be16_at (xs @ enc_tags tags @ enc16 0x0800 @ ys) p = Inr (ucast (first_type tags))"
proof (cases tags)
  case Nil
  then show "length xs = p \<Longrightarrow> ?thesis" using be16_at_enc [of xs p "0x0800" ys] by (simp add: enc_tags_def first_type_def)
next
  case (Cons e tags')
  obtain t b where e: "e = (t, b)" by (cases e)
  show "length xs = p \<Longrightarrow> ?thesis"
    using be16_at_enc [of xs p t "b @ enc_tags tags' @ enc16 0x0800 @ ys"] by (simp add: Cons e enc_tags_def first_type_def)
qed

lemma vlan_loop_tags:
  assumes "length tags \<le> n" "wf_tags tags" "length xs + 2 = eth + l3"
  shows "vlan_loop n (xs @ enc_tags tags @ enc16 0x0800 @ ys) eth (ucast (first_type tags)) l3 = Inr (0x0800, l3 + 4 * length tags)"
  using assms
proof (induction tags arbitrary: n xs l3)
  case Nil
  then show ?case by (cases n) (simp_all add: first_type_def)
next
  case (Cons e tags)
  obtain t b where e: "e = (t, b)" by (cases e)
  obtain m where n: "n = Suc m" using Cons.prems(1) by (cases n) auto
  let ?xs = "xs @ enc16 t @ b"
  have t: "t = 0x8100 \<or> t = 0x88A8" "length b = 2" "wf_tags tags" using Cons.prems(2) by (auto simp: wf_tags_def e)
  have mem: "xs @ enc_tags (e # tags) @ enc16 0x0800 @ ys = ?xs @ enc_tags tags @ enc16 0x0800 @ ys"
    by (simp add: enc_tags_def e)
  have len: "length ?xs + 2 = eth + (l3 + 4)" "length ?xs = eth + (l3 + 4) - 2" using Cons.prems(3) t(2) by simp_all
  have "first_type (e # tags) = t" by (simp add: first_type_def e)
  moreover have "\<not> (ucast t \<noteq> (0x8100 :: u32) \<and> ucast t \<noteq> (0x88A8 :: u32))" using t(1) by auto
  moreover have "be16_at (?xs @ enc_tags tags @ enc16 0x0800 @ ys) (eth + (l3 + 4) - 2) = Inr (ucast (first_type tags))"
    by (rule first_type_at [OF len(2)])
  moreover have "vlan_loop m (?xs @ enc_tags tags @ enc16 0x0800 @ ys) eth (ucast (first_type tags)) (l3 + 4) =
      Inr (0x0800, l3 + 4 + 4 * length tags)"
    using Cons.prems(1) n t(3) len(1) by (intro Cons.IH) simp_all
  ultimately show ?case unfolding mem n by (simp add: Let_def)
qed

lemma ethtype_frame:
  assumes "wf_frame f" "length pre = body"
  shows "parse_ethtype_vlan (pre @ enc_frame f @ post) body = Inr (0, 0x0800, 14 + 4 * length (fr_tags f))"
proof -
  have w: "length (fr_macs f) = 12" "wf_tags (fr_tags f)" "length (fr_tags f) \<le> 2" using assms(1) by (auto simp: wf_frame_def)
  let ?xs = "pre @ fr_macs f" and ?ys = "enc_ip f @ post"
  have mem: "pre @ enc_frame f @ post = ?xs @ enc_tags (fr_tags f) @ enc16 0x0800 @ ?ys" by (simp add: enc_frame_def)
  have len: "length ?xs = body + 12" "length ?xs + 2 = body + 14" using assms(2) w(1) by simp_all
  have "first_type (fr_tags f) \<in> {0x0800, 0x8100, 0x88A8}"
    using w(2) by (cases "fr_tags f") (auto simp: first_type_def wf_tags_def)
  then have "\<not> ucast (first_type (fr_tags f)) < (0x0600 :: u32)" by auto
  then show ?thesis unfolding mem
    using first_type_at [OF len(1), of "fr_tags f" ?ys] vlan_loop_tags [OF w(3,2) len(2), of ?ys]
    by (simp add: parse_ethtype_vlan_def)
qed

lemma ip_reads:
  assumes "wf_frame f" "length pre = ip"
  shows "be32_at (pre @ enc_ip f @ post) (ip + 12) = Inr (fr_src f)" "be32_at (pre @ enc_ip f @ post) (ip + 16) = Inr (fr_dst f)"
    "byte_at (pre @ enc_ip f @ post) (ip + 9) = Inr (ucast (fr_proto f))" "be16_at (pre @ enc_ip f @ post) (ip + 2) = Inr (ucast (fr_len f))"
    "byte_at (pre @ enc_ip f @ post) ip = Inr (ucast (fr_vhl f))"
    "be16_at (pre @ enc_ip f @ post) (ip + unat (ucast (fr_vhl f) AND 15 :: u32) * 4) = Inr (ucast (fr_sport f))"
    "be16_at (pre @ enc_ip f @ post) (ip + unat (ucast (fr_vhl f) AND 15 :: u32) * 4 + 2) = Inr (ucast (fr_dport f))"
proof -
  have w: "length (fr_mid f) = 5" "length (fr_sum f) = 2" "unat (ucast (fr_vhl f) AND 15 :: u32) * 4 = 20 + length (fr_opts f)"
    using assms(1) by (auto simp: wf_frame_def)
  let ?h = "pre @ [fr_vhl f, fr_tos f]" let ?m = "?h @ enc16 (fr_len f) @ fr_mid f" let ?s = "?m @ [fr_proto f] @ fr_sum f"
  let ?o = "?s @ enc32 (fr_src f) @ enc32 (fr_dst f) @ fr_opts f"
  show "be32_at (pre @ enc_ip f @ post) (ip + 12) = Inr (fr_src f)"
    using be32_at_enc [of ?s "ip + 12" "fr_src f"] assms(2) w by (simp add: enc_ip_def)
  show "be32_at (pre @ enc_ip f @ post) (ip + 16) = Inr (fr_dst f)"
    using be32_at_enc [of "?s @ enc32 (fr_src f)" "ip + 16" "fr_dst f"] assms(2) w by (simp add: enc_ip_def)
  show "byte_at (pre @ enc_ip f @ post) (ip + 9) = Inr (ucast (fr_proto f))"
    using byte_at_enc [of ?m "ip + 9" "fr_proto f"] assms(2) w by (simp add: enc_ip_def)
  show "be16_at (pre @ enc_ip f @ post) (ip + 2) = Inr (ucast (fr_len f))"
    using be16_at_enc [of ?h "ip + 2" "fr_len f"] assms(2) w by (simp add: enc_ip_def)
  show "byte_at (pre @ enc_ip f @ post) ip = Inr (ucast (fr_vhl f))"
    using byte_at_enc [of pre ip "fr_vhl f"] assms(2) by (simp add: enc_ip_def)
  show "be16_at (pre @ enc_ip f @ post) (ip + unat (ucast (fr_vhl f) AND 15 :: u32) * 4) = Inr (ucast (fr_sport f))"
    unfolding w(3) using be16_at_enc [of ?o "ip + (20 + length (fr_opts f))" "fr_sport f"] assms(2) w by (simp add: enc_ip_def)
  show "be16_at (pre @ enc_ip f @ post) (ip + unat (ucast (fr_vhl f) AND 15 :: u32) * 4 + 2) = Inr (ucast (fr_dport f))"
    unfolding w(3) using be16_at_enc [of "?o @ enc16 (fr_sport f)" "ip + (20 + length (fr_opts f)) + 2" "fr_dport f"] assms(2) w
    by (simp add: enc_ip_def)
qed

lemma parse_frame_at:
  assumes "wf_frame f" "length pre = body"
  shows "parse_snd_features (pre @ enc_frame f @ post) body packets = Inr (packets @ frame_features f)"
proof -
  let ?mem = "pre @ enc_frame f @ post" and ?ip = "body + (14 + 4 * length (fr_tags f))"
  let ?pre = "pre @ fr_macs f @ enc_tags (fr_tags f) @ enc16 0x0800"
  have "length (enc_tags tags) = 4 * length tags" if "wf_tags tags" for tags
    using that by (induction tags) (auto simp: enc_tags_def wf_tags_def)
  then have len: "length ?pre = ?ip" using assms by (simp add: wf_frame_def)
  have mem: "?mem = ?pre @ enc_ip f @ post" by (simp add: enc_frame_def)
  obtain mm ip where mm: "mm = ?mem" and ip: "ip = ?ip" by blast
  have eth: "parse_ethtype_vlan mm body = Inr (0, 0x0800, 14 + 4 * length (fr_tags f))" unfolding mm by (rule ethtype_frame [OF assms])
  have off: "body + (14 + 4 * length (fr_tags f)) = ip" by (simp add: ip)
  note reads = ip_reads [OF assms(1) len, of post, folded mem, folded mm ip]
  have "parse_snd_features mm body packets = Inr (packets @ frame_features f)"
    unfolding parse_snd_features_def eth bindE_simps prod.case off Let_def
    by (simp add: reads parse_ports_def frame_features_def Let_def del: add_2_eq_Suc add_2_eq_Suc')
  then show ?thesis by (simp only: mm)
qed

text \<open>A well-formed Ethernet II frame with up to two VLAN tags and any IPv4 options is parsed,
  wherever it lies in the buffer, into the features it was encoded from: addresses, total length and
  protocol, with the ports for TCP and UDP and without for ICMP; other protocols give no packet.\<close>

lemma parse_snd_features_roundtrip:
  assumes "wf_frame f" "length pre = body"
  shows "parse_snd_features (pre @ enc_frame f @ post) body packets = Inr (packets @ frame_features f)"
  by (rule parse_frame_at [OF assms])

definition demo_frame :: "8 word \<Rightarrow> frame" where
  "demo_frame proto = \<lparr>fr_macs = replicate 12 7, fr_tags = [(0x8100, [0, 5])], fr_vhl = 0x45, fr_tos = 0, fr_len = 40,
     fr_mid = [0, 0, 0, 0, 64], fr_proto = proto, fr_sum = [0, 0], fr_src = 0x0A000001, fr_dst = 0x0A000002, fr_opts = [],
     fr_sport = 1024, fr_dport = 443, fr_rest = []\<rparr>"

lemma parse_snd_features_roundtrip_example:
  "parse_snd_features ([1, 2] @ enc_frame (demo_frame 6) @ [9]) 2 [] =
     Inr [[(''SIP'', 0x0A000001), (''DIP'', 0x0A000002), (''SPort'', 1024), (''DPort'', 443), (''Length'', 40), (''Protocol'', 6)]]"
proof -
  have "wf_frame (demo_frame 6)" by code_simp
  moreover have "frame_features (demo_frame 6) =
      [[(''SIP'', 0x0A000001), (''DIP'', 0x0A000002), (''SPort'', 1024), (''DPort'', 443), (''Length'', 40), (''Protocol'', 6)]]"
    by code_simp
  ultimately show ?thesis using parse_snd_features_roundtrip [of "demo_frame 6" "[1, 2]" 2 "[9]" "[]"] by simp
qed

section \<open>Sequences of frames\<close>

text \<open>The packets of a ring buffer: every frame after its length.\<close>

definition enc_pkts :: "frame list \<Rightarrow> bytes" where
  "enc_pkts fs = concat (map (\<lambda>f. enc_le16 (of_nat (length (enc_frame f))) @ enc_frame f) fs)"

definition wf_packets :: "frame list \<Rightarrow> bool" where
  "wf_packets fs \<longleftrightarrow> list_all (\<lambda>f. wf_frame f \<and> length (enc_frame f) < 65536) fs"

lemma enc_pkts_simps [simp]:
  "enc_pkts [] = []" "enc_pkts (f # fs) = enc_le16 (of_nat (length (enc_frame f))) @ enc_frame f @ enc_pkts fs"
  by (simp_all add: enc_pkts_def)

lemma le16_at_end:
  assumes "length xs = p"
  shows "length post < 2 \<Longrightarrow> le16_at (xs @ post) p = Inl Undefined" "2 \<le> length post \<Longrightarrow> \<exists>z. le16_at (xs @ post) p = Inr z"
  using assms by (auto simp: le16_at_def byte_at_def)

lemma unat_len: "n < 65536 \<Longrightarrow> unat (ucast (of_nat n :: 16 word) :: u32) = n"
  by (simp only: unat_ucast_mod) (simp add: unat_of_nat)

text \<open>What the length field at the head of the remaining packets holds, when there is one.\<close>

definition next_len :: "frame list \<Rightarrow> bytes \<Rightarrow> u32 outcome \<Rightarrow> bool" where
  "next_len fs post r \<longleftrightarrow> (case fs of f # _ \<Rightarrow> r = Inr (ucast (of_nat (length (enc_frame f)) :: 16 word))
     | [] \<Rightarrow> if length post < 2 then r = Inl Undefined else \<exists>z. r = Inr z)"

lemma next_len_at: "length pre = p \<Longrightarrow> next_len fs post (le16_at (pre @ enc_pkts fs @ post) p)"
  by (cases fs) (auto simp: next_len_def le16_at_enc le16_at_end)

text \<open>A loop over the packets of a ring buffer, whatever it makes of a frame: it is given the number of packets left,
  a pointer to the length field of the next one and the length already read from there.\<close>

locale frame_reader =
  fixes parse :: "bytes \<Rightarrow> nat \<Rightarrow> 'a list \<Rightarrow> 'a list outcome"
    and reader :: "nat \<Rightarrow> bytes \<Rightarrow> nat \<Rightarrow> u32 \<Rightarrow> 'a list \<Rightarrow> 'a list outcome"
    and out :: "frame \<Rightarrow> 'a list"
  assumes parse_at: "wf_frame f \<Longrightarrow> length pre = body \<Longrightarrow> parse (pre @ enc_frame f @ post) body packets = Inr (packets @ out f)"
    and reader_0: "reader 0 mem data pkt_len packets = Inr packets"
    and reader_Suc: "reader (Suc n) mem data pkt_len packets = (let data = data + 2 in
      bindE (parse mem data packets) (\<lambda>packets. let data = data + unat pkt_len in
      bindE (le16_at mem data) (\<lambda>pkt_len. reader n mem data pkt_len packets)))"
begin

lemma reader_frames:
  assumes "wf_packets fs" "length pre = p" "n \<le> length fs" "fs \<noteq> [] \<Longrightarrow> len = ucast (of_nat (length (enc_frame (hd fs))) :: 16 word)"
  shows "reader n (pre @ enc_pkts fs @ post) p len packets =
      (if 0 < n \<and> n = length fs \<and> length post < 2 then Inl Undefined
       else Inr (packets @ concat (map out (take n fs))))"
  using assms
proof (induction n arbitrary: fs pre p len packets)
  case 0
  then show ?case by (simp add: reader_0)
next
  case (Suc n)
  obtain f fs' where fs: "fs = f # fs'" using Suc.prems(3) by (cases fs) auto
  let ?pre = "pre @ enc_le16 (of_nat (length (enc_frame f)))" and ?post = "enc_pkts fs' @ post"
  let ?p = "p + 2 + length (enc_frame f)"
  have wf: "wf_frame f" "length (enc_frame f) < 65536" "wf_packets fs'" using Suc.prems(1) by (simp_all add: wf_packets_def fs)
  have len: "unat len = length (enc_frame f)" using Suc.prems(4) unat_len [OF wf(2)] by (simp add: fs)
  define mem where "mem = pre @ enc_pkts fs @ post"
  have mem1: "mem = ?pre @ enc_frame f @ ?post" and mem2: "mem = (?pre @ enc_frame f) @ enc_pkts fs' @ post"
    by (simp_all add: mem_def fs)
  have parse_step: "parse mem (p + 2) packets = Inr (packets @ out f)"
    unfolding mem1 by (rule parse_at [OF wf(1)]) (simp add: Suc.prems(2))
  have pre2: "length (?pre @ enc_frame f) = ?p" using Suc.prems(2) by simp
  have head: "next_len fs' post (le16_at mem ?p)" unfolding mem2 by (rule next_len_at [OF pre2])
  have step: "reader (Suc n) mem p len packets =
      bindE (le16_at mem ?p) (\<lambda>len'. reader n mem ?p len' (packets @ out f))"
    by (simp add: reader_Suc Let_def parse_step len del: add_2_eq_Suc add_2_eq_Suc')
  show ?case
  proof (cases "fs' = [] \<and> length post < 2")
    case True
    then show ?thesis using head Suc.prems(3) unfolding mem_def [symmetric] step by (simp add: next_len_def fs)
  next
    case False
    then obtain len' where l: "le16_at mem ?p = Inr len'" "fs' \<noteq> [] \<Longrightarrow> len' = ucast (of_nat (length (enc_frame (hd fs'))) :: 16 word)"
      using head by (cases fs') (auto simp: next_len_def)
    have "reader n mem ?p len' (packets @ out f) = (if 0 < n \<and> n = length fs' \<and> length post < 2 then Inl Undefined
        else Inr ((packets @ out f) @ concat (map out (take n fs'))))"
      unfolding mem2 using Suc.prems(3) l(2) by (intro Suc.IH wf(3) pre2) (simp_all add: fs)
    then show ?thesis using False unfolding mem_def [symmetric] step l(1) by (auto simp: fs)
  qed
qed

text \<open>Reading the first length and then the packets.\<close>

lemma start_frames:
  assumes "wf_packets fs" "length pre = p" "n \<le> length fs"
  shows "bindE (le16_at (pre @ enc_pkts fs @ post) p) (\<lambda>len. reader n (pre @ enc_pkts fs @ post) p len packets) =
      (if n = length fs \<and> length post < 2 then Inl Undefined else Inr (packets @ concat (map out (take n fs))))"
proof -
  have head: "next_len fs post (le16_at (pre @ enc_pkts fs @ post) p)" by (rule next_len_at [OF assms(2)])
  show ?thesis
  proof (cases "fs = [] \<and> length post < 2")
    case True
    then show ?thesis using head assms(3) by (simp add: next_len_def)
  next
    case False
    then obtain len where l: "le16_at (pre @ enc_pkts fs @ post) p = Inr len"
        "fs \<noteq> [] \<Longrightarrow> len = ucast (of_nat (length (enc_frame (hd fs))) :: 16 word)"
      using head by (cases fs) (auto simp: next_len_def)
    show ?thesis using False by (auto simp: l(1) reader_frames [OF assms l(2)])
  qed
qed

end

interpretation packets: frame_reader parse_snd_features packet_loop frame_features
  by unfold_locales (simp_all add: parse_frame_at)

lemma parse_packets_frames:
  assumes "wf_packets fs" "length pre = p" "unat cnt \<le> length fs"
  shows "parse_packets (pre @ enc_pkts fs @ post) p cnt packets =
      (if unat cnt = length fs \<and> length post < 2 then Inl Undefined
       else Inr (packets @ concat (map frame_features (take (unat cnt) fs))))"
  unfolding parse_packets_def by (rule packets.start_frames [OF assms])

text \<open>\<open>parse_packets\<close> reads the length field after the last packet too: on a buffer that holds
  exactly the announced packets it gives their features when at least two more bytes follow, and reads
  outside the buffer when it ends with the last packet or one byte later.\<close>

lemma parse_packets_reads_past_the_end:
  assumes "wf_packets fs" "length pre = p" "unat cnt = length fs"
  shows "parse_packets (pre @ enc_pkts fs @ post) p cnt [] =
      (if length post < 2 then Inl Undefined else Inr (concat (map frame_features fs)))"
  using parse_packets_frames [OF assms(1,2), of cnt post "[]"] assms(3) by simp

lemma wf_demo_frames: "wf_packets [demo_frame 6, demo_frame 1]"
proof -
  have "wf_frame (demo_frame 6)" "wf_frame (demo_frame 1)" by code_simp+
  then show ?thesis by (simp add: wf_packets_def enc_frame_def enc_ip_def enc_tags_def demo_frame_def)
qed

lemma parse_packets_reads_past_the_end_example:
  "parse_packets (enc_pkts [demo_frame 6, demo_frame 1]) 0 2 [] = Inl Undefined"
proof -
  have "wf_packets [demo_frame 6, demo_frame 1]" by (rule wf_demo_frames)
  from parse_packets_reads_past_the_end [OF this, of "[]" 0 2 "[]"] show ?thesis
    by (simp del: enc_pkts_simps)
qed

section \<open>A whole buffer\<close>

text \<open>What a producer writes: the name of the network card, the time, nine counters, the packets.\<close>

record rb_data =
  rd_nic :: string
  rd_ts_high :: u32
  rd_ts_low :: u32
  rd_stats :: "u32 list"
  rd_frames :: "frame list"

definition enc_rb :: "rb_data \<Rightarrow> bytes" where
  "enc_rb r = enc_le16 (of_nat (length (rd_nic r))) @ map (\<lambda>c. of_nat (of_char c)) (rd_nic r) @
     enc_le64 (rd_ts_high r) (rd_ts_low r) @ concat (map enc_le32 (rd_stats r)) @ enc_pkts (rd_frames r)"

definition wf_rb :: "rb_data \<Rightarrow> bool" where
  "wf_rb r \<longleftrightarrow> length (rd_nic r) < 65536 \<and> length (rd_stats r) = 9 \<and> wf_packets (rd_frames r)"

definition rb_time :: "rb_data \<Rightarrow> nat" where
  "rb_time r = 4294967296 * unat (rd_ts_high r) + unat (rd_ts_low r)"

lemma read_stats:
  assumes "length is = length vs" "length pre = slot"
  shows "foldE (\<lambda>i (slot, stats). bindE (le32_at (pre @ concat (map enc_le32 vs) @ post) slot) (\<lambda>v. Inr (slot + 4, stats @ [v]))) is (slot, acc) =
    Inr (slot + 4 * length vs, acc @ vs)"
  using assms
proof (induction vs arbitrary: "is" pre slot acc)
  case (Cons v vs)
  obtain i is' where i: "is = i # is'" "length is' = length vs" using Cons.prems(1) by (cases "is") auto
  have "le32_at (pre @ concat (map enc_le32 (v # vs)) @ post) slot = Inr v"
    using le32_at_enc [OF Cons.prems(2)] by simp
  then show ?case using Cons.IH [OF i(2), of "pre @ enc_le32 v" "slot + 4" "acc @ [v]"] Cons.prems(2) by (simp add: i(1))
qed simp

lemma chars_back: "map (\<lambda>b. char_of (unat (b :: 8 word))) (map (\<lambda>c. of_nat (of_char c)) s) = s"
proof -
  have "char_of (unat (of_nat (of_char c) :: 8 word)) = c" for c
    by (simp add: unat_of_nat of_char_mod_256)
  then show ?thesis by (simp add: comp_def)
qed

lemma parse_header_enc:
  assumes "wf_rb r"
  shows "\<exists>h p. parse_header (enc_rb r @ post) = Inr h \<and> rb_nic_name h = rd_nic r \<and> rb_ts h = rb_time r \<and> rb_stats h = rd_stats r \<and>
    enc_rb r @ post = p @ enc_pkts (rd_frames r) @ post \<and> length p = rb_offset h"
proof -
  let ?n = "length (rd_nic r)" and ?name = "map (\<lambda>c. of_nat (of_char c)) (rd_nic r) :: bytes"
  let ?mem = "enc_rb r @ post" and ?len = "enc_le16 (of_nat ?n)" and ?ts = "enc_le64 (rd_ts_high r) (rd_ts_low r)"
  let ?pkts = "enc_pkts (rd_frames r) @ post" and ?st = "concat (map enc_le32 (rd_stats r))"
  have w: "?n < 65536" "length (rd_stats r) = 9" using assms by (simp_all add: wf_rb_def)
  have mem: "?mem = [] @ ?len @ (?name @ ?ts @ ?st @ ?pkts)" "?mem = (?len @ ?name) @ ?ts @ (?st @ ?pkts)"
    "?mem = (?len @ ?name @ ?ts) @ ?st @ ?pkts" by (simp_all add: enc_rb_def)
  have r1: "le16_at ?mem 0 = Inr (ucast (of_nat ?n :: 16 word))" unfolding mem(1) by (rule le16_at_enc) simp
  have r2: "le64_at ?mem (2 + ?n) = Inr (rb_time r)" unfolding mem(2) rb_time_def by (rule le64_at_enc) simp
  have r3: "foldE (\<lambda>i (slot, stats). bindE (le32_at ?mem slot) (\<lambda>v. Inr (slot + 4, stats @ [v]))) [0..<9] (2 + ?n + 8, []) =
      Inr (2 + ?n + 8 + 4 * 9, rd_stats r)"
    using read_stats [of "[0..<9]" "rd_stats r" "?len @ ?name @ ?ts" "2 + ?n + 8" ?pkts "[]"] w(2) unfolding mem(3) by simp
  have name: "take ?n (drop 2 ?mem) = ?name" "\<not> length ?mem < 2 + ?n" by (simp_all add: enc_rb_def)
  have st: "length (concat (map enc_le32 vs)) = 4 * length vs" for vs by (induction vs) simp_all
  have "parse_header ?mem = Inr \<lparr>rb_nic_name = rd_nic r, rb_ts = rb_time r, rb_stats = rd_stats r, rb_offset = 2 + ?n + 8 + 4 * 9\<rparr>"
    unfolding parse_header_def Let_def r1 bindE_simps unat_len [OF w(1)] name(1) chars_back r2 r3 using name(2) by simp
  moreover have "?mem = (?len @ ?name @ ?ts @ ?st) @ ?pkts" "length (?len @ ?name @ ?ts @ ?st) = 2 + ?n + 8 + 4 * 9"
    using w(2) by (simp_all add: enc_rb_def st)
  ultimately show ?thesis by auto
qed

text \<open>C9: from a well-formed ring buffer with at least as many packets as the first counter announces (or
  10000), followed by two more bytes, the task emits the features of the first packets, at most 10000,
  the name of the network card, the 64-bit time and the nine counters, each on its tag and in this
  order.\<close>

theorem RBDataParseTask_roundtrip:
  assumes "wf_rb r" "rd_stats r ! 0 \<noteq> 0" "min 10000 (unat (rd_stats r ! 0)) \<le> length (rd_frames r)" "2 \<le> length post"
    and "input_tag as_bytes (ctx_inputs ctx) ''RBData'' = Inr (Some (enc_rb r @ post))"
  shows "RBDataParseTask_Process () junk ctx = bindE (foldE (\<lambda>(tag, v). emit_tag junk tag 0 v)
      [(''ParsedPackets'', VPackets (concat (map frame_features (take (min 10000 (unat (rd_stats r ! 0))) (rd_frames r))))),
       (''NIC'', VString (rd_nic r)), (''Timestamp'', VU64 (rb_time r)), (''Statistic'', VIPs (rd_stats r))] ctx)
      (\<lambda>ctx. Inr (0, ctx))"
proof -
  obtain h p where h: "parse_header (enc_rb r @ post) = Inr h" "rb_nic_name h = rd_nic r" "rb_ts h = rb_time r" "rb_stats h = rd_stats r"
    "enc_rb r @ post = p @ enc_pkts (rd_frames r) @ post" "length p = rb_offset h"
    using parse_header_enc [OF assms(1)] by blast
  let ?c = "if 10000 < rd_stats r ! 0 then 10000 else rd_stats r ! 0"
  have cnt: "unat ?c = min 10000 (unat (rd_stats r ! 0))"
    by (simp add: word_less_nat_alt)
  have "parse_packets (enc_rb r @ post) (rb_offset h) ?c [] =
      Inr (concat (map frame_features (take (min 10000 (unat (rd_stats r ! 0))) (rd_frames r))))"
    unfolding h(5) using parse_packets_frames [OF _ h(6), of "rd_frames r" ?c post "[]"] assms(1,3,4) unfolding cnt wf_rb_def by simp
  then obtain cnt packets where c: "?c = cnt" "parse_packets (enc_rb r @ post) (rb_offset h) cnt [] = Inr packets"
      "concat (map frame_features (take (min 10000 (unat (rd_stats r ! 0))) (rd_frames r))) = packets" by simp
  show ?thesis unfolding c(3) RBDataParseTask_Process_def assms(5) bindE_simps option.case h(1-4) Let_def c(1,2)
    using assms(2) by (simp add: bindE_assoc)
qed

definition demo_rb :: rb_data where
  "demo_rb = \<lparr>rd_nic = ''eth0'', rd_ts_high = 1, rd_ts_low = 5, rd_stats = 2 # replicate 8 0, rd_frames = [demo_frame 6, demo_frame 1]\<rparr>"

definition rb_ctx :: "val input_stream collection \<Rightarrow> val task_context" where
  "rb_ctx ins = (demo_ctx ins)\<lparr>ctx_outputs :=
     \<lparr>c_tags = \<lparr>tm_data = map (\<lambda>(t, i). (t, \<lparr>td_base = i, td_count = 1\<rparr>))
          [(''NIC'', 0), (''ParsedPackets'', 1), (''Statistic'', 2), (''Timestamp'', 3)],
        tm_names = [''n'', ''p'', ''s'', ''t''], tm_total = 4\<rparr>,
      c_data = replicate 4 OutputStream0\<rparr>\<rparr>"

definition rb_input :: "bytes \<Rightarrow> val input_stream collection" where
  "rb_input b = demo_inputs [(''RBData'', \<lparr>td_base = 0, td_count = 1\<rparr>)] [VBytes b]"

lemma rb_ctx_input: "input_tag as_bytes (ctx_inputs (rb_ctx (rb_input b))) ''RBData'' = Inr (Some b)"
  by code_simp

lemma rb_ctx_outputs:
  "\<exists>x. foldE (\<lambda>(tag, v). emit_tag 1 tag 0 v) [(''ParsedPackets'', a), (''NIC'', b), (''Timestamp'', c), (''Statistic'', d)] (rb_ctx ins) = Inr x \<and>
     map (map d_val \<circ> os_queue) (c_data (ctx_outputs x)) = [[Some b], [Some a], [Some d], [Some c]]"
proof -
  define r where "r = foldE (\<lambda>(tag, v). emit_tag 1 tag 0 v) [(''ParsedPackets'', a), (''NIC'', b), (''Timestamp'', c), (''Statistic'', d)] (rb_ctx ins)"
  have "map (map d_val \<circ> os_queue) (c_data (ctx_outputs (projr r))) = [[Some b], [Some a], [Some d], [Some c]]" "\<not> isl r"
    unfolding r_def by code_simp+
  then show ?thesis unfolding r_def [symmetric] by (cases r) auto
qed

theorem RBDataParseTask_roundtrip_witness:
  "\<exists>ctx. RBDataParseTask_Process () 1 (rb_ctx (rb_input (enc_rb demo_rb @ [0, 0]))) = Inr (0, ctx) \<and>
    map (map d_val \<circ> os_queue) (c_data (ctx_outputs ctx)) =
      [[Some (VString ''eth0'')], [Some (VPackets (concat (map frame_features [demo_frame 6, demo_frame 1])))],
       [Some (VIPs (2 # replicate 8 0))], [Some (VU64 4294967301)]]"
proof -
  have "wf_rb demo_rb" using wf_demo_frames by (simp add: wf_rb_def demo_rb_def)
  moreover have "rd_stats demo_rb ! 0 \<noteq> 0" "min 10000 (unat (rd_stats demo_rb ! 0)) \<le> length (rd_frames demo_rb)" by (simp_all add: demo_rb_def)
  ultimately have "RBDataParseTask_Process () 1 (rb_ctx (rb_input (enc_rb demo_rb @ [0, 0]))) = bindE (foldE (\<lambda>(tag, v). emit_tag 1 tag 0 v)
      [(''ParsedPackets'', VPackets (concat (map frame_features [demo_frame 6, demo_frame 1]))),
       (''NIC'', VString ''eth0''), (''Timestamp'', VU64 4294967301), (''Statistic'', VIPs (2 # replicate 8 0))] (rb_ctx (rb_input (enc_rb demo_rb @ [0, 0])))) (\<lambda>ctx. Inr (0, ctx))"
    using RBDataParseTask_roundtrip [OF _ _ _ _ rb_ctx_input] by (simp add: demo_rb_def rb_time_def)
  moreover from rb_ctx_outputs [of "VPackets (concat (map frame_features [demo_frame 6, demo_frame 1]))" "VString ''eth0''"
      "VU64 4294967301" "VIPs (2 # replicate 8 0)"
      "rb_input (enc_rb demo_rb @ [0, 0])"] obtain x where "foldE (\<lambda>(tag, v). emit_tag 1 tag 0 v)
      [(''ParsedPackets'', VPackets (concat (map frame_features [demo_frame 6, demo_frame 1]))),
       (''NIC'', VString ''eth0''), (''Timestamp'', VU64 4294967301), (''Statistic'', VIPs (2 # replicate 8 0))]
       (rb_ctx (rb_input (enc_rb demo_rb @ [0, 0]))) = Inr x"
    "map (map d_val \<circ> os_queue) (c_data (ctx_outputs x)) =
      [[Some (VString ''eth0'')], [Some (VPackets (concat (map frame_features [demo_frame 6, demo_frame 1])))],
       [Some (VIPs (2 # replicate 8 0))], [Some (VU64 4294967301)]]" by (elim exE conjE) (rule that)
  ultimately show ?thesis by (intro exI [of _ x] conjI) (simp_all only: bindE_simps)
qed

end
