(* ===== verification/Sip_Dedup.thy ===== *)
theory Sip_Dedup
  imports Sip_Merge
begin

text \<open>
  Merging with removal of duplicates: \<open>dni/tasks/snding/sip_base_merge_dedup_task.cc\<close>. The packets are
  rows of six numbers; the grouping is that of \<open>Sip_Merge\<close>, the labels count keys instead of
  packets, and every packet of a labelled group is turned into a record of strings, kept once under
  the text of its fields. A row that is too short is read past its end. The counters are exact for
  fewer than \<open>2^31\<close> packets.
\<close>

section \<open>Options\<close>

record dedup_options =
  dd_stat :: sip_options
  dd_keyLenThresh :: int

definition SndSIPBaseMergeDeDupTask_Open :: "dedup_options \<Rightarrow> int" where
  "SndSIPBaseMergeDeDupTask_Open opts =
     (if length (sp_num_label (dd_stat opts)) \<noteq> 4 then - 1
      else if length (sp_proto_label (dd_stat opts)) \<noteq> 3 then - 1 else 0)"

section \<open>Grouping rows\<close>

text \<open>\<open>0:SIP, 1:SPort, 2:DPort, 3:Protocol, 4:Length, 5:DIP\<close>.\<close>

definition row_packet :: "u32 list \<Rightarrow> packet" where
  "row_packet row = [(''SIP'', row ! 0), (''SPort'', row ! 1), (''DPort'', row ! 2), (''Protocol'', row ! 3),
     (''Length'', row ! 4), (''DIP'', row ! 5)]"

text \<open>\<open>packets->at(index)\<close>, whose entries 1 to 5 are then read.\<close>

definition packet_at :: "u32 list list \<Rightarrow> nat \<Rightarrow> packet outcome" where
  "packet_at rows i = (if length rows \<le> i then Inl Out_of_range
     else if length (rows ! i) < 6 then Inl Undefined else Inr (row_packet (rows ! i)))"

definition push_position :: "nat \<Rightarrow> nat list option \<Rightarrow> nat list" where
  "push_position index v = (case v of None \<Rightarrow> [] | Some positions \<Rightarrow> positions) @ [index]"

type_synonym merge_state = "(string \<times> sip_merge_result) list \<times> (u32 \<times> nat list) list \<times> nat"

definition dedup_step ::
  "cidr list \<Rightarrow> u32 list \<Rightarrow> merge_state \<times> (string \<times> nat list) list \<Rightarrow> (merge_state \<times> (string \<times> nat list) list) outcome" where
  "dedup_step ips row = (\<lambda>(m, cidr_include_positions).
     let p = row_packet row; index = snd (snd m) in
     if row = [] then Inl Undefined
     else case group_of ips p of
         None \<Rightarrow> Inr (merge_step ips p m, um_update ''RANDOM'' (push_position index) cidr_include_positions)
       | Some k \<Rightarrow> if length row < 6 then Inl Undefined
           else Inr (merge_step ips p m, um_update k (push_position index) cidr_include_positions))"

definition dedup_random ::
  "u32 list list \<Rightarrow> (u32 \<times> nat list) list \<Rightarrow> u32 list \<Rightarrow> (string \<times> sip_merge_result) list \<Rightarrow> (string \<times> sip_merge_result) list outcome" where
  "dedup_random rows ip_positions randomIPs all_merge_ret =
     bindE (foldE (\<lambda>random_ip. foldE (\<lambda>index r. bindE (packet_at rows index) (\<lambda>p. Inr (add_packet p r)))
         (case map_of ip_positions random_ip of None \<Rightarrow> [] | Some ps \<Rightarrow> ps)) randomIPs (or_fresh (map_of all_merge_ret ''RANDOM'')))
       (\<lambda>randomMerge. Inr (um_insert ''RANDOM'' randomMerge all_merge_ret))"

definition dedup_merge ::
  "u32 list list \<Rightarrow> attacker_result \<Rightarrow> ((string \<times> sip_merge_result) list \<times> (string \<times> nat list) list) outcome" where
  "dedup_merge rows a =
     bindE (foldE (dedup_step (ar_attackerIPs a)) rows (([], [], 0), [])) (\<lambda>((all_merge_ret, ip_positions, index), cidr_include_positions).
       if ar_containRandomAttack a
       then bindE (dedup_random rows ip_positions (ar_randomIPs a) all_merge_ret) (\<lambda>all_merge_ret. Inr (all_merge_ret, cidr_include_positions))
       else Inr (all_merge_ret, cidr_include_positions))"

section \<open>Labels\<close>

text \<open>\<open>numKeyLen < num_keyLenThresh\<close> compares without sign: a negative threshold is a huge one.\<close>

definition dedup_number_stat_type :: "u32 list \<Rightarrow> double \<Rightarrow> double \<Rightarrow> int \<Rightarrow> string list \<Rightarrow> string outcome" where
  "dedup_number_stat_type uset num_ratioMin num_ratioMax num_keyLenThresh num_stat_type =
     (let numKeyLen = int (length uset);
          keySeriesDiffTypeNum = double_of_int (int (length (insert_diffs (sort uset) [])));
          mi = dmul (double_of_int numKeyLen) num_ratioMin; ma = dmul (double_of_int numKeyLen) num_ratioMax
      in if numKeyLen < num_keyLenThresh mod 2 ^ 64 then label_at num_stat_type 0
         else if dge mi keySeriesDiffTypeNum then label_at num_stat_type 1
         else if dge keySeriesDiffTypeNum ma then label_at num_stat_type 2
         else label_at num_stat_type 3)"

definition dedup_make_stat :: "dedup_options \<Rightarrow> string \<Rightarrow> (string \<times> cidr) list \<Rightarrow> string \<times> sip_merge_result \<Rightarrow> sip_stats outcome" where
  "dedup_make_stat opts host_nic_name conv = (\<lambda>(k, r).
     let sp = dd_stat opts; ty = (\<lambda>vals. dedup_number_stat_type vals (sp_num_ratioMin sp) (sp_num_ratioMax sp) (dd_keyLenThresh opts) (sp_num_label sp)) in
     bindE (ty (mr_sport r)) (\<lambda>sport_ty. bindE (ty (mr_dport r)) (\<lambda>dport_ty. bindE (ty (mr_length r)) (\<lambda>length_ty.
     bindE (number_stat sp sport_ty (mr_sport r)) (\<lambda>sport. bindE (number_stat sp dport_ty (mr_dport r)) (\<lambda>dport.
     bindE (number_stat sp length_ty (mr_length r)) (\<lambda>len.
     bindE (calc_proto_stat_type (mr_protocol r) (mr_packet_total r) (sp_proto_ratioMin sp) (sp_proto_ratioMax sp) (sp_proto_label sp)) (\<lambda>prot.
       Inr \<lparr>st_hostNicSign = host_nic_name, st_isSrcIPRandom = (k = ''RANDOM''),
         st_srcIP = (if k = ''RANDOM'' then CIDR 0 32 else case map_of conv k of None \<Rightarrow> CIDR 0 32 | Some c \<Rightarrow> c),
         st_dstIP = \<lparr>ns_stat_type = [], ns_value = mr_dstIP r\<rparr>, st_srcPort = sport, st_dstPort = dport,
         st_length = len, st_protocol = prot\<rparr>))))))))"

section \<open>Records\<close>

text \<open>A field of a rule: the value of the packet where the column is \<open>"centralize"\<close>, else its label.\<close>

definition field_text :: "number_stats \<Rightarrow> u32 \<Rightarrow> string" where
  "field_text s v = (if ns_stat_type s = ''centralize'' then to_string (int (unat v)) else ns_stat_type s)"

definition rule_elements :: "string \<Rightarrow> sip_stats \<Rightarrow> packet \<Rightarrow> string" where
  "rule_elements k stat p = k @ ''--'' @ to_string (int (unat (fld p ''DIP''))) @ ''--'' @
     field_text (st_srcPort stat) (fld p ''SPort'') @ ''--'' @ field_text (st_dstPort stat) (fld p ''DPort'') @ ''--'' @
     to_string (int (unat (fld p ''Protocol''))) @ ''--'' @ field_text (st_length stat) (fld p ''Length'')"

definition rule_stat :: "string \<Rightarrow> sip_stats \<Rightarrow> packet \<Rightarrow> (string \<times> string) list" where
  "rule_stat k stat p = [(''SIP'', k), (''DIP'', to_string (int (unat (fld p ''DIP'')))),
     (''SPort'', field_text (st_srcPort stat) (fld p ''SPort'')), (''DPort'', field_text (st_dstPort stat) (fld p ''DPort'')),
     (''Protocol'', to_string (int (unat (fld p ''Protocol'')))), (''hostNicSign'', st_hostNicSign stat),
     (''Length'', field_text (st_length stat) (fld p ''Length''))]"

type_synonym str_records = "(string \<times> (string \<times> string) list) list"

definition dedup_rules :: "u32 list list \<Rightarrow> (string \<times> nat list) list \<Rightarrow> (string \<times> sip_stats) list \<Rightarrow> str_records outcome" where
  "dedup_rules rows cidr_include_positions all_stat =
     foldE (\<lambda>(k, stat). foldE (\<lambda>index rules. bindE (packet_at rows index) (\<lambda>p.
         Inr (um_insert (rule_elements k stat p) (rule_stat k stat p) rules)))
       (case map_of cidr_include_positions k of None \<Rightarrow> [] | Some positions \<Rightarrow> positions)) all_stat []"

text \<open>What the task computes from its inputs, before it emits.\<close>

definition dedup_results ::
  "dedup_options \<Rightarrow> u32 list list \<Rightarrow> attacker_result \<Rightarrow> string \<Rightarrow> ((string \<times> sip_stats) list \<times> str_records) outcome" where
  "dedup_results opts rows a host_nic_name =
     bindE (dedup_merge rows a) (\<lambda>(all_merge_ret, cidr_include_positions).
     bindE (foldE (\<lambda>e all_stat. bindE (dedup_make_stat opts host_nic_name (convert_map (ar_attackerIPs a)) e)
         (\<lambda>stat. Inr (um_insert (fst e) stat all_stat))) all_merge_ret []) (\<lambda>all_stat.
     bindE (dedup_rules rows cidr_include_positions all_stat) (\<lambda>rules. Inr (all_stat, rules))))"

definition SndSIPBaseMergeDeDupTask_Process :: "dedup_options \<Rightarrow> int \<Rightarrow> val task_context \<Rightarrow> (int \<times> val task_context) outcome" where
  "SndSIPBaseMergeDeDupTask_Process opts junk ctx = bindE
     (need (input_tag as_rows (ctx_inputs ctx) ''PACKET'') (\<lambda>packets.
      need (input_tag as_attackers (ctx_inputs ctx) ''SIP'') (\<lambda>attacker_ip_merge.
      need (input_tag as_string (ctx_inputs ctx) ''NIC'') (\<lambda>host_nic_name.
        bindE (dedup_results opts packets attacker_ip_merge host_nic_name) (\<lambda>r. Inr (Some r))))))
     (\<lambda>x. case x of
         None \<Rightarrow> Inr (- 1, ctx)
       | Some (all_stat, rules) \<Rightarrow> bindE (emit_tag junk ''CIDR'' 0 (VStats all_stat) ctx) (\<lambda>ctx.
           bindE (emit_tag junk ''CIDR'' 1 (VRecords rules) ctx) (\<lambda>ctx. Inr (0, ctx))))"

section \<open>The grouping is that of the other task\<close>

definition rows_ok :: "u32 list list \<Rightarrow> bool" where
  "rows_ok rows \<longleftrightarrow> list_all (\<lambda>row. 6 \<le> length row) rows"

text \<open>The group whose records a packet is turned into: that of its block, else \<open>RANDOM\<close>.\<close>

definition dedup_group :: "cidr list \<Rightarrow> packet \<Rightarrow> string" where
  "dedup_group ips p = (case group_of ips p of None \<Rightarrow> ''RANDOM'' | Some k \<Rightarrow> k)"

definition looked_up :: "(string \<times> nat list) list \<Rightarrow> string \<Rightarrow> nat list" where
  "looked_up m k = (case map_of m k of None \<Rightarrow> [] | Some positions \<Rightarrow> positions)"

lemma looked_up_push: "looked_up (um_update k (push_position i) m) k' = (if k' = k then looked_up m k @ [i] else looked_up m k')"
  by (simp add: looked_up_def push_position_def um_lookup_update)

lemma packet_at_ok: "rows_ok rows \<Longrightarrow> i < length rows \<Longrightarrow> packet_at rows i = Inr (map row_packet rows ! i)"
  by (simp add: packet_at_def rows_ok_def list_all_length not_less)

lemma dedup_steps:
  assumes "rows_ok rows"
  shows "\<exists>incl. foldE (dedup_step ips) rows (([], [], 0), []) = Inr (fold (merge_step ips) (map row_packet rows) ([], [], 0), incl) \<and>
    (\<forall>k. looked_up incl k = filter (\<lambda>i. dedup_group ips (map row_packet rows ! i) = k) [0..<length rows])"
  using assms
proof (induction rows rule: rev_induct)
  case Nil
  then show ?case by (simp add: looked_up_def)
next
  case (snoc row rows)
  let ?ps = "map row_packet rows" and ?p = "row_packet row"
  have ok: "rows_ok rows" "6 \<le> length row" using snoc.prems by (simp_all add: rows_ok_def)
  obtain incl where incl: "foldE (dedup_step ips) rows (([], [], 0), []) = Inr (fold (merge_step ips) ?ps ([], [], 0), incl)"
    "\<forall>k. looked_up incl k = filter (\<lambda>i. dedup_group ips (?ps ! i) = k) [0..<length rows]"
    using snoc.IH [OF ok(1)] by blast
  obtain all pos where m: "fold (merge_step ips) ?ps ([], [], 0) = (all, pos, length rows)"
    using merge_positions [of ips ?ps] by auto
  let ?incl = "um_update (dedup_group ips ?p) (push_position (length rows)) incl"
  have "row \<noteq> []" "\<not> length row < 6" using ok(2) by auto
  then have "dedup_step ips row (fold (merge_step ips) ?ps ([], [], 0), incl) = Inr (merge_step ips ?p (fold (merge_step ips) ?ps ([], [], 0)), ?incl)"
    unfolding m dedup_step_def by (simp add: dedup_group_def Let_def split: option.split)
  then have run: "foldE (dedup_step ips) (rows @ [row]) (([], [], 0), []) =
      Inr (fold (merge_step ips) (map row_packet (rows @ [row])) ([], [], 0), ?incl)"
    by (simp add: foldE_append incl(1))
  have pre: "filter (\<lambda>i. dedup_group ips (map row_packet (rows @ [row]) ! i) = k) [0..<length rows] =
      filter (\<lambda>i. dedup_group ips (?ps ! i) = k) [0..<length rows]" for k
    by (intro filter_cong) (auto simp: nth_append)
  have "looked_up ?incl k = filter (\<lambda>i. dedup_group ips (map row_packet (rows @ [row]) ! i) = k) [0..<length (rows @ [row])]" for k
    using pre [of k] incl(2) by (auto simp: looked_up_push nth_append)
  then show ?case using run by blast
qed

lemma foldE_good:
  assumes "\<And>x s. x \<in> set xs \<Longrightarrow> f x s = Inr (g x s)"
  shows "foldE f xs s = Inr (fold g xs s)"
  using assms by (induction xs arbitrary: s) simp_all

lemma dedup_random_ok:
  assumes "rows_ok rows" "\<And>ip i. i \<in> set (case map_of pos ip of None \<Rightarrow> [] | Some is \<Rightarrow> is) \<Longrightarrow> i < length rows"
  shows "dedup_random rows pos ips all = Inr (merge_random (map row_packet rows) pos ips all)"
proof -
  let ?pos = "\<lambda>ip. case map_of pos ip of None \<Rightarrow> [] | Some is \<Rightarrow> is"
  have inner: "foldE (\<lambda>i r. bindE (packet_at rows i) (\<lambda>p. Inr (add_packet p r))) (?pos ip) r =
      Inr (fold (\<lambda>i. add_packet (map row_packet rows ! i)) (?pos ip) r)" for ip r
    by (rule foldE_good) (use packet_at_ok [OF assms(1)] assms(2) in simp)
  have upd: "um_update k (\<lambda>v. f v) m = um_insert k (f (map_of m k)) m" for k f and m :: "(string \<times> sip_merge_result) list"
    by (induction m) auto
  show ?thesis
    unfolding dedup_random_def merge_random_def inner foldE_Inr bindE_simps by (subst upd) simp
qed

lemma dedup_merge_ok:
  assumes "rows_ok rows"
  shows "\<exists>incl. dedup_merge rows a = Inr (merge_packets (map row_packet rows) a, incl) \<and>
    (\<forall>k. looked_up incl k = filter (\<lambda>i. dedup_group (ar_attackerIPs a) (map row_packet rows ! i) = k) [0..<length rows])"
proof -
  let ?ps = "map row_packet rows" and ?ips = "ar_attackerIPs a"
  obtain incl where incl: "foldE (dedup_step ?ips) rows (([], [], 0), []) = Inr (fold (merge_step ?ips) ?ps ([], [], 0), incl)"
    "\<forall>k. looked_up incl k = filter (\<lambda>i. dedup_group ?ips (?ps ! i) = k) [0..<length rows]"
    using dedup_steps [OF assms] by blast
  obtain all pos where m: "fold (merge_step ?ips) ?ps ([], [], 0) = (all, pos, length ?ps)"
    "\<forall>ip. (case map_of pos ip of None \<Rightarrow> [] | Some is \<Rightarrow> is) = filter (\<lambda>i. fld (?ps ! i) ''SIP'' = ip) [0..<length ?ps]"
    using merge_positions by blast
  have bound: "\<And>ip i. i \<in> set (case map_of pos ip of None \<Rightarrow> [] | Some is \<Rightarrow> is) \<Longrightarrow> i < length rows"
    unfolding spec [OF m(2)] by simp
  have rand: "dedup_random rows pos (ar_randomIPs a) all = Inr (merge_random ?ps pos (ar_randomIPs a) all)"
    by (rule dedup_random_ok [OF assms]) (erule bound)
  have "dedup_merge rows a = Inr (merge_packets ?ps a, incl)"
    by (simp add: dedup_merge_def incl(1) m(1) rand merge_packets_def)
  then show ?thesis using incl(2) by blast
qed

section \<open>Labelling a group\<close>

text \<open>The class of a column from its number of keys and of different gaps.\<close>

definition dedup_class :: "dedup_options \<Rightarrow> nat \<Rightarrow> nat \<Rightarrow> nat" where
  "dedup_class opts n g = (let d = double_of_int (int n); sp = dd_stat opts in
     if int n < dd_keyLenThresh opts mod 2 ^ 64 then 0
     else if dge (dmul d (sp_num_ratioMin sp)) (double_of_int (int g)) then 1
     else if dge (double_of_int (int g)) (dmul d (sp_num_ratioMax sp)) then 2 else 3)"

definition dedup_labelled :: "dedup_options \<Rightarrow> packet list \<Rightarrow> string \<Rightarrow> number_stats \<Rightarrow> bool" where
  "dedup_labelled opts qs f s \<longleftrightarrow> (let K = column f qs; labels = sp_num_label (dd_stat opts) in
     ns_stat_type s = labels ! dedup_class opts (card K) (card (gaps K)) \<and>
     set (ns_value s) = (if ns_stat_type s = labels ! 0 then K else {}))"

definition dedup_stat_ok :: "dedup_options \<Rightarrow> string \<Rightarrow> string \<Rightarrow> packet list \<Rightarrow> sip_stats \<Rightarrow> bool" where
  "dedup_stat_ok opts nic k qs st \<longleftrightarrow> st_hostNicSign st = nic \<and> (st_isSrcIPRandom st \<longleftrightarrow> k = ''RANDOM'') \<and>
     (k \<noteq> ''RANDOM'' \<longrightarrow> cidr_string (st_srcIP st) = k) \<and>
     set (ns_value (st_dstIP st)) = column ''DIP'' qs \<and> dedup_labelled opts qs ''SPort'' (st_srcPort st) \<and>
     dedup_labelled opts qs ''DPort'' (st_dstPort st) \<and> dedup_labelled opts qs ''Length'' (st_length st) \<and>
     set (st_protocol st) = {(q, proto_label (dd_stat opts) (int (length qs)) (int (protocol_count qs q))) |q. protocol_count qs q \<noteq> 0}"

lemma dedup_number_labelled:
  assumes "holds_column vals f qs" "length (sp_num_label (dd_stat opts)) = 4"
  shows "\<exists>ty s. dedup_number_stat_type vals (sp_num_ratioMin (dd_stat opts)) (sp_num_ratioMax (dd_stat opts)) (dd_keyLenThresh opts)
      (sp_num_label (dd_stat opts)) = Inr ty \<and> number_stat (dd_stat opts) ty vals = Inr s \<and> dedup_labelled opts qs f s"
proof -
  have v: "distinct vals" "set vals = column f qs" using assms(1) by (simp_all add: holds_column_def)
  have "dedup_number_stat_type vals (sp_num_ratioMin (dd_stat opts)) (sp_num_ratioMax (dd_stat opts)) (dd_keyLenThresh opts)
      (sp_num_label (dd_stat opts)) = Inr (sp_num_label (dd_stat opts) ! dedup_class opts (card (set vals)) (card (gaps (set vals))))"
    using v(1) assms(2)
    by (simp add: dedup_number_stat_type_def dedup_class_def Let_def label_at_def insert_diffs_count distinct_card)
  then show ?thesis using v(2) assms(2) by (simp add: number_stat_def label_at_def dedup_labelled_def Let_def)
qed

lemma dedup_make_stat_ok:
  assumes "summarises r qs" "SndSIPBaseMergeDeDupTask_Open opts = 0"
    and "k \<noteq> ''RANDOM'' \<Longrightarrow> \<exists>c. map_of conv k = Some c \<and> cidr_string c = k"
  shows "\<exists>st. dedup_make_stat opts nic conv (k, r) = Inr st \<and> dedup_stat_ok opts nic k qs st"
proof -
  have len: "length (sp_num_label (dd_stat opts)) = 4" "length (sp_proto_label (dd_stat opts)) = 3"
    using assms(2) by (auto simp: SndSIPBaseMergeDeDupTask_Open_def split: if_splits)
  note cols = assms(1) [unfolded summarises_def]
  obtain t1 s1 where s1: "dedup_number_stat_type (mr_sport r) (sp_num_ratioMin (dd_stat opts)) (sp_num_ratioMax (dd_stat opts))
      (dd_keyLenThresh opts) (sp_num_label (dd_stat opts)) = Inr t1"
    "number_stat (dd_stat opts) t1 (mr_sport r) = Inr s1" "dedup_labelled opts qs ''SPort'' s1"
    using dedup_number_labelled [OF _ len(1)] cols by blast
  obtain t2 s2 where s2: "dedup_number_stat_type (mr_dport r) (sp_num_ratioMin (dd_stat opts)) (sp_num_ratioMax (dd_stat opts))
      (dd_keyLenThresh opts) (sp_num_label (dd_stat opts)) = Inr t2"
    "number_stat (dd_stat opts) t2 (mr_dport r) = Inr s2" "dedup_labelled opts qs ''DPort'' s2"
    using dedup_number_labelled [OF _ len(1)] cols by blast
  obtain t3 s3 where s3: "dedup_number_stat_type (mr_length r) (sp_num_ratioMin (dd_stat opts)) (sp_num_ratioMax (dd_stat opts))
      (dd_keyLenThresh opts) (sp_num_label (dd_stat opts)) = Inr t3"
    "number_stat (dd_stat opts) t3 (mr_length r) = Inr s3" "dedup_labelled opts qs ''Length'' s3"
    using dedup_number_labelled [OF _ len(1)] cols by blast
  have prot: "set (map (\<lambda>(q, c). (q, proto_label (dd_stat opts) (int (length qs)) c)) (mr_protocol r)) =
      {(q, proto_label (dd_stat opts) (int (length qs)) (int (protocol_count qs q))) |q. protocol_count qs q \<noteq> 0}"
    by (rule summarised_protocols [OF assms(1)])
  have inv: "um_invar (mr_protocol r)" using cols by blast
  show ?thesis using cols s1 s2 s3 calc_proto_label [OF inv len(2)] prot assms(3)
    by (auto simp: dedup_make_stat_def Let_def dedup_stat_ok_def holds_column_def)
qed

section \<open>The text of a rule\<close>

lemma split_at_dashes:
  assumes "a @ ''--'' @ x = b @ ''--'' @ y" "CHR ''-'' \<notin> set a" "CHR ''-'' \<notin> set b"
  shows "a = b \<and> x = y"
proof -
  have "takeWhile (\<lambda>c. c \<noteq> CHR ''-'') (a @ ''--'' @ x) = a" "takeWhile (\<lambda>c. c \<noteq> CHR ''-'') (b @ ''--'' @ y) = b"
    using assms(2,3) by (auto simp: takeWhile_append takeWhile_eq_all_conv [THEN iffD2])
  then have "a = b" using assms(1) by simp
  then show ?thesis using assms(1) by simp
qed

lemma to_string_no_dash: "0 \<le> i \<Longrightarrow> CHR ''-'' \<notin> set (to_string i)"
  using nat_string_isdigit by (force simp: to_string_def isdigit_def)

lemma cidr_string_no_dash: "0 \<le> cidr_len c \<Longrightarrow> CHR ''-'' \<notin> set (cidr_string c)"
  by (simp add: cidr_string_def to_string_no_dash)

lemma field_text_split:
  assumes "field_text s v @ ''--'' @ x = field_text s w @ ''--'' @ y"
  shows "field_text s v = field_text s w \<and> x = y"
proof (cases "ns_stat_type s = ''centralize''")
  case True
  then show ?thesis using assms split_at_dashes [of "to_string (int (unat v))" x "to_string (int (unat w))" y]
    by (simp add: field_text_def to_string_no_dash)
qed (use assms in \<open>simp add: field_text_def\<close>)

text \<open>The text names the group and, within a group, the whole record.\<close>

lemma rule_elements_group:
  assumes "rule_elements k st p = rule_elements k' st' q" "CHR ''-'' \<notin> set k" "CHR ''-'' \<notin> set k'"
  shows "k = k'"
  using split_at_dashes [OF assms(1) [unfolded rule_elements_def] assms(2,3)] by simp

lemma rule_elements_record:
  assumes "rule_elements k st p = rule_elements k st q"
  shows "rule_stat k st p = rule_stat k st q"
proof -
  let ?n = "\<lambda>p f. to_string (int (unat (fld p f)))" and ?s = "field_text (st_srcPort st)" and ?d = "field_text (st_dstPort st)"
  have e: "?n p ''DIP'' @ ''--'' @ ?s (fld p ''SPort'') @ ''--'' @ ?d (fld p ''DPort'') @ ''--'' @ ?n p ''Protocol'' @ ''--'' @
        field_text (st_length st) (fld p ''Length'') =
      ?n q ''DIP'' @ ''--'' @ ?s (fld q ''SPort'') @ ''--'' @ ?d (fld q ''DPort'') @ ''--'' @ ?n q ''Protocol'' @ ''--'' @
        field_text (st_length st) (fld q ''Length'')"
    using assms by (simp add: rule_elements_def)
  have num: "CHR ''-'' \<notin> set (?n p f)" for p f by (simp add: to_string_no_dash)
  note e1 = split_at_dashes [OF e num num]
  note e2 = field_text_split [OF conjunct2 [OF e1]]
  note e3 = field_text_split [OF conjunct2 [OF e2]]
  note e4 = split_at_dashes [OF conjunct2 [OF e3] num num]
  show ?thesis using e1 e2 e3 e4 by (simp add: rule_stat_def)
qed

lemma record_elements: "rule_stat k st p = rule_stat k' st' q \<Longrightarrow> rule_elements k st p = rule_elements k' st' q"
  by (simp add: rule_stat_def rule_elements_def)

text \<open>Building a map from pairs in which the key determines the value keeps every pair once.\<close>

lemma fold_um_insert_set:
  assumes "\<forall>e\<in>set es. \<forall>d\<in>set es. fst e = fst d \<longrightarrow> snd e = snd d"
  shows "um_invar (fold (\<lambda>(k, v). um_insert k v) es [])" "set (fold (\<lambda>(k, v). um_insert k v) es []) = set es"
proof -
  show inv: "um_invar (fold (\<lambda>(k, v). um_insert k v) es [])"
    by (induction es rule: rev_induct) (auto simp: um_invar_update split: prod.split)
  have look: "map_of (fold (\<lambda>(k, v). um_insert k v) es []) = map_of (rev es)"
    by (induction es rule: rev_induct) (auto simp: um_lookup_update fun_eq_iff split: prod.split)
  have iff: "map_of (rev es) k = Some v \<longleftrightarrow> (k, v) \<in> set es" for k v
  proof
    assume kv: "(k, v) \<in> set es"
    then have "map_of (rev es) k \<noteq> None" unfolding map_of_eq_None_iff by force
    then obtain w where w: "map_of (rev es) k = Some w" by blast
    then have "(k, w) \<in> set es" using map_of_SomeD [of "rev es" k w] by simp
    then have "w = v" using assms kv by (metis fst_conv snd_conv)
    then show "map_of (rev es) k = Some v" using w by simp
  next
    assume "map_of (rev es) k = Some v"
    then show "(k, v) \<in> set es" using map_of_SomeD [of "rev es" k v] by simp
  qed
  have "x \<in> set (fold (\<lambda>(k, v). um_insert k v) es []) \<longleftrightarrow> x \<in> set es" for x
    using map_of_eq_Some_iff [OF inv, of "fst x" "snd x"] iff [of "fst x" "snd x"] unfolding look by simp
  then show "set (fold (\<lambda>(k, v). um_insert k v) es []) = set es" by blast
qed

text \<open>The pairs of text and record the loops put into the map.\<close>

definition rule_pairs :: "(string \<Rightarrow> packet list) \<Rightarrow> (string \<times> sip_stats) list \<Rightarrow> (string \<times> (string \<times> string) list) list" where
  "rule_pairs ps all_stat = concat (map (\<lambda>(k, st). map (\<lambda>p. (rule_elements k st p, rule_stat k st p)) (ps k)) all_stat)"

lemma dedup_rules_fold:
  assumes "rows_ok rows" "\<And>k. looked_up incl k = filter (\<lambda>i. dedup_group ips (map row_packet rows ! i) = k) [0..<length rows]"
  shows "dedup_rules rows incl all_stat =
    Inr (fold (\<lambda>(k, v). um_insert k v) (rule_pairs (\<lambda>k. filter (\<lambda>p. dedup_group ips p = k) (map row_packet rows)) all_stat) [])"
proof -
  let ?ps = "map row_packet rows"
  have inner: "foldE (\<lambda>index rules. bindE (packet_at rows index) (\<lambda>p. Inr (um_insert (rule_elements k stat p) (rule_stat k stat p) rules)))
      (looked_up incl k) m =
      Inr (fold (\<lambda>p. um_insert (rule_elements k stat p) (rule_stat k stat p)) (filter (\<lambda>p. dedup_group ips p = k) ?ps) m)" for k stat m
  proof -
    have "foldE (\<lambda>index rules. bindE (packet_at rows index) (\<lambda>p. Inr (um_insert (rule_elements k stat p) (rule_stat k stat p) rules)))
        (looked_up incl k) m = Inr (fold (\<lambda>i. um_insert (rule_elements k stat (?ps ! i)) (rule_stat k stat (?ps ! i))) (looked_up incl k) m)"
      by (rule foldE_good) (use packet_at_ok [OF assms(1)] assms(2) in simp)
    then show ?thesis
      using fold_by_index [of "\<lambda>p. um_insert (rule_elements k stat p) (rule_stat k stat p)" ?ps "\<lambda>p. dedup_group ips p = k"]
      by (simp add: assms(2))
  qed
  have outer: "foldE (\<lambda>(k, stat). foldE (\<lambda>index rules. bindE (packet_at rows index) (\<lambda>p. Inr (um_insert (rule_elements k stat p) (rule_stat k stat p) rules)))
      (looked_up incl k)) es m =
      Inr (fold (\<lambda>(k, v). um_insert k v) (rule_pairs (\<lambda>k. filter (\<lambda>p. dedup_group ips p = k) ?ps) es) m)" for es m
    by (induction es arbitrary: m) (auto simp: inner rule_pairs_def fold_map comp_def split: prod.split)
  show ?thesis unfolding dedup_rules_def using outer [of all_stat "[]"] by (simp only: looked_up_def)
qed

section \<open>What the task emits\<close>

text \<open>The groups with a record: those with packets, and the random one where it is announced.\<close>

definition dedup_keys :: "packet list \<Rightarrow> attacker_result \<Rightarrow> string set" where
  "dedup_keys ps a = {k. group_packets ps a k \<noteq> []} \<union> (if ar_containRandomAttack a then {''RANDOM''} else {})"

lemma group_key_block:
  assumes "group_packets ps a k \<noteq> []" "k \<noteq> ''RANDOM''"
  shows "\<exists>c\<in>set (ar_attackerIPs a). cidr_string c = k"
  using assms by (auto simp: group_packets_def group_of_def filter_empty_conv find_Some_iff)

lemma dedup_stats_ok:
  assumes "SndSIPBaseMergeDeDupTask_Open opts = 0" "distinct (ar_randomIPs a)"
  shows "\<exists>m. foldE (\<lambda>e all_stat. bindE (dedup_make_stat opts nic (convert_map (ar_attackerIPs a)) e)
        (\<lambda>stat. Inr (um_insert (fst e) stat all_stat))) (merge_packets ps a) [] = Inr m \<and>
    distinct (map fst m) \<and> fst ` set m = dedup_keys ps a \<and> (\<forall>(k, st)\<in>set m. dedup_stat_ok opts nic k (group_packets ps a k) st)"
proof -
  let ?conv = "convert_map (ar_attackerIPs a)" and ?all = "merge_packets ps a"
  note g = merge_packets_groups [OF assms(2), of ps]
  have keys: "fst ` set ?all = dedup_keys ps a"
  proof (rule set_eqI)
    fix k
    have "k \<in> fst ` set ?all \<longleftrightarrow> map_of ?all k \<noteq> None" by (simp add: map_of_eq_None_iff)
    then show "k \<in> fst ` set ?all \<longleftrightarrow> k \<in> dedup_keys ps a" using g(3) [of k] by (simp add: dedup_keys_def)
  qed
  define mk where "mk = (\<lambda>e. projr (dedup_make_stat opts nic ?conv e))"
  have mk: "dedup_make_stat opts nic ?conv e = Inr (mk e) \<and> dedup_stat_ok opts nic (fst e) (group_packets ps a (fst e)) (mk e)"
    if "e \<in> set ?all" for e
  proof -
    obtain k r where e: "e = (k, r)" by (cases e)
    have kr: "map_of ?all k = Some r" using that g(1) by (simp add: e)
    have conv: "\<exists>c. map_of ?conv k = Some c \<and> cidr_string c = k" if "k \<noteq> ''RANDOM''"
    proof -
      have "group_packets ps a k \<noteq> []" using kr g(3) [of k] that by simp
      from group_key_block [OF this that] obtain c where c: "c \<in> set (ar_attackerIPs a)" "cidr_string c = k" by (rule bexE)
      show ?thesis using convert_map_lookup [OF c(1)] unfolding c(2) .
    qed
    have "\<exists>st. dedup_make_stat opts nic ?conv (k, r) = Inr st \<and> dedup_stat_ok opts nic k (group_packets ps a k) st"
      by (rule dedup_make_stat_ok [OF g(2) [OF kr] assms(1)]) (rule conv)
    then obtain st where "dedup_make_stat opts nic ?conv (k, r) = Inr st" "dedup_stat_ok opts nic k (group_packets ps a k) st" by (elim exE conjE)
    then show ?thesis by (simp add: e mk_def)
  qed
  have "foldE (\<lambda>e m. bindE (dedup_make_stat opts nic ?conv e) (\<lambda>v. Inr (um_insert (fst e) v m))) ?all [] = Inr ([] @ map (\<lambda>e. (fst e, mk e)) ?all)"
    by (rule foldE_um_build) (use mk g(1) in auto)
  moreover have "\<forall>(k, st)\<in>set (map (\<lambda>e. (fst e, mk e)) ?all). dedup_stat_ok opts nic k (group_packets ps a k) st"
    using mk by auto
  moreover have "fst ` set (map (\<lambda>e. (fst e, mk e)) ?all) = dedup_keys ps a" "distinct (map fst (map (\<lambda>e. (fst e, mk e)) ?all))"
    using keys g(1) by (simp_all add: image_image comp_def)
  ultimately show ?thesis by (intro exI [of _ "map (\<lambda>e. (fst e, mk e)) ?all"] conjI) simp_all
qed

lemma rule_pairs_keys:
  assumes "distinct (map fst m)" "\<forall>k\<in>fst ` set m. CHR ''-'' \<notin> set k"
    and "e \<in> set (rule_pairs ps m)" "d \<in> set (rule_pairs ps m)" "fst e = fst d"
  shows "snd e = snd d"
proof -
  obtain k st p where e: "(k, st) \<in> set m" "e = (rule_elements k st p, rule_stat k st p)" using assms(3) by (auto simp: rule_pairs_def)
  obtain k' st' q where d: "(k', st') \<in> set m" "d = (rule_elements k' st' q, rule_stat k' st' q)" using assms(4) by (auto simp: rule_pairs_def)
  have same: "rule_elements k st p = rule_elements k' st' q" using assms(5) e(2) d(2) by simp
  have "CHR ''-'' \<notin> set k" "CHR ''-'' \<notin> set k'" using assms(2) e(1) d(1) by force+
  then have k: "k = k'" by (rule rule_elements_group [OF same])
  then have "st = st'" using assms(1) e(1) d(1) by (meson eq_key_imp_eq_value)
  then show ?thesis using rule_elements_record [of k st p q] same k e(2) d(2) by simp
qed

lemma rule_pairs_fst:
  assumes "e \<in> set (rule_pairs ps m)" "d \<in> set (rule_pairs ps m)" "snd e = snd d"
  shows "fst e = fst d"
proof -
  obtain k st p where e: "e = (rule_elements k st p, rule_stat k st p)" using assms(1) by (auto simp: rule_pairs_def)
  obtain k' st' q where d: "d = (rule_elements k' st' q, rule_stat k' st' q)" using assms(2) by (auto simp: rule_pairs_def)
  show ?thesis using record_elements [of k st p k' st' q] assms(3) by (simp add: e d)
qed

text \<open>The records of the packets of each group.\<close>

definition group_records :: "cidr list \<Rightarrow> packet list \<Rightarrow> (string \<times> sip_stats) list \<Rightarrow> (string \<times> string) list set" where
  "group_records ips ps m = {rule_stat k st p |k st p. (k, st) \<in> set m \<and> p \<in> set ps \<and> dedup_group ips p = k}"

lemma rule_pairs_records: "snd ` set (rule_pairs (\<lambda>k. filter (\<lambda>p. dedup_group ips p = k) ps) m) = group_records ips ps m"
proof -
  have "set (rule_pairs f m) = (\<Union>(k, st)\<in>set m. (\<lambda>p. (rule_elements k st p, rule_stat k st p)) ` set (f k))" for f
    by (auto simp: rule_pairs_def)
  then have "snd ` set (rule_pairs f m) = (\<Union>(k, st)\<in>set m. rule_stat k st ` set (f k))" for f
    by (simp add: image_UN image_image case_prod_unfold)
  from this [of "\<lambda>k. filter (\<lambda>p. dedup_group ips p = k) ps"] show ?thesis unfolding group_records_def by (simp only:) auto
qed
lemma dedup_results_ok:
  assumes "SndSIPBaseMergeDeDupTask_Open opts = 0" "rows_ok rows" "distinct (ar_randomIPs a)" "\<forall>c\<in>set (ar_attackerIPs a). 0 \<le> cidr_len c"
  shows "\<exists>m rules. dedup_results opts rows a nic = Inr (m, rules) \<and> distinct (map fst m) \<and> fst ` set m = dedup_keys (map row_packet rows) a \<and>
    (\<forall>(k, st)\<in>set m. dedup_stat_ok opts nic k (group_packets (map row_packet rows) a k) st) \<and>
    distinct (map snd rules) \<and> snd ` set rules = group_records (ar_attackerIPs a) (map row_packet rows) m"
proof -
  let ?ps = "map row_packet rows" and ?ips = "ar_attackerIPs a"
  obtain incl where incl: "dedup_merge rows a = Inr (merge_packets ?ps a, incl)"
    "\<forall>k. looked_up incl k = filter (\<lambda>i. dedup_group ?ips (?ps ! i) = k) [0..<length rows]"
    using dedup_merge_ok [OF assms(2)] by blast
  obtain m where m: "foldE (\<lambda>e all_stat. bindE (dedup_make_stat opts nic (convert_map ?ips) e)
        (\<lambda>stat. Inr (um_insert (fst e) stat all_stat))) (merge_packets ?ps a) [] = Inr m"
    "distinct (map fst m)" "fst ` set m = dedup_keys ?ps a" "\<forall>(k, st)\<in>set m. dedup_stat_ok opts nic k (group_packets ?ps a k) st"
    using dedup_stats_ok [OF assms(1,3), of nic ?ps] by (elim exE conjE) (rule that)
  define es where "es = rule_pairs (\<lambda>k. filter (\<lambda>p. dedup_group ?ips p = k) ?ps) m"
  define rules where "rules = fold (\<lambda>(k, v). um_insert k v) es []"
  have run: "dedup_rules rows incl m = Inr rules"
    unfolding rules_def es_def by (rule dedup_rules_fold [OF assms(2)]) (simp add: incl(2))
  have dash: "\<forall>k\<in>fst ` set m. CHR ''-'' \<notin> set k"
  proof
    fix k assume k: "k \<in> fst ` set m"
    show "CHR ''-'' \<notin> set k"
    proof (cases "k = ''RANDOM''")
      case False
      then have "group_packets ?ps a k \<noteq> []" using k unfolding m(3) by (simp add: dedup_keys_def split: if_splits)
      from group_key_block [OF this False] obtain c where "c \<in> set ?ips" "cidr_string c = k" by (rule bexE)
      then show ?thesis using cidr_string_no_dash [of c] assms(4) by simp
    qed simp
  qed
  have det: "\<forall>e\<in>set es. \<forall>d\<in>set es. fst e = fst d \<longrightarrow> snd e = snd d"
    unfolding es_def by (intro ballI impI) (rule rule_pairs_keys [OF m(2) dash])
  note r = fold_um_insert_set [OF det, folded rules_def]
  have inj: "fst e = fst d" if "e \<in> set es" "d \<in> set es" "snd e = snd d" for e d
    using that unfolding es_def by (rule rule_pairs_fst)
  have "inj_on snd (set es)"
  proof (rule inj_onI)
    fix e d assume "e \<in> set es" "d \<in> set es" "snd e = snd d"
    then show "e = d" using inj [of e d] by (simp add: prod_eq_iff)
  qed
  then have dist: "distinct (map snd rules)" using r(1) unfolding distinct_map r(2) by (simp add: distinct_map)
  have "snd ` set rules = group_records ?ips ?ps m" unfolding r(2) es_def by (rule rule_pairs_records)
  then have "distinct (map snd rules) \<and> snd ` set rules = group_records ?ips ?ps m" using dist by blast
  moreover have "dedup_results opts rows a nic = Inr (m, rules)"
    unfolding dedup_results_def incl(1) bindE_simps prod.case m(1) run ..
  ultimately show ?thesis using m(2-4) by (intro exI [of _ m] exI [of _ rules] conjI) simp_all
qed

text \<open>C26: from rows of at least six numbers, attacker blocks and the name of the card the task emits, first,
  one labelled record per group of packets (a group announced as random may be empty), and, second, the
  records of strings of the packets of these groups: every record a packet of a group has, no other
  record, and each record once, although it keeps them under a text that joins their fields.\<close>

theorem SndSIPBaseMergeDeDupTask_rules:
  assumes "SndSIPBaseMergeDeDupTask_Open opts = 0" "rows_ok rows" "distinct (ar_randomIPs a)" "\<forall>c\<in>set (ar_attackerIPs a). 0 \<le> cidr_len c"
    and "input_tag as_rows (ctx_inputs ctx) ''PACKET'' = Inr (Some rows)"
    and "input_tag as_attackers (ctx_inputs ctx) ''SIP'' = Inr (Some a)"
    and "input_tag as_string (ctx_inputs ctx) ''NIC'' = Inr (Some nic)"
  shows "\<exists>m rules. SndSIPBaseMergeDeDupTask_Process opts junk ctx =
      bindE (emit_tag junk ''CIDR'' 0 (VStats m) ctx) (\<lambda>ctx. bindE (emit_tag junk ''CIDR'' 1 (VRecords rules) ctx) (\<lambda>ctx. Inr (0, ctx))) \<and>
    distinct (map fst m) \<and> fst ` set m = dedup_keys (map row_packet rows) a \<and>
    (\<forall>(k, st)\<in>set m. dedup_stat_ok opts nic k (group_packets (map row_packet rows) a k) st) \<and>
    distinct (map snd rules) \<and> snd ` set rules = group_records (ar_attackerIPs a) (map row_packet rows) m"
proof -
  obtain m rules where r: "dedup_results opts rows a nic = Inr (m, rules)" "distinct (map fst m)" "fst ` set m = dedup_keys (map row_packet rows) a"
    "\<forall>(k, st)\<in>set m. dedup_stat_ok opts nic k (group_packets (map row_packet rows) a k) st"
    "distinct (map snd rules)" "snd ` set rules = group_records (ar_attackerIPs a) (map row_packet rows) m"
    using dedup_results_ok [OF assms(1-4), of nic] by (elim exE conjE) (rule that)
  have "SndSIPBaseMergeDeDupTask_Process opts junk ctx =
      bindE (emit_tag junk ''CIDR'' 0 (VStats m) ctx) (\<lambda>ctx. bindE (emit_tag junk ''CIDR'' 1 (VRecords rules) ctx) (\<lambda>ctx. Inr (0, ctx)))"
    unfolding SndSIPBaseMergeDeDupTask_Process_def assms(5-7) need_simps r(1) bindE_simps option.case prod.case ..
  then show ?thesis using r(2-6) by (intro exI [of _ m] exI [of _ rules] conjI)
qed

definition dedup_demo :: dedup_options where
  "dedup_demo = \<lparr>dd_stat = sip_demo\<lparr>sp_num_label := [''centralize'', ''even'', ''spread'', ''other'']\<rparr>, dd_keyLenThresh = 3\<rparr>"

definition dedup_inputs :: "u32 list list \<Rightarrow> attacker_result \<Rightarrow> val input_stream collection" where
  "dedup_inputs rows a = demo_inputs sip_tags [VString ''eth0'', VRows rows, VAttackers a]"

lemma dedup_inputs_tags:
  "input_tag as_rows (dedup_inputs rows a) ''PACKET'' = Inr (Some rows)"
  "input_tag as_attackers (dedup_inputs rows a) ''SIP'' = Inr (Some a)"
  "input_tag as_string (dedup_inputs rows a) ''NIC'' = Inr (Some ''eth0'')"
  by code_simp+

lemma group_records_single:
  assumes "\<forall>p\<in>set ps. p = q" "ps \<noteq> []" "dedup_group ips q = k" "(k, st) \<in> set m" "distinct (map fst m)"
  shows "group_records ips ps m = {rule_stat k st q}"
proof -
  have one: "s = st" if "(k, s) \<in> set m" for s using eq_key_imp_eq_value [OF assms(5) that assms(4)] .
  show ?thesis
  proof (rule set_eqI)
    fix x
    have "x \<in> group_records ips ps m \<longleftrightarrow> (\<exists>k' s p. x = rule_stat k' s p \<and> (k', s) \<in> set m \<and> p \<in> set ps \<and> dedup_group ips p = k')"
      by (simp only: group_records_def mem_Collect_eq)
    also have "\<dots> \<longleftrightarrow> x = rule_stat k st q"
    proof
      assume "\<exists>k' s p. x = rule_stat k' s p \<and> (k', s) \<in> set m \<and> p \<in> set ps \<and> dedup_group ips p = k'"
      then obtain k' s p where x: "x = rule_stat k' s p" "(k', s) \<in> set m" "p \<in> set ps" "dedup_group ips p = k'" by (elim exE conjE)
      have p: "p = q" using assms(1) x(3) by (rule bspec)
      then have "k' = k" using x(4) assms(3) by simp
      then show "x = rule_stat k st q" using x(1,2) p one by simp
    next
      assume "x = rule_stat k st q"
      moreover have "q \<in> set ps" using assms(1,2) by (cases ps) simp_all
      ultimately show "\<exists>k' s p. x = rule_stat k' s p \<and> (k', s) \<in> set m \<and> p \<in> set ps \<and> dedup_group ips p = k'"
        using assms(3,4) by (intro exI [of _ k] exI [of _ st] exI [of _ q] conjI)
    qed
    finally show "x \<in> group_records ips ps m \<longleftrightarrow> x \<in> {rule_stat k st q}" by simp
  qed
qed

lemma distinct_singleton: "distinct xs \<Longrightarrow> set xs = {x} \<Longrightarrow> xs = [x]"
  by (cases xs; cases "tl xs") auto

theorem SndSIPBaseMergeDeDupTask_rules_witness:
  "\<exists>m rules st. SndSIPBaseMergeDeDupTask_Process dedup_demo 1 (demo_ctx (dedup_inputs [[8, 80, 443, 6, 64, 5], [8, 80, 443, 6, 64, 5]]
        \<lparr>ar_attackerIPs = [CIDR 8 31], ar_containRandomAttack = False, ar_randomIPs = []\<rparr>)) =
      bindE (emit_tag 1 ''CIDR'' 0 (VStats m) (demo_ctx (dedup_inputs [[8, 80, 443, 6, 64, 5], [8, 80, 443, 6, 64, 5]]
        \<lparr>ar_attackerIPs = [CIDR 8 31], ar_containRandomAttack = False, ar_randomIPs = []\<rparr>)))
        (\<lambda>ctx. bindE (emit_tag 1 ''CIDR'' 1 (VRecords rules) ctx) (\<lambda>ctx. Inr (0, ctx))) \<and>
    (''8/31'', st) \<in> set m \<and> map snd rules = [rule_stat ''8/31'' st (row_packet [8, 80, 443, 6, 64, 5])]"
proof -
  let ?row = "[8, 80, 443, 6, 64, 5] :: u32 list"
  let ?a = "\<lparr>ar_attackerIPs = [CIDR 8 31], ar_containRandomAttack = False, ar_randomIPs = []\<rparr>"
  let ?ps = "map row_packet [?row, ?row]" and ?ctx = "demo_ctx (dedup_inputs [?row, ?row] ?a)"
  have o: "SndSIPBaseMergeDeDupTask_Open dedup_demo = 0" by code_simp
  have g: "dedup_group [CIDR 8 31] (row_packet ?row) = ''8/31''" "group_packets ?ps ?a ''8/31'' = ?ps" by code_simp+
  have tags: "input_tag as_rows (ctx_inputs ?ctx) ''PACKET'' = Inr (Some [?row, ?row])"
    "input_tag as_attackers (ctx_inputs ?ctx) ''SIP'' = Inr (Some ?a)" "input_tag as_string (ctx_inputs ?ctx) ''NIC'' = Inr (Some ''eth0'')"
    by (simp_all add: dedup_inputs_tags)
  have ok: "rows_ok [?row, ?row]" "distinct (ar_randomIPs ?a)" "\<forall>c\<in>set (ar_attackerIPs ?a). 0 \<le> cidr_len c" by (simp_all add: rows_ok_def)
  obtain m rules where r: "SndSIPBaseMergeDeDupTask_Process dedup_demo 1 ?ctx =
      bindE (emit_tag 1 ''CIDR'' 0 (VStats m) ?ctx) (\<lambda>ctx. bindE (emit_tag 1 ''CIDR'' 1 (VRecords rules) ctx) (\<lambda>ctx. Inr (0, ctx)))"
    "distinct (map fst m)" "fst ` set m = dedup_keys ?ps ?a" "distinct (map snd rules)" "snd ` set rules = group_records (ar_attackerIPs ?a) ?ps m"
    using SndSIPBaseMergeDeDupTask_rules [OF o ok tags, of 1] by (elim exE conjE) (rule that)
  have "''8/31'' \<in> fst ` set m" unfolding r(3) using g(2) by (simp add: dedup_keys_def)
  then obtain st where st: "(''8/31'', st) \<in> set m" by auto
  have "snd ` set rules = {rule_stat ''8/31'' st (row_packet ?row)}" unfolding r(5)
    by (rule group_records_single [OF _ _ _ st r(2)]) (simp_all add: g(1))
  then have "map snd rules = [rule_stat ''8/31'' st (row_packet ?row)]" by (intro distinct_singleton r(4)) (simp only: set_map)
  then show ?thesis using r(1) st by (intro exI [of _ m] exI [of _ rules] exI [of _ st] conjI)
qed

end
