(* ===== verification/Onnx.thy ===== *)
theory Onnx
  imports Task_Values
begin

text \<open>
  Inference with ONNX models: \<open>dni/tasks/onnx\<close>. The runtime is a parameter: \<open>open_session\<close> gives the
  names and shapes a model file declares or throws, \<open>create\<close> makes a tensor of a buffer and a
  shape or throws, and \<open>run\<close> maps named input tensors and output names to output values, or
  fails (\<open>None\<close>), which the loaders catch. A shape is a list of signed numbers in which \<open>-1\<close>
  stands for a dimension that is fixed by the data.
\<close>

section \<open>Models\<close>

record session =
  ss_inputs :: "(string \<times> int list) list"
  ss_outputs :: "string list"

definition parse_for_model_type :: "(string \<Rightarrow> session outcome) \<Rightarrow> string \<Rightarrow> int outcome" where
  "parse_for_model_type open_session model_path = bindE (open_session model_path) (\<lambda>session.
     Inr (if list_ex (\<lambda>(name, shape). list_ex (\<lambda>d. d = - 1) shape) (ss_inputs session) then 1 else 0))"

section \<open>The loader of models of fixed shape\<close>

record fixed_loader =
  fl_in_names :: "string list"
  fl_dims :: "int list list"
  fl_out_names :: "string list"

definition ONNXFixedModelLoader_Load :: "session \<Rightarrow> bool \<times> fixed_loader" where
  "ONNXFixedModelLoader_Load session =
     (True, \<lparr>fl_in_names = map fst (ss_inputs session), fl_dims = map snd (ss_inputs session), fl_out_names = ss_outputs session\<rparr>)"

text \<open>The tensors of the inputs; an input the model does not have is read past the end of the shapes.\<close>

fun fixed_tensors :: "('f list \<Rightarrow> int list \<Rightarrow> 't outcome) \<Rightarrow> int list list \<Rightarrow> 'f list list \<Rightarrow> nat \<Rightarrow> 't list outcome" where
  "fixed_tensors create dims [] i = Inr []"
| "fixed_tensors create dims (data # input_data) i =
     (if length dims \<le> i then Inl Undefined
      else bindE (create data (dims ! i)) (\<lambda>t. bindE (fixed_tensors create dims input_data (i + 1)) (\<lambda>ts. Inr (t # ts))))"

type_synonym ('t, 'o) runner = "string list \<Rightarrow> 't list \<Rightarrow> string list \<Rightarrow> 'o list option"

definition ONNXFixedModelLoader_Inference ::
  "('f list \<Rightarrow> int list \<Rightarrow> 't outcome) \<Rightarrow> ('t, 'o) runner \<Rightarrow> fixed_loader \<Rightarrow> 'f list list \<Rightarrow> 'o list option outcome" where
  "ONNXFixedModelLoader_Inference create run l input_data =
     bindE (fixed_tensors create (fl_dims l) input_data 0) (\<lambda>input_tensors. Inr (run (fl_in_names l) input_tensors (fl_out_names l)))"

section \<open>The loader of models with a dynamic dimension\<close>

text \<open>The names are filled in one by one; a null pointer is the empty string here, and no name is read
  before all are set or the load has failed.\<close>

record dynamic_loader =
  dl_in_names :: "string list"
  dl_dims :: "int list list"
  dl_out_names :: "string list"
  dl_dynamic_status :: "bool list"
  dl_dynamic_index :: "int list"
  dl_size_in_1D :: "64 word list"

text \<open>The loop over the dimensions of an input, from the \<open>j\<close>th on, with its early return: whether
  the input is dynamic, the index of its dynamic dimension and the size.\<close>

fun scan_dims :: "nat \<Rightarrow> int list \<Rightarrow> bool \<times> int \<times> 64 word \<Rightarrow> bool \<times> bool \<times> int \<times> 64 word" where
  "scan_dims j [] s = (True, s)"
| "scan_dims j (d # ds) (status, index, size_in_1D) =
     (if d = - 1 then
        if status then (False, status, index, size_in_1D)
        else scan_dims (j + 1) ds (True, int j, size_in_1D)
      else scan_dims (j + 1) ds (status, index, if size_in_1D = 0 then word_of_int d else size_in_1D * word_of_int d))"

text \<open>The loop over the inputs: \<open>size_in_1D\<close> lives outside the loop and is never reset.\<close>

fun load_inputs :: "(string \<times> int list) list \<Rightarrow> nat \<Rightarrow> 64 word \<Rightarrow> dynamic_loader \<Rightarrow> bool \<times> dynamic_loader" where
  "load_inputs [] i size_in_1D l = (True, l)"
| "load_inputs ((name, shape) # inputs) i size_in_1D l =
     (let l = l\<lparr>dl_in_names := (dl_in_names l)[i := name], dl_dims := (dl_dims l)[i := shape]\<rparr>;
          (ok, status, index, size_in_1D) = scan_dims 0 shape (dl_dynamic_status l ! i, dl_dynamic_index l ! i, size_in_1D);
          l = l\<lparr>dl_dynamic_status := (dl_dynamic_status l)[i := status], dl_dynamic_index := (dl_dynamic_index l)[i := index]\<rparr>
      in if ok then load_inputs inputs (i + 1) size_in_1D (l\<lparr>dl_size_in_1D := (dl_size_in_1D l)[i := size_in_1D]\<rparr>) else (False, l))"

definition ONNXDynamicModelLoader_Load :: "session \<Rightarrow> bool \<times> dynamic_loader" where
  "ONNXDynamicModelLoader_Load session =
     (let n = length (ss_inputs session);
          (ok, l) = load_inputs (ss_inputs session) 0 0
            \<lparr>dl_in_names = replicate n [], dl_dims = replicate n [], dl_out_names = replicate (length (ss_outputs session)) [],
             dl_dynamic_status = replicate n False, dl_dynamic_index = replicate n (- 1), dl_size_in_1D = replicate n 0\<rparr>
      in if ok then (True, l\<lparr>dl_out_names := ss_outputs session\<rparr>) else (False, l))"

text \<open>\<open>int fix_dim\<close> of a size.\<close>

definition int_of_size :: "nat \<Rightarrow> int" where
  "int_of_size n = (int n + 2147483648) mod 4294967296 - 2147483648"

definition fix_dim :: "64 word \<Rightarrow> nat \<Rightarrow> int" where
  "fix_dim size_in_1D n = (if size_in_1D = 0 then int_of_size n else int_of_size (n div unat size_in_1D))"

text \<open>The shape of an input is overwritten in the loader.\<close>

fun dynamic_tensors ::
  "('f list \<Rightarrow> int list \<Rightarrow> 't outcome) \<Rightarrow> 'f list list \<Rightarrow> nat \<Rightarrow> dynamic_loader \<Rightarrow> ('t list \<times> dynamic_loader) outcome" where
  "dynamic_tensors create [] i l = Inr ([], l)"
| "dynamic_tensors create (data # input_data) i l =
     (if length (dl_dims l) \<le> i then Inl Undefined
      else let l = (if dl_dynamic_status l ! i
               then l\<lparr>dl_dims := (dl_dims l)[i := (dl_dims l ! i)[nat (dl_dynamic_index l ! i) := fix_dim (dl_size_in_1D l ! i) (length data)]]\<rparr>
               else l)
        in bindE (create data (dl_dims l ! i)) (\<lambda>t. bindE (dynamic_tensors create input_data (i + 1) l) (\<lambda>(ts, l). Inr (t # ts, l))))"

definition ONNXDynamicModelLoader_Inference ::
  "('f list \<Rightarrow> int list \<Rightarrow> 't outcome) \<Rightarrow> ('t, 'o) runner \<Rightarrow> dynamic_loader \<Rightarrow> 'f list list \<Rightarrow> ('o list option \<times> dynamic_loader) outcome" where
  "ONNXDynamicModelLoader_Inference create run l input_data =
     bindE (dynamic_tensors create input_data 0 l) (\<lambda>(input_tensors, l). Inr (run (dl_in_names l) input_tensors (dl_out_names l), l))"

section \<open>The task\<close>

datatype model_loader = Fixed_Loader fixed_loader | Dynamic_Loader dynamic_loader

definition Loader_Inference ::
  "('f list \<Rightarrow> int list \<Rightarrow> 't outcome) \<Rightarrow> ('t, 'o) runner \<Rightarrow> model_loader \<Rightarrow> 'f list list \<Rightarrow> ('o list option \<times> model_loader) outcome" where
  "Loader_Inference create run loader input_data = (case loader of
       Fixed_Loader l \<Rightarrow> bindE (ONNXFixedModelLoader_Inference create run l input_data) (\<lambda>r. Inr (r, loader))
     | Dynamic_Loader l \<Rightarrow> bindE (ONNXDynamicModelLoader_Inference create run l input_data) (\<lambda>(r, l). Inr (r, Dynamic_Loader l)))"

text \<open>The model file is opened twice, for its kind and by the loader.\<close>

definition OnnxTask_Open :: "(string \<Rightarrow> session outcome) \<Rightarrow> string \<Rightarrow> (int \<times> model_loader) outcome" where
  "OnnxTask_Open open_session model_path = bindE (parse_for_model_type open_session model_path) (\<lambda>model_type.
     bindE (open_session model_path) (\<lambda>session.
       let (ok, loader) = (if model_type = 0 then map_prod id Fixed_Loader (ONNXFixedModelLoader_Load session)
             else map_prod id Dynamic_Loader (ONNXDynamicModelLoader_Load session))
       in Inr (if ok then 0 else - 1, loader)))"

text \<open>\<open>DumpInferenceRet\<close> and \<open>ParseInferenceResult\<close> are virtual: \<open>parse_result\<close> stands for the two calls, one
  after the other, and gives the datum of the second.\<close>

definition OnnxTask_Process ::
  "('v \<Rightarrow> 'f list list option) \<Rightarrow> ('f list \<Rightarrow> int list \<Rightarrow> 't outcome) \<Rightarrow> ('t, 'o) runner \<Rightarrow> ('o list \<Rightarrow> 'v datum outcome) \<Rightarrow>
   model_loader \<Rightarrow> 'v task_context \<Rightarrow> (int \<times> model_loader \<times> 'v task_context) outcome" where
  "OnnxTask_Process any_cast create run parse_result loader ctx =
     bindE (input_at any_cast (ctx_inputs ctx) 0) (\<lambda>data_opt. case data_opt of
         None \<Rightarrow> Inr (- 1, loader, ctx)
       | Some data \<Rightarrow> bindE (Loader_Inference create run loader data) (\<lambda>(inference_ret, loader). case inference_ret of
           None \<Rightarrow> Inr (- 1, loader, ctx)
         | Some ret \<Rightarrow> bindE (parse_result ret) (\<lambda>d. bindE (c_at (ctx_outputs ctx) 0) (\<lambda>s.
             Inr (0, loader, ctx\<lparr>ctx_outputs := c_put (ctx_outputs ctx) 0 (os_AddDatum d s)\<rparr>)))))"

section \<open>Sizes\<close>

text \<open>The fixed dimensions of a shape, the place of its dynamic one, and the size of fixed dimensions as
  the loader counts it: 0 for none.\<close>

definition fixed_dims :: "int list \<Rightarrow> int list" where
  "fixed_dims shape = filter (\<lambda>d. d \<noteq> - 1) shape"

definition dynamic_place :: "int list \<Rightarrow> nat" where
  "dynamic_place shape = length (takeWhile (\<lambda>d. d \<noteq> - 1) shape)"

definition size_1D :: "int list \<Rightarrow> int" where
  "size_1D ds = (if ds = [] then 0 else prod_list ds)"

definition shape_ok :: "int list \<Rightarrow> bool" where
  "shape_ok shape \<longleftrightarrow> list_all (\<lambda>d. 0 < d) (fixed_dims shape) \<and> count_list shape (- 1) \<le> 1"

lemma fixed_dims_simps [simp]:
  "fixed_dims [] = []" "fixed_dims (d # ds) = (if d = - 1 then fixed_dims ds else d # fixed_dims ds)"
  by (simp_all add: fixed_dims_def)

lemma prod_pos: "list_all (\<lambda>d. 0 < d) ds \<Longrightarrow> 0 < prod_list (ds :: int list)"
  by (induction ds) simp_all

lemma prod_prefix:
  assumes "list_all (\<lambda>d. 0 < d) (ds @ es)"
  shows "prod_list ds \<le> prod_list (ds @ es :: int list)"
proof -
  have "0 < prod_list ds" "0 < prod_list es" using assms by (simp_all add: prod_pos)
  then show ?thesis by (simp add: mult_le_cancel_left1)
qed

lemma size_step:
  assumes "uint sz = size_1D ds" "list_all (\<lambda>d. 0 < d) (ds @ [d])" "prod_list (ds @ [d]) < 2 ^ 64"
  shows "uint (if sz = 0 then word_of_int d else sz * word_of_int d :: 64 word) = size_1D (ds @ [d])"
proof (cases "ds = []")
  case True
  then have "sz = 0" using assms(1) by (simp add: size_1D_def word_uint_eq_iff)
  then show ?thesis using True assms(2,3) by (simp add: size_1D_def uint_word_of_int)
next
  case False
  have pos: "0 < prod_list ds" "0 < d" using assms(2) by (simp_all add: prod_pos)
  have sz: "uint sz = prod_list ds" using assms(1) False by (simp add: size_1D_def)
  then have nz: "sz \<noteq> 0" using pos by auto
  have "d \<le> prod_list ds * d" using pos by (simp add: mult_le_cancel_right1)
  moreover have "prod_list ds * d < 2 ^ 64" using assms(3) by simp
  ultimately have "d < 2 ^ 64" by linarith
  then have d: "uint (word_of_int d :: 64 word) = d" using pos by (simp add: uint_word_of_int)
  have "uint (sz * word_of_int d) = prod_list ds * d"
    using assms(3) pos by (simp add: uint_word_ariths sz d)
  then show ?thesis using nz False by (simp add: size_1D_def)
qed

lemma scan_dims_ok:
  assumes "uint sz = size_1D ds" "list_all (\<lambda>d. 0 < d) (ds @ fixed_dims shape)" "prod_list (ds @ fixed_dims shape) < 2 ^ 64"
    and "count_list shape (- 1) + of_bool status \<le> 1"
  shows "\<exists>sz'. scan_dims j shape (status, index, sz) =
      (True, status \<or> - 1 \<in> set shape, if - 1 \<in> set shape then int (j + dynamic_place shape) else index, sz') \<and>
    uint sz' = size_1D (ds @ fixed_dims shape)"
  using assms
proof (induction shape arbitrary: j status index sz ds)
  case Nil
  then show ?case by simp
next
  case (Cons d shape)
  show ?case
  proof (cases "d = - 1")
    case True
    then have no: "\<not> status" "- 1 \<notin> set shape" using Cons.prems(4) by (auto simp: count_list_0_iff)
    have "\<exists>sz'. scan_dims (j + 1) shape (True, int j, sz) =
        (True, True \<or> - 1 \<in> set shape, if - 1 \<in> set shape then int (j + 1 + dynamic_place shape) else int j, sz') \<and>
        uint sz' = size_1D (ds @ fixed_dims shape)"
      using Cons.prems no(2) True by (intro Cons.IH) (simp_all add: count_list_0_iff)
    then show ?thesis using True no by (auto simp: dynamic_place_def)
  next
    case False
    let ?sz = "if sz = 0 then word_of_int d else sz * word_of_int d"
    have "prod_list (ds @ [d]) \<le> prod_list ((ds @ [d]) @ fixed_dims shape)"
      using Cons.prems(2) False by (intro prod_prefix) simp
    then have sz: "uint ?sz = size_1D (ds @ [d])"
      using Cons.prems(1-3) False by (intro size_step) simp_all
    have "\<exists>sz'. scan_dims (j + 1) shape (status, index, ?sz) =
        (True, status \<or> - 1 \<in> set shape, if - 1 \<in> set shape then int (j + 1 + dynamic_place shape) else index, sz') \<and>
        uint sz' = size_1D ((ds @ [d]) @ fixed_dims shape)"
      using Cons.prems False by (intro Cons.IH sz) simp_all
    then show ?thesis using False by (auto simp: dynamic_place_def)
  qed
qed

text \<open>The loader after a complete load: every size counts the fixed dimensions of all inputs so far.\<close>

definition place_index :: "int list \<Rightarrow> int" where
  "place_index shape = (if - 1 \<in> set shape then int (dynamic_place shape) else - 1)"

definition prefix_dims :: "int list list \<Rightarrow> int list" where
  "prefix_dims shapes = concat (map fixed_dims shapes)"

lemma load_inputs_ok:
  assumes "list_all (\<lambda>(name, shape). shape_ok shape) inputs" "uint sz = size_1D (prefix_dims done)"
    and "list_all (\<lambda>d. 0 < d) (prefix_dims done)" "prod_list (prefix_dims (done @ map snd inputs)) < 2 ^ 64"
    and "length ns = length done" "length ss = length done" "length st = length done" "length ix = length done"
  shows "\<exists>sizes. load_inputs inputs (length done) sz
      \<lparr>dl_in_names = ns @ replicate (length inputs) [], dl_dims = done @ replicate (length inputs) [], dl_out_names = outs,
       dl_dynamic_status = st @ replicate (length inputs) False, dl_dynamic_index = ix @ replicate (length inputs) (- 1),
       dl_size_in_1D = ss @ replicate (length inputs) 0\<rparr> =
     (True, \<lparr>dl_in_names = ns @ map fst inputs, dl_dims = done @ map snd inputs, dl_out_names = outs,
       dl_dynamic_status = st @ map (\<lambda>(n, shape). - 1 \<in> set shape) inputs,
       dl_dynamic_index = ix @ map (\<lambda>(n, shape). place_index shape) inputs, dl_size_in_1D = ss @ sizes\<rparr>) \<and>
     length sizes = length inputs \<and>
     (\<forall>i<length inputs. uint (sizes ! i) = size_1D (prefix_dims (done @ map snd (take (Suc i) inputs))))"
  using assms
proof (induction inputs arbitrary: "done" sz ns ss st ix)
  case Nil
  then show ?case by simp
next
  case (Cons input inputs)
  obtain name shape where input: "input = (name, shape)" by (cases input)
  let ?done = "done @ [shape]"
  have ok: "shape_ok shape" "list_all (\<lambda>(name, shape). shape_ok shape) inputs" using Cons.prems(1) by (simp_all add: input)
  have pd: "prefix_dims ?done = prefix_dims done @ fixed_dims shape" by (simp add: prefix_dims_def)
  have pos: "list_all (\<lambda>d. 0 < d) (prefix_dims ?done)" using Cons.prems(3) ok(1) by (simp add: pd shape_ok_def)
  have rest: "list_all (\<lambda>d. 0 < d) (prefix_dims (map snd inputs))"
    using ok(2) by (induction inputs) (auto simp: prefix_dims_def shape_ok_def)
  have "prod_list (prefix_dims ?done) \<le> prod_list (prefix_dims ?done @ prefix_dims (map snd inputs))"
    using pos rest by (intro prod_prefix) simp
  also have "\<dots> < 2 ^ 64" using Cons.prems(4) by (simp add: input prefix_dims_def)
  finally have small: "prod_list (prefix_dims done @ fixed_dims shape) < 2 ^ 64" by (simp add: pd)
  have cnt: "count_list shape (- 1) + of_bool False \<le> 1" using ok(1) by (simp add: shape_ok_def)
  obtain sz' where scan: "scan_dims 0 shape (False, - 1, sz) = (True, - 1 \<in> set shape, place_index shape, sz')"
    "uint sz' = size_1D (prefix_dims ?done)"
    using scan_dims_ok [OF Cons.prems(2) pos [unfolded pd] small cnt, of 0 "- 1"] by (auto simp: pd place_index_def)
  have upd: "(xs @ y # ys)[length xs := z] = (xs @ [z]) @ ys" for xs ys and y z :: 'x by simp
  have fits: "length (ns @ [name]) = length ?done" "length (ss @ [sz']) = length ?done"
    "length (st @ [- 1 \<in> set shape]) = length ?done" "length (ix @ [place_index shape]) = length ?done"
    using Cons.prems(5-8) by simp_all
  from Cons.IH [OF ok(2) scan(2) pos _ fits] Cons.prems(4)
  obtain sizes where sizes: "load_inputs inputs (length ?done) sz'
      \<lparr>dl_in_names = (ns @ [name]) @ replicate (length inputs) [], dl_dims = ?done @ replicate (length inputs) [], dl_out_names = outs,
       dl_dynamic_status = (st @ [- 1 \<in> set shape]) @ replicate (length inputs) False,
       dl_dynamic_index = (ix @ [place_index shape]) @ replicate (length inputs) (- 1),
       dl_size_in_1D = (ss @ [sz']) @ replicate (length inputs) 0\<rparr> =
     (True, \<lparr>dl_in_names = (ns @ [name]) @ map fst inputs, dl_dims = ?done @ map snd inputs, dl_out_names = outs,
       dl_dynamic_status = (st @ [- 1 \<in> set shape]) @ map (\<lambda>(n, shape). - 1 \<in> set shape) inputs,
       dl_dynamic_index = (ix @ [place_index shape]) @ map (\<lambda>(n, shape). place_index shape) inputs,
       dl_size_in_1D = (ss @ [sz']) @ sizes\<rparr>)" "length sizes = length inputs"
    "\<forall>i<length inputs. uint (sizes ! i) = size_1D (prefix_dims (?done @ map snd (take (Suc i) inputs)))"
    by (auto simp: input)
  have nth: "(st @ False # replicate (length inputs) False) ! length done = False"
    "(ix @ (- 1) # replicate (length inputs) (- 1)) ! length done = - 1"
    using Cons.prems(7,8) by (metis nth_append_length)+
  note lens = Cons.prems(5-8) [symmetric]
  have "load_inputs (input # inputs) (length done) sz
      \<lparr>dl_in_names = ns @ replicate (length (input # inputs)) [], dl_dims = done @ replicate (length (input # inputs)) [], dl_out_names = outs,
       dl_dynamic_status = st @ replicate (length (input # inputs)) False, dl_dynamic_index = ix @ replicate (length (input # inputs)) (- 1),
       dl_size_in_1D = ss @ replicate (length (input # inputs)) 0\<rparr> =
     (True, \<lparr>dl_in_names = ns @ map fst (input # inputs), dl_dims = done @ map snd (input # inputs), dl_out_names = outs,
       dl_dynamic_status = st @ map (\<lambda>(n, shape). - 1 \<in> set shape) (input # inputs),
       dl_dynamic_index = ix @ map (\<lambda>(n, shape). place_index shape) (input # inputs), dl_size_in_1D = ss @ (sz' # sizes)\<rparr>)"
    using sizes(1) Cons.prems(5-8)
    by (simp add: input nth scan(1) list_update_append)
  moreover have "uint ((sz' # sizes) ! i) = size_1D (prefix_dims (done @ map snd (take (Suc i) (input # inputs))))"
    if "i < length (input # inputs)" for i
    using that sizes(3) scan(2) by (cases i) (auto simp: input)
  ultimately show ?case using sizes(2) by (intro exI [of _ "sz' # sizes"] conjI) simp_all
qed

lemma Load_ok:
  assumes "list_all (\<lambda>(name, shape). shape_ok shape) (ss_inputs session)" "prod_list (prefix_dims (map snd (ss_inputs session))) < 2 ^ 64"
  shows "\<exists>sizes. ONNXDynamicModelLoader_Load session = (True, \<lparr>dl_in_names = map fst (ss_inputs session), dl_dims = map snd (ss_inputs session),
      dl_out_names = ss_outputs session, dl_dynamic_status = map (\<lambda>(n, shape). - 1 \<in> set shape) (ss_inputs session),
      dl_dynamic_index = map (\<lambda>(n, shape). place_index shape) (ss_inputs session), dl_size_in_1D = sizes\<rparr>) \<and>
    length sizes = length (ss_inputs session) \<and>
    (\<forall>i<length (ss_inputs session). uint (sizes ! i) = size_1D (prefix_dims (map snd (take (Suc i) (ss_inputs session)))))"
  using load_inputs_ok [of "ss_inputs session" 0 "[]" "[]" "[]" "[]" "[]" "replicate (length (ss_outputs session)) []"] assms
  by (auto simp: ONNXDynamicModelLoader_Load_def Let_def prefix_dims_def size_1D_def)

section \<open>One dynamic input\<close>

text \<open>The state of a loader of a model with one input, whose dynamic dimension holds \<open>v\<close>.\<close>

definition single_loader :: "string \<Rightarrow> int list \<Rightarrow> string list \<Rightarrow> int \<Rightarrow> dynamic_loader" where
  "single_loader name shape outs v = \<lparr>dl_in_names = [name], dl_dims = [shape[dynamic_place shape := v]], dl_out_names = outs,
     dl_dynamic_status = [True], dl_dynamic_index = [int (dynamic_place shape)], dl_size_in_1D = [word_of_int (size_1D (fixed_dims shape))]\<rparr>"

lemma dynamic_place_nth: "- 1 \<in> set shape \<Longrightarrow> dynamic_place shape < length shape \<and> shape ! dynamic_place shape = - 1"
  unfolding dynamic_place_def by (metis (mono_tags, lifting) nth_length_takeWhile takeWhile_eq_all_conv length_takeWhile_le nat_less_le takeWhile_eq_take take_all_iff less_irrefl not_less)

lemma fill_dynamic:
  assumes "- 1 \<in> set shape" "count_list shape (- 1) \<le> 1"
  shows "prod_list (shape[dynamic_place shape := v]) = v * prod_list (fixed_dims shape)"
  using assms
proof (induction shape)
  case (Cons d shape)
  show ?case
  proof (cases "d = - 1")
    case True
    then have "- 1 \<notin> set shape" using Cons.prems(2) by (simp add: count_list_0_iff)
    then have "fixed_dims shape = shape" by (auto simp: fixed_dims_def filter_id_conv)
    then show ?thesis using True by (simp add: dynamic_place_def)
  qed (use Cons in \<open>auto simp: dynamic_place_def\<close>)
qed simp

lemma int_of_size_small: "n < 2147483648 \<Longrightarrow> int_of_size n = int n"
  by (simp add: int_of_size_def)

lemma fix_dim_exact:
  assumes "list_all (\<lambda>d. 0 < d) ds" "prod_list ds < 2 ^ 64" "n < 2147483648"
  shows "fix_dim (word_of_int (size_1D ds)) (n * nat (prod_list ds)) = int n"
proof (cases "ds = []")
  case True
  then show ?thesis using assms(3) by (simp add: fix_dim_def size_1D_def int_of_size_small)
next
  case False
  have pos: "0 < prod_list ds" using assms(1) by (rule prod_pos)
  have u: "uint (word_of_int (prod_list ds) :: 64 word) = prod_list ds" using pos assms(2) by (simp add: uint_word_of_int)
  then have "word_of_int (prod_list ds) \<noteq> (0 :: 64 word)" using pos by auto
  moreover have "unat (word_of_int (prod_list ds) :: 64 word) = nat (prod_list ds)" using u by (simp add: unat_eq_nat_uint)
  ultimately show ?thesis using False assms(3) pos by (simp add: fix_dim_def size_1D_def int_of_size_small)
qed

lemma single_inference:
  assumes "shape_ok shape" "- 1 \<in> set shape" "prod_list (fixed_dims shape) < 2 ^ 64"
    and "length data = n * nat (prod_list (fixed_dims shape))" "n < 2147483648"
  shows "ONNXDynamicModelLoader_Inference create run (single_loader name shape outs v) [data] =
    bindE (create data (shape[dynamic_place shape := int n])) (\<lambda>t. Inr (run [name] [t] outs, single_loader name shape outs (int n)))"
proof -
  have "fix_dim (word_of_int (size_1D (fixed_dims shape))) (length data) = int n"
    unfolding assms(4) using assms(1) by (intro fix_dim_exact assms(3,5)) (simp add: shape_ok_def)
  then show ?thesis
    by (simp add: ONNXDynamicModelLoader_Inference_def single_loader_def bindE_assoc)
qed

lemma single_load:
  assumes "shape_ok shape" "- 1 \<in> set shape" "prod_list (fixed_dims shape) < 2 ^ 64"
  shows "ONNXDynamicModelLoader_Load \<lparr>ss_inputs = [(name, shape)], ss_outputs = outs\<rparr> = (True, single_loader name shape outs (- 1))"
proof -
  let ?s = "\<lparr>ss_inputs = [(name, shape)], ss_outputs = outs\<rparr>"
  obtain sizes where l: "ONNXDynamicModelLoader_Load ?s = (True, \<lparr>dl_in_names = [name], dl_dims = [shape], dl_out_names = outs,
      dl_dynamic_status = [True], dl_dynamic_index = [place_index shape], dl_size_in_1D = sizes\<rparr>)"
    "length sizes = 1" "uint (sizes ! 0) = size_1D (fixed_dims shape)"
    using Load_ok [of ?s] assms by (auto simp: prefix_dims_def)
  have "sizes ! 0 = word_of_int (size_1D (fixed_dims shape))" using l(3) by (metis word_of_int_uint)
  then have "sizes = [word_of_int (size_1D (fixed_dims shape))]" using l(2) by (cases sizes) auto
  moreover have "shape[dynamic_place shape := - 1] = shape"
    using dynamic_place_nth [OF assms(2)] list_update_id [of shape "dynamic_place shape"] by simp
  ultimately show ?thesis using l(1) assms(2) by (simp add: single_loader_def place_index_def)
qed

text \<open>C31: a task opened on a model with one input that has one dynamic dimension loads it with the dynamic
  loader, and each later \<open>Process\<close> (whatever the size of the batch before) on \<open>n\<close> rows of data runs
  the model on a tensor of exactly the shape that holds them, whose dimensions multiply to the
  length of the data, and emits what \<open>ParseInferenceResult\<close> makes of the outputs.\<close>

theorem OnnxTask_dynamic_batches:
  assumes "open_session path = Inr \<lparr>ss_inputs = [(name, shape)], ss_outputs = outs\<rparr>"
    and "shape_ok shape" "- 1 \<in> set shape" "prod_list (fixed_dims shape) < 2 ^ 64"
    and "input_at any_cast (ctx_inputs ctx) 0 = Inr (Some [data])" "length data = n * nat (prod_list (fixed_dims shape))" "n < 2147483648"
    and "create data (shape[dynamic_place shape := int n]) = Inr t" "run [name] [t] outs = Some ret" "parse_result ret = Inr d"
    and "c_data (ctx_outputs ctx) \<noteq> []" "\<not> os_closed (hd (c_data (ctx_outputs ctx)))" "os_good d"
  shows "OnnxTask_Open open_session path = Inr (0, Dynamic_Loader (single_loader name shape outs (- 1))) \<and>
    OnnxTask_Process any_cast create run parse_result (Dynamic_Loader (single_loader name shape outs v)) ctx =
      Inr (0, Dynamic_Loader (single_loader name shape outs (int n)), emitted d ctx) \<and>
    prod_list (shape[dynamic_place shape := int n]) = int (length data)"
proof -
  have "list_ex (\<lambda>d. d = - 1) shape" using assms(3) by (auto simp: list_ex_iff)
  then have "OnnxTask_Open open_session path = Inr (0, Dynamic_Loader (single_loader name shape outs (- 1)))"
    using assms(1) single_load [OF assms(2-4)] by (simp add: OnnxTask_Open_def parse_for_model_type_def)
  moreover have "Loader_Inference create run (Dynamic_Loader (single_loader name shape outs v)) [data] =
      Inr (Some ret, Dynamic_Loader (single_loader name shape outs (int n)))"
    using single_inference [OF assms(2-4,6,7), of create run name outs v] assms(8,9) by (simp add: Loader_Inference_def)
  then have "OnnxTask_Process any_cast create run parse_result (Dynamic_Loader (single_loader name shape outs v)) ctx =
      Inr (0, Dynamic_Loader (single_loader name shape outs (int n)), emitted d ctx)"
    using assms(5,10-13) by (cases "c_data (ctx_outputs ctx)")
      (simp_all add: OnnxTask_Process_def emitted_def c_at_def c_put_def os_AddDatum_open)
  moreover have "prod_list (shape[dynamic_place shape := int n]) = int (length data)"
  proof -
    have "0 < prod_list (fixed_dims shape)" using assms(2) by (intro prod_pos) (simp add: shape_ok_def)
    then show ?thesis using fill_dynamic [OF assms(3)] assms(2,6) by (simp add: shape_ok_def)
  qed
  ultimately show ?thesis by blast
qed

text \<open>A runtime that checks the shape, returns its input tensors, and whose results are passed on.\<close>

definition demo_create :: "int list \<Rightarrow> int list \<Rightarrow> (int list \<times> int list) outcome" where
  "demo_create data shape = (if prod_list shape = int (length data) then Inr (data, shape) else Inl Invalid_argument)"

definition demo_parse :: "(int list \<times> int list) list \<Rightarrow> (int list \<times> int list) list datum outcome" where
  "demo_parse ret = Inr (Datum_val 1 ret)"

definition onnx_inputs :: "'v \<Rightarrow> 'v input_stream collection" where
  "onnx_inputs v = \<lparr>c_tags = \<lparr>tm_data = plain_tags 1, tm_names = [''i''], tm_total = 1\<rparr>,
     c_data = [InputStream0\<lparr>is_queue := [Datum_ts v 1]\<rparr>]\<rparr>"

definition onnx_ctx :: "'v input_stream collection \<Rightarrow> 'v task_context" where
  "onnx_ctx ins = \<lparr>ctx_inputs = ins, ctx_outputs = \<lparr>c_tags = \<lparr>tm_data = plain_tags 1, tm_names = [''o''], tm_total = 1\<rparr>,
     c_data = [OutputStream0]\<rparr>, ctx_timestamps = []\<rparr>"

theorem OnnxTask_dynamic_batches_witness:
  "OnnxTask_Process (\<lambda>v. Some [fst (hd v)]) demo_create (\<lambda>_ ts _. Some ts) demo_parse
      (Dynamic_Loader (single_loader ''x'' [- 1, 3] [''y''] 7)) (onnx_ctx (onnx_inputs [([1, 2, 3, 4, 5, 6], [])])) =
    Inr (0, Dynamic_Loader (single_loader ''x'' [- 1, 3] [''y''] 2),
      emitted (Datum_val 1 [([1, 2, 3, 4, 5, 6], [2, 3])]) (onnx_ctx (onnx_inputs [([1, 2, 3, 4, 5, 6], [])])))"
proof -
  let ?ctx = "onnx_ctx (onnx_inputs [([1, 2, 3, 4, 5, 6 :: int], [] :: int list)])"
  let ?open = "\<lambda>p :: string. Inr \<lparr>ss_inputs = [(''x'', [- 1, 3])], ss_outputs = [''y'']\<rparr> :: session outcome"
  have p: "dynamic_place [- 1, 3] = 0" "fixed_dims [- 1, 3] = [3]" by (simp_all add: dynamic_place_def)
  have i: "input_at (\<lambda>v. Some [fst (hd v)]) (ctx_inputs ?ctx) 0 = Inr (Some [[1, 2, 3, 4, 5, 6]])" by code_simp
  have c: "demo_create [1, 2, 3, 4, 5, 6] [2, 3] = Inr ([1, 2, 3, 4, 5, 6], [2, 3])" by code_simp
  have o: "os_good (Datum_val 1 [([1, 2, 3, 4, 5, 6 :: int], [2, 3 :: int])])" by (simp add: os_good_def ts_defs)
  have s: "shape_ok [- 1, 3]" by (simp add: shape_ok_def)
  show ?thesis
    using OnnxTask_dynamic_batches [of ?open "''m''" "''x''" "[- 1, 3]" "[''y'']", OF refl s _ _ i, of 2 demo_create "([1, 2, 3, 4, 5, 6], [2, 3])"
        "\<lambda>_ ts _. Some ts" "[([1, 2, 3, 4, 5, 6], [2, 3])]" demo_parse "Datum_val 1 [([1, 2, 3, 4, 5, 6], [2, 3])]" 7] o c
    by (simp add: p demo_parse_def onnx_ctx_def OutputStream0_def)
qed

section \<open>Two dynamic inputs\<close>

text \<open>C40: the size of an input counts the fixed dimensions of the inputs before it too: in a model with two
  inputs of shapes \<open>[-1, a]\<close> and \<open>[-1, b]\<close>, given data for \<open>n\<close> rows of each, the loader makes the
  right tensor of the first input and gives the second \<open>n div a\<close> rows instead of \<open>n\<close>.\<close>

theorem ONNXDynamicModelLoader_second_input:
  assumes "0 < a" "0 < b" "a * b < 2 ^ 64" "length data1 = n * a" "length data2 = n * b" "n < 2147483648"
  shows "\<exists>l l'. ONNXDynamicModelLoader_Load \<lparr>ss_inputs = [(x, [- 1, int a]), (y, [- 1, int b])], ss_outputs = outs\<rparr> = (True, l) \<and>
    ONNXDynamicModelLoader_Inference create run l [data1, data2] =
      bindE (create data1 [int n, int a]) (\<lambda>t1. bindE (create data2 [int (n div a), int b]) (\<lambda>t2. Inr (run [x, y] [t1, t2] outs, l')))"
proof -
  let ?s = "\<lparr>ss_inputs = [(x, [- 1, int a]), (y, [- 1, int b])], ss_outputs = outs\<rparr>"
  have prod: "int a * int b < 2 ^ 64" using assms(3) by (metis of_nat_less_numeral_power_cancel_iff of_nat_mult)
  have ok: "shape_ok [- 1, int a]" "shape_ok [- 1, int b]" using assms(1,2) by (simp_all add: shape_ok_def)
  obtain sizes where l: "ONNXDynamicModelLoader_Load ?s = (True, \<lparr>dl_in_names = [x, y], dl_dims = [[- 1, int a], [- 1, int b]],
      dl_out_names = outs, dl_dynamic_status = [True, True], dl_dynamic_index = [0, 0], dl_size_in_1D = sizes\<rparr>)"
    and len: "length sizes = 2" and sz: "\<forall>i<2. uint (sizes ! i) = size_1D (prefix_dims (map snd (take (Suc i) (ss_inputs ?s))))"
    using Load_ok [of ?s] ok prod by (auto simp: prefix_dims_def place_index_def dynamic_place_def numeral_2_eq_2)
  have u: "uint (sizes ! 0) = int a" "uint (sizes ! 1) = int a * int b"
    using spec [OF sz, of 0] spec [OF sz, of 1] assms(1,2) by (simp_all add: prefix_dims_def size_1D_def)
  have nz: "sizes ! 0 \<noteq> 0" "sizes ! 1 \<noteq> 0" using u assms(1,2) by auto
  have "unat (sizes ! 0) = a" "unat (sizes ! 1) = a * b"
    using u by (simp_all add: unat_eq_nat_uint nat_mult_distrib)
  moreover have "n * b div (a * b) = n div a" using assms(2) by simp
  moreover have "n div a < 2147483648" using assms(6) div_le_dividend le_less_trans by blast
  ultimately have f: "fix_dim (sizes ! 0) (length data1) = int n" "fix_dim (sizes ! 1) (length data2) = int (n div a)"
    using nz assms(1,4-6) by (simp_all add: fix_dim_def int_of_size_small)
  let ?l = "\<lparr>dl_in_names = [x, y], dl_dims = [[int n, int a], [int (n div a), int b]],
      dl_out_names = outs, dl_dynamic_status = [True, True], dl_dynamic_index = [0, 0], dl_size_in_1D = sizes\<rparr>"
  have "ONNXDynamicModelLoader_Inference create run (snd (ONNXDynamicModelLoader_Load ?s)) [data1, data2] =
      bindE (create data1 [int n, int a]) (\<lambda>t1. bindE (create data2 [int (n div a), int b]) (\<lambda>t2. Inr (run [x, y] [t1, t2] outs, ?l)))"
    unfolding l by (simp add: ONNXDynamicModelLoader_Inference_def f [simplified] bindE_assoc)
  then show ?thesis using l by auto
qed

theorem ONNXDynamicModelLoader_second_input_witness:
  "\<exists>l. ONNXDynamicModelLoader_Load \<lparr>ss_inputs = [(''x'', [- 1, 3]), (''y'', [- 1, 2])], ss_outputs = [''o'']\<rparr> = (True, l) \<and>
    ONNXDynamicModelLoader_Inference demo_create (\<lambda>_ ts _. Some ts) l [replicate 12 1, replicate 8 1] = Inl Invalid_argument"
proof -
  have c: "demo_create (replicate 12 1) [4, 3] = Inr (replicate 12 1, [4, 3])" "demo_create (replicate 8 1) [1, 2] = Inl Invalid_argument"
    by (simp_all add: demo_create_def)
  have "(4::nat) div 3 = 1" by simp
  then show ?thesis
    using ONNXDynamicModelLoader_second_input [of 3 2 "replicate 12 1" 4 "replicate 8 1" "''x''" "''y''" "[''o'']" demo_create "\<lambda>_ ts _. Some ts"] c
    by auto
qed

end
