(* ===== verification/Packet_Bytes.thy ===== *)
theory Packet_Bytes
  imports Packet_Parse Onnx
begin

text \<open>
  Packets as pictures: \<open>samples/ddos/realtime_with_sccm_with_grpc/common/rb_data_mfr.cc\<close>, which writes the
  headers and the payload of a packet in hexadecimal, five packets to a string, and turns each string into
  the 40 by 40 input of a model; and what \<open>samples/dni/tasks/onnx/onnx_snding_mfr_1_fixed_model.cc\<close> adds to its
  own copy of that code. Reading a byte outside the buffer is undefined. Batch sizes are below
  \<open>2^31 / 5\<close>, so that \<open>batch_size * 5\<close> does not overflow.
\<close>

section \<open>Hexadecimal text\<close>

definition hexdigit :: "nat \<Rightarrow> char" where
  "hexdigit d = char_of (if d < 10 then 48 + d else 87 + d)"

text \<open>\<open>sstream << std::hex << v\<close>.\<close>

fun to_hex :: "nat \<Rightarrow> string" where
  "to_hex n = (if n < 16 then [hexdigit n] else to_hex (n div 16) @ [hexdigit (n mod 16)])"

declare to_hex.simps [simp del]

definition num2hexstring :: "string \<Rightarrow> nat \<Rightarrow> string" where
  "num2hexstring tmp hex_string_len = replicate (hex_string_len - length tmp) CHR ''0'' @ tmp"

abbreviation hex_out :: "nat \<Rightarrow> u32 \<Rightarrow> string" where
  "hex_out n v \<equiv> num2hexstring (to_hex (unat v)) n"

section \<open>Header fields\<close>

fun catE :: "string outcome list \<Rightarrow> string outcome" where
  "catE [] = Inr []"
| "catE (x # xs) = bindE x (\<lambda>s. bindE (catE xs) (\<lambda>t. Inr (s @ t)))"

definition byte_hex :: "bytes \<Rightarrow> nat \<Rightarrow> string outcome" where
  "byte_hex mem p = bindE (byte_at mem p) (\<lambda>b. Inr (hex_out 2 b))"

definition half_hex :: "bytes \<Rightarrow> nat \<Rightarrow> string outcome" where
  "half_hex mem p = bindE (be16_at mem p) (\<lambda>v. Inr (hex_out 4 v))"

definition word_hex :: "bytes \<Rightarrow> nat \<Rightarrow> string outcome" where
  "word_hex mem p = bindE (be32_at mem p) (\<lambda>v. Inr (hex_out 8 v))"

text \<open>Two bit fields of a byte, the higher first.\<close>

definition nibbles_hex :: "bytes \<Rightarrow> nat \<Rightarrow> string outcome" where
  "nibbles_hex mem p = bindE (byte_at mem p) (\<lambda>b. Inr (hex_out 1 (drop_bit 4 b AND 15) @ hex_out 1 (b AND 15)))"

text \<open>An address, byte by byte.\<close>

definition addr_hex :: "bytes \<Rightarrow> nat \<Rightarrow> string outcome" where
  "addr_hex mem p = bindE (be32_at mem p) (\<lambda>ip. Inr (hex_out 2 (drop_bit 24 ip AND 255) @ hex_out 2 (drop_bit 16 ip AND 255) @
     hex_out 2 (drop_bit 8 ip AND 255) @ hex_out 2 (ip AND 255)))"

text \<open>The flags of a TCP header: \<open>fin\<close> is the lowest bit of the byte, \<open>res2\<close> the two highest.\<close>

definition flag :: "u32 \<Rightarrow> nat \<Rightarrow> u32" where
  "flag b i = drop_bit i b AND 1"

definition flags_hex :: "bytes \<Rightarrow> nat \<Rightarrow> string outcome" where
  "flags_hex mem p = bindE (byte_at mem p) (\<lambda>b. Inr (
     hex_out 1 (push_bit 2 (drop_bit 6 b AND 3) OR push_bit 1 (flag b 5) OR flag b 4) @
     hex_out 1 (push_bit 3 (flag b 3) OR push_bit 2 (flag b 2) OR push_bit 1 (flag b 1) OR flag b 0)))"

text \<open>A loop over \<open>n\<close> bytes, each in two digits; it has no other exit, so it reads them all or leaves the
  buffer.\<close>

definition hexdump :: "bytes \<Rightarrow> string" where
  "hexdump bs = concat (map (\<lambda>b. hex_out 2 (ucast b)) bs)"

definition bytes_hex :: "bytes \<Rightarrow> nat \<Rightarrow> nat \<Rightarrow> string outcome" where
  "bytes_hex mem p n = (if 0 < n \<and> length mem < p + n then Inl Undefined else Inr (hexdump (take n (drop p mem))))"

section \<open>A packet\<close>

definition ip_fields :: "bytes \<Rightarrow> nat \<Rightarrow> string outcome" where
  "ip_fields mem ip = catE [nibbles_hex mem ip, byte_hex mem (ip + 1), half_hex mem (ip + 2), half_hex mem (ip + 4), half_hex mem (ip + 6),
     byte_hex mem (ip + 8), byte_hex mem (ip + 9), half_hex mem (ip + 10), addr_hex mem (ip + 12), addr_hex mem (ip + 16)]"

text \<open>The lengths of the options: \<open>int\<close> compared with \<open>size_t\<close> for IP, \<open>uint16_t\<close> for TCP. A header length
  below the minimum makes them huge.\<close>

definition ip_option_len :: "nat \<Rightarrow> nat" where
  "ip_option_len ip_hl = unat (word_of_int (int (ip_hl * 4) - 20) :: u64)"

definition tcp_option_len :: "nat \<Rightarrow> nat" where
  "tcp_option_len doff = unat (word_of_int (int (doff * 4) - 20) :: u16)"

definition tcp_fields :: "bytes \<Rightarrow> nat \<Rightarrow> string outcome" where
  "tcp_fields mem tcp = catE [half_hex mem tcp, half_hex mem (tcp + 2), word_hex mem (tcp + 4), word_hex mem (tcp + 8), nibbles_hex mem (tcp + 12),
     flags_hex mem (tcp + 13), half_hex mem (tcp + 14), half_hex mem (tcp + 16), half_hex mem (tcp + 18)]"

definition udp_fields :: "bytes \<Rightarrow> nat \<Rightarrow> string outcome" where
  "udp_fields mem udp = catE [half_hex mem udp, half_hex mem (udp + 2), half_hex mem (udp + 4), half_hex mem (udp + 6)]"

definition icmp_fields :: "bytes \<Rightarrow> nat \<Rightarrow> string outcome" where
  "icmp_fields mem icmp = catE [byte_hex mem icmp, byte_hex mem (icmp + 1), half_hex mem (icmp + 2), half_hex mem (icmp + 4), half_hex mem (icmp + 6)]"

text \<open>The text of the transport header and its length in bytes.\<close>

definition transport_hex :: "bytes \<Rightarrow> nat \<Rightarrow> u32 \<Rightarrow> (string \<times> nat) outcome" where
  "transport_hex mem l4 proto =
     (if proto = 6 then bindE (byte_at mem (l4 + 12)) (\<lambda>b. let doff = unat (drop_bit 4 b) in
        bindE (catE [tcp_fields mem l4, bytes_hex mem (l4 + 20) (tcp_option_len doff)]) (\<lambda>s. Inr (s, doff * 4)))
      else if proto = 17 then bindE (udp_fields mem l4) (\<lambda>s. Inr (s, 8))
      else if proto = 1 then bindE (icmp_fields mem l4) (\<lambda>s. Inr (s, 8))
      else Inr ([], 0))"

definition fit_header :: "string \<Rightarrow> string" where
  "fit_header mfr_header = (if 160 < length mfr_header then take 160 mfr_header
     else mfr_header @ replicate (160 - length mfr_header) CHR ''0'')"

definition payload_hex :: "bytes \<Rightarrow> nat \<Rightarrow> u64 \<Rightarrow> string outcome" where
  "payload_hex mem data data_len = (if 240 \<le> data_len then bytes_hex mem data 240
     else bindE (bytes_hex mem data (unat data_len)) (\<lambda>mfr_payload. Inr (mfr_payload @ replicate (480 - unat data_len * 2) CHR ''0'')))"

text \<open>The string one packet adds to the list. \<open>data_len\<close> is computed modulo \<open>2^64\<close>.\<close>

definition parse_mfr :: "bytes \<Rightarrow> nat \<Rightarrow> nat \<Rightarrow> string outcome" where
  "parse_mfr mem body pkt_len = bindE (parse_ethtype_vlan mem body) (\<lambda>(rc, h_proto, l3_off).
     if rc \<noteq> 0 \<or> h_proto \<noteq> 0x0800
     then bindE (payload_hex mem body (of_nat pkt_len)) (\<lambda>mfr_payload. Inr (replicate 160 CHR ''0'' @ mfr_payload))
     else let ip = body + l3_off in
       bindE (ip_fields mem ip) (\<lambda>fields. bindE (byte_at mem ip) (\<lambda>vhl. let ip_hl = unat (vhl AND 15) in
       bindE (bytes_hex mem (ip + 20) (ip_option_len ip_hl)) (\<lambda>options. bindE (byte_at mem (ip + 9)) (\<lambda>proto.
       bindE (transport_hex mem (ip + ip_hl * 4) proto) (\<lambda>(transport, len).
       bindE (payload_hex mem (ip + ip_hl * 4 + len) (of_nat pkt_len - 14 - of_nat (ip_hl * 4) - of_nat len)) (\<lambda>mfr_payload.
         Inr (fit_header (fields @ options @ transport) @ mfr_payload))))))))"

section \<open>A batch\<close>

text \<open>The copy that reads a ring buffer first prints the bytes of the packet, which reads them all.\<close>

definition parse_rb_mfr :: "bytes \<Rightarrow> nat \<Rightarrow> nat \<Rightarrow> string outcome" where
  "parse_rb_mfr mem body pkt_len = bindE (bytes_hex mem body pkt_len) (\<lambda>_. parse_mfr mem body pkt_len)"

fun mfr_loop :: "nat \<Rightarrow> bytes \<Rightarrow> nat \<Rightarrow> u32 \<Rightarrow> string list \<Rightarrow> string list outcome" where
  "mfr_loop 0 mem data pkt_len analysis_mfr_data = Inr analysis_mfr_data"
| "mfr_loop (Suc n) mem data pkt_len analysis_mfr_data =
     (let data = data + 2 in
      bindE (parse_rb_mfr mem data (unat pkt_len)) (\<lambda>s.
      let data = data + unat pkt_len in
      bindE (le16_at mem data) (\<lambda>pkt_len. mfr_loop n mem data pkt_len (analysis_mfr_data @ [s]))))"

text \<open>Five packets to a string, then strings of zeros up to the batch size.\<close>

definition make_batches :: "int \<Rightarrow> string list \<Rightarrow> string list" where
  "make_batches batch_size analysis_mfr_data = (let real_batch_size = length analysis_mfr_data div 5 in
     map (\<lambda>i. concat (take 5 (drop (i * 5) analysis_mfr_data))) [0..<real_batch_size] @
     replicate (nat (batch_size - int real_batch_size)) (replicate 3200 CHR ''0''))"

text \<open>\<open>reserve\<close> of a negative size throws.\<close>

definition get_mfr_bytes :: "bytes \<Rightarrow> nat \<Rightarrow> u32 \<Rightarrow> int \<Rightarrow> string list outcome" where
  "get_mfr_bytes mem pktsdata pkts_cnt batch_size =
     (if batch_size < 0 then Inl Length_error
      else let need_parse_cnt = (if batch_size * 5 \<le> int (unat pkts_cnt) then batch_size * 5 else int (unat pkts_cnt)) in
        bindE (le16_at mem pktsdata) (\<lambda>pkt_len. bindE (mfr_loop (nat need_parse_cnt) mem pktsdata pkt_len []) (\<lambda>analysis_mfr_data.
          Inr (make_batches batch_size analysis_mfr_data))))"

section \<open>The input of the model\<close>

definition isxdigit :: "char \<Rightarrow> bool" where
  "isxdigit c \<longleftrightarrow> isdigit c \<or> (97 \<le> (of_char c :: nat) \<and> (of_char c :: nat) \<le> 102) \<or> (65 \<le> (of_char c :: nat) \<and> (of_char c :: nat) \<le> 70)"

definition hexdigit_val :: "char \<Rightarrow> nat" where
  "hexdigit_val c = (let n = of_char c in if n \<le> 57 then n - 48 else if n \<le> 70 then n - 55 else n - 87)"

definition hex_val :: "string \<Rightarrow> nat" where
  "hex_val s = foldl (\<lambda>a c. 16 * a + hexdigit_val c) 0 s"

text \<open>\<open>std::stoul(s, 0, 16)\<close>: blanks, a sign, an optional \<open>0x\<close>, then digits.\<close>

definition stoul16 :: "string \<Rightarrow> u64 outcome" where
  "stoul16 s =
     (let t = dropWhile isspace s;
          neg = (t \<noteq> [] \<and> hd t = CHR ''-'');
          u = (if t \<noteq> [] \<and> (hd t = CHR ''-'' \<or> hd t = CHR ''+'') then tl t else t);
          v = (if 2 < length u \<and> hd u = CHR ''0'' \<and> (u ! 1 = CHR ''x'' \<or> u ! 1 = CHR ''X'') \<and> isxdigit (u ! 2) then drop 2 u else u);
          ds = takeWhile isxdigit v
      in if ds = [] then Inl Invalid_argument
         else if 18446744073709551615 < hex_val ds then Inl Out_of_range
         else Inr (if neg then - of_nat (hex_val ds) else of_nat (hex_val ds)))"

text \<open>The conversion to \<open>float\<close>: 24 bits of precision.\<close>

definition round32 :: "rat \<Rightarrow> double" where
  "round32 q =
     (if q = 0 then Fin 0
      else let e = max (lead_exp \<bar>q\<bar>) (- 126) - 23; m = round_half_even (q / pow2 e) in
        if 104 < e \<or> e = 104 \<and> 16777216 \<le> \<bar>m\<bar> then (if 0 < q then PInf else NInf)
        else Fin (of_int m * pow2 e))"

definition to_float :: "double \<Rightarrow> double" where
  "to_float x = (case x of Fin q \<Rightarrow> round32 q | _ \<Rightarrow> x)"

text \<open>\<open>(v / 255.0 - 0.5) / 0.5\<close>.\<close>

definition ddiv_const :: "double \<Rightarrow> rat \<Rightarrow> double" where
  "ddiv_const x c = (case x of Fin q \<Rightarrow> round64 (q / c) | _ \<Rightarrow> x)"

definition pixel :: "u64 \<Rightarrow> double" where
  "pixel v = to_float (ddiv_const (dsub (ddiv_const (double_of_int (uint v)) 255) (Fin (1 / 2))) (1 / 2))"

text \<open>\<open>mfr_item.substr(pos, 2)\<close> of the pixels in turn; the list of floats is what \<open>model_np_list\<close> points to.\<close>

fun fill_pixels :: "nat \<Rightarrow> string \<Rightarrow> nat \<Rightarrow> nat \<Rightarrow> double list \<Rightarrow> double list outcome" where
  "fill_pixels 0 mfr_item pos at_p model_np_list = Inr model_np_list"
| "fill_pixels (Suc n) mfr_item pos at_p model_np_list =
     (if length mfr_item < pos then Inl Out_of_range
      else bindE (stoul16 (take 2 (drop pos mfr_item))) (\<lambda>v.
        if length model_np_list \<le> at_p then Inl Undefined
        else fill_pixels n mfr_item (pos + 2) (at_p + 1) (model_np_list[at_p := pixel v])))"

fun get_model_input :: "string list \<Rightarrow> nat \<Rightarrow> double list \<Rightarrow> double list outcome" where
  "get_model_input [] dim0_index model_np_list = Inr model_np_list"
| "get_model_input (mfr_item # mfr_bytes_list) dim0_index model_np_list =
     bindE (fill_pixels 1600 mfr_item 0 (dim0_index * 1600) model_np_list) (get_model_input mfr_bytes_list (dim0_index + 1))"

section \<open>Digits\<close>

fun hex_digits :: "nat \<Rightarrow> nat \<Rightarrow> string" where
  "hex_digits 0 v = []"
| "hex_digits (Suc n) v = hex_digits n (v div 16) @ [hexdigit (v mod 16)]"

definition is_hex :: "char \<Rightarrow> bool" where
  "is_hex c \<longleftrightarrow> isdigit c \<or> (97 \<le> (of_char c :: nat) \<and> (of_char c :: nat) \<le> 102)"

lemma is_hex_hexdigit [simp]: "d < 16 \<Longrightarrow> is_hex (hexdigit d)"
  by (auto simp: is_hex_def hexdigit_def isdigit_def)

lemma hexdigit_val_hexdigit [simp]: "d < 16 \<Longrightarrow> hexdigit_val (hexdigit d) = d"
  by (simp add: hexdigit_val_def hexdigit_def Let_def)

lemma hexdigit_0: "hexdigit 0 = CHR ''0''"
  by code_simp

lemma hex_digits_0: "hex_digits n 0 = replicate n CHR ''0''"
  by (induction n) (simp_all add: hexdigit_0 flip: replicate_append_same)

lemma length_hex_digits [simp]: "length (hex_digits n v) = n"
  by (induction n arbitrary: v) simp_all

lemma is_hex_digits: "list_all is_hex (hex_digits n v)"
  by (induction n arbitrary: v) simp_all

lemma hex_digits_append: "hex_digits (m + n) (a * 16 ^ n + b) = hex_digits m a @ hex_digits n b" if "b < 16 ^ n"
  using that
proof (induction n arbitrary: b)
  case (Suc n)
  have "b div 16 < 16 ^ n" using Suc.prems by (simp add: less_mult_imp_div_less mult.commute)
  moreover have "(a * 16 ^ Suc n + b) div 16 = a * 16 ^ n + b div 16" by (simp add: div_add1_eq mult.assoc)
  moreover have "a * 16 ^ Suc n + b = b + 16 * (a * 16 ^ n)" by simp
  then have "(a * 16 ^ Suc n + b) mod 16 = b mod 16" by (simp only: mod_mult_self2)
  ultimately show ?case using Suc.IH by simp
qed simp

text \<open>A number that fits is printed in exactly \<open>n\<close> digits.\<close>

lemma num2hexstring_digits: "0 < n \<Longrightarrow> v < 16 ^ n \<Longrightarrow> num2hexstring (to_hex v) n = hex_digits n v"
proof (induction v arbitrary: n rule: to_hex.induct)
  case (1 v)
  obtain k where n: "n = Suc k" using "1.prems"(1) by (cases n) auto
  show ?case
  proof (cases "v < 16")
    case True
    then show ?thesis by (simp add: n to_hex.simps num2hexstring_def hex_digits_0)
  next
    case False
    have k: "0 < k" using False "1.prems"(2) n by (cases k) auto
    have small: "v div 16 < 16 ^ k" using "1.prems"(2) by (simp add: n less_mult_imp_div_less mult.commute)
    have "num2hexstring (to_hex (v div 16)) k = hex_digits k (v div 16)" using False k small by (intro "1.IH")
    moreover have "to_hex v = to_hex (v div 16) @ [hexdigit (v mod 16)]" using False by (subst to_hex.simps) simp
    ultimately show ?thesis by (simp add: n num2hexstring_def)
  qed
qed

lemma hex_out_digits: "0 < n \<Longrightarrow> unat v < 16 ^ n \<Longrightarrow> hex_out n v = hex_digits n (unat v)"
  by (rule num2hexstring_digits)

lemma byte_val: "unat (ucast (b :: 8 word) :: u32) = unat b" "unat b < 256"
proof -
  show u: "unat b < 256" using unsigned_less [where ?'a = nat and w = b] by simp
  then show "unat (ucast (b :: 8 word) :: u32) = unat b" by (simp only: unat_ucast_mod) simp
qed

lemma hex_byte: "hex_out 2 (ucast (b :: 8 word)) = hex_digits 2 (unat b)"
  unfolding byte_val by (rule num2hexstring_digits) (use byte_val(2) [of b] in simp_all)

lemma hexdump_simps [simp]:
  "hexdump [] = []" "hexdump (b # bs) = hex_digits 2 (unat b) @ hexdump bs" "hexdump (xs @ ys) = hexdump xs @ hexdump ys"
  unfolding hexdump_def hex_byte by simp_all

lemma length_hexdump [simp]: "length (hexdump bs) = 2 * length bs"
  by (induction bs) simp_all

lemma is_hex_hexdump: "list_all is_hex (hexdump bs)"
  by (induction bs) (simp_all add: is_hex_digits del: hex_digits.simps)

section \<open>Fields are their bytes\<close>

text \<open>The bytes from \<open>p\<close> on.\<close>

definition slice :: "bytes \<Rightarrow> nat \<Rightarrow> nat \<Rightarrow> bytes" where
  "slice mem p n = take n (drop p mem)"

lemma slice_add: "slice mem p (m + n) = slice mem p m @ slice mem (p + m) n"
  by (simp add: slice_def take_add add.commute)

lemma slice_1: "p < length mem \<Longrightarrow> slice mem p 1 = [mem ! p]"
  by (simp add: slice_def take_Suc_conv_app_nth hd_drop_conv_nth)

lemma byte_hex_slice: "p + 1 \<le> length mem \<Longrightarrow> byte_hex mem p = Inr (hexdump (slice mem p 1))"
  by (simp only: byte_hex_def byte_at_def hex_byte slice_1 if_True bindE_simps hexdump_simps append_Nil2 flip: Suc_le_eq Suc_eq_plus1)

lemma half_hex_slice:
  assumes "p + 2 \<le> length mem"
  shows "half_hex mem p = Inr (hexdump (slice mem p 2))"
proof -
  let ?h = "mem ! p" and ?l = "mem ! (p + 1)"
  have s: "slice mem p 2 = [?h, ?l]"
    using slice_add [of mem p 1 1] slice_1 [of p mem] slice_1 [of "p + 1" mem] assms by (simp add: numeral_2_eq_2)
  have r: "be16_at mem p = Inr (256 * ucast ?h + ucast ?l)" using assms by (simp add: be16_at_def byte_at_def)
  have u: "unat (256 * ucast ?h + ucast ?l :: u32) = unat ?h * 16 ^ 2 + unat ?l"
    using byte_val [of ?h] byte_val [of ?l] by (simp add: unat_word_ariths del: unsigned_ucast_eq)
  have "hex_out 4 (256 * ucast ?h + ucast ?l) = hex_digits (2 + 2) (unat ?h * 16 ^ 2 + unat ?l)"
    using u byte_val [of ?h] byte_val [of ?l] by (subst hex_out_digits) (simp_all del: hex_digits.simps)
  also have "\<dots> = hex_digits 2 (unat ?h) @ hex_digits 2 (unat ?l)" by (rule hex_digits_append) (use byte_val [of ?l] in simp)
  finally show ?thesis by (simp add: half_hex_def r s del: hex_digits.simps)
qed

lemma hex_digits_split: "hex_digits (m + n) v = hex_digits m (v div 16 ^ n) @ hex_digits n v"
  by (induction n arbitrary: v) (simp_all add: div_mult2_eq)

lemma hex_digits_mod: "hex_digits n (v mod 16 ^ n) = hex_digits n v"
proof -
  have "v div 16 ^ n * 16 ^ n + v mod 16 ^ n = v" by (rule div_mult_mod_eq)
  then have "hex_digits (0 + n) v = hex_digits 0 (v div 16 ^ n) @ hex_digits n (v mod 16 ^ n)"
    using hex_digits_append [of "v mod 16 ^ n" n 0 "v div 16 ^ n"] by simp
  then show ?thesis by simp
qed

lemma unat_field: "unat (drop_bit k v AND mask n :: u32) = unat v div 2 ^ k mod 2 ^ n"
  unfolding take_bit_eq_mask [symmetric] unsigned_take_bit_eq unat_drop_bit_eq by (simp only: take_bit_eq_mod drop_bit_eq_div)

lemma hex_field:
  assumes "0 < n"
  shows "hex_out n (drop_bit k v AND mask (4 * n)) = hex_digits n (unat v div 2 ^ k)"
proof -
  have p: "(16::nat) ^ n = 2 ^ (4 * n)" by (simp add: power_mult)
  have "hex_out n (drop_bit k v AND mask (4 * n)) = hex_digits n (unat v div 2 ^ k mod 16 ^ n)"
    unfolding unat_field p [symmetric] using assms by (intro num2hexstring_digits) simp_all
  then show ?thesis by (simp only: hex_digits_mod)
qed

lemma masks4: "(15 :: u32) = mask (4 * 1)" "(255 :: u32) = mask (4 * 2)"
  by (simp_all add: mask_eq_exp_minus_1)

lemma nibbles_hex_slice:
  assumes "p + 1 \<le> length mem"
  shows "nibbles_hex mem p = Inr (hexdump (slice mem p 1))"
proof -
  let ?b = "ucast (mem ! p) :: u32"
  have lo: "hex_out 1 (?b AND 15) = hex_digits 1 (unat ?b)"
    using hex_field [of 1 0 ?b] by (simp only: masks4) simp
  have hi: "hex_out 1 (drop_bit 4 ?b AND 15) = hex_digits 1 (unat ?b div 16 ^ 1)"
    using hex_field [of 1 4 ?b] by (simp only: masks4) simp
  have "hex_out 1 (drop_bit 4 ?b AND 15) @ hex_out 1 (?b AND 15) = hex_digits 2 (unat (mem ! p))"
    unfolding lo hi hex_digits_split [symmetric] byte_val(1) by (simp only: one_add_one)
  then show ?thesis using assms
    by (simp only: nibbles_hex_def byte_at_def slice_1 if_True bindE_simps hexdump_simps append_Nil2 flip: Suc_le_eq Suc_eq_plus1)
qed

lemma flags_nibbles:
  fixes b :: u32
  shows "push_bit 2 (drop_bit 6 b AND 3) OR push_bit 1 (flag b 5) OR flag b 4 = drop_bit 4 b AND 15"
    and "push_bit 3 (flag b 3) OR push_bit 2 (flag b 2) OR push_bit 1 (flag b 1) OR flag b 0 = b AND 15"
proof -
  have m: "(3 :: u32) = mask 2" "(1 :: u32) = mask 1" "(15 :: u32) = mask 4" by (simp_all add: mask_eq_exp_minus_1)
  have four: "n = 0 \<or> n = 1 \<or> n = 2 \<or> n = 3 \<or> 4 \<le> n" for n :: nat by linarith
  show "push_bit 2 (drop_bit 6 b AND 3) OR push_bit 1 (flag b 5) OR flag b 4 = drop_bit 4 b AND 15"
    unfolding flag_def m
  proof (rule bit_word_eqI)
    fix n assume "n < LENGTH(32)"
    then show "bit (push_bit 2 (drop_bit 6 b AND mask 2) OR push_bit 1 (drop_bit 5 b AND mask 1) OR drop_bit 4 b AND mask 1) n \<longleftrightarrow>
        bit (drop_bit 4 b AND mask 4) n"
      using four [of n] unfolding bit_or_iff bit_and_iff bit_push_bit_iff bit_drop_bit_eq bit_mask_iff comp_apply by (elim disjE) auto
  qed
  show "push_bit 3 (flag b 3) OR push_bit 2 (flag b 2) OR push_bit 1 (flag b 1) OR flag b 0 = b AND 15"
    unfolding flag_def m
  proof (rule bit_word_eqI)
    fix n assume "n < LENGTH(32)"
    then show "bit (push_bit 3 (drop_bit 3 b AND mask 1) OR push_bit 2 (drop_bit 2 b AND mask 1) OR
        push_bit 1 (drop_bit 1 b AND mask 1) OR drop_bit 0 b AND mask 1) n \<longleftrightarrow> bit (b AND mask 4) n"
      using four [of n] unfolding bit_or_iff bit_and_iff bit_push_bit_iff bit_drop_bit_eq bit_mask_iff comp_apply by (elim disjE) auto
  qed
qed

text \<open>The flags are regrouped into the byte they come from.\<close>

lemma flags_hex_slice: "p + 1 \<le> length mem \<Longrightarrow> flags_hex mem p = Inr (hexdump (slice mem p 1))"
  using nibbles_hex_slice [of p mem] by (simp only: flags_hex_def nibbles_hex_def flags_nibbles)

lemma word_hex_slice:
  assumes "p + 4 \<le> length mem"
  shows "word_hex mem p = Inr (hexdump (slice mem p 4))"
proof -
  have ok: "p + 2 \<le> length mem" "(p + 2) + 2 \<le> length mem" using assms by simp_all
  have half: "\<exists>v. be16_at mem q = Inr v \<and> unat v < 65536 \<and> hex_digits 4 (unat v) = hexdump (slice mem q 2)" if q: "q + 2 \<le> length mem" for q
  proof -
    let ?v = "256 * ucast (mem ! q) + ucast (mem ! (q + 1)) :: u32"
    have r: "be16_at mem q = Inr ?v" using q by (simp add: be16_at_def byte_at_def)
    have u: "unat ?v < 65536"
      using byte_val [of "mem ! q"] byte_val [of "mem ! (q + 1)"] by (simp add: unat_word_ariths del: unsigned_ucast_eq)
    then have "hex_out 4 ?v = hex_digits 4 (unat ?v)" by (intro num2hexstring_digits) simp_all
    then have "hex_digits 4 (unat ?v) = hexdump (slice mem q 2)" using half_hex_slice [OF q] by (simp only: half_hex_def r bindE_simps sum.inject)
    then show ?thesis using r u by blast
  qed
  obtain h where h: "be16_at mem p = Inr h" "unat h < 65536" "hex_digits 4 (unat h) = hexdump (slice mem p 2)" using half [OF ok(1)] by blast
  obtain l where l: "be16_at mem (p + 2) = Inr l" "unat l < 65536" "hex_digits 4 (unat l) = hexdump (slice mem (p + 2) 2)" using half [OF ok(2)] by blast
  have u: "unat (65536 * h + l) = unat h * 16 ^ 4 + unat l" using h(2) l(2) by (simp add: unat_word_ariths)
  have "hex_out 8 (65536 * h + l) = hex_digits (4 + 4) (unat h * 16 ^ 4 + unat l)"
    using u h(2) l(2) by (subst hex_out_digits) (simp_all del: hex_digits.simps)
  also have "\<dots> = hex_digits 4 (unat h) @ hex_digits 4 (unat l)" by (rule hex_digits_append) (use l(2) in simp)
  also have "\<dots> = hexdump (slice mem p (2 + 2))" unfolding slice_add h(3) l(3) by simp
  finally show ?thesis by (simp add: word_hex_def be32_at_def h(1) l(1) del: hex_digits.simps add_2_eq_Suc')
qed

lemma addr_hex_slice:
  assumes "p + 4 \<le> length mem"
  shows "addr_hex mem p = Inr (hexdump (slice mem p 4))"
proof -
  obtain ip where ip: "be32_at mem p = Inr ip" using word_hex_slice [OF assms] by (cases "be32_at mem p") (simp_all add: word_hex_def)
  have f: "hex_out 2 (drop_bit k ip AND 255) = hex_digits 2 (unat ip div 2 ^ k)" for k
    using hex_field [of 2 k ip] by (simp only: masks4)
  have "unat ip < 16 ^ 8" using unsigned_less [where ?'a = nat and w = ip] by simp
  then have "hex_out 8 ip = hex_digits (2 + (2 + (2 + 2))) (unat ip)" by (subst hex_out_digits) (simp_all del: hex_digits.simps)
  also have "\<dots> = hex_digits 2 (unat ip div 2 ^ 24) @ hex_digits 2 (unat ip div 2 ^ 16) @ hex_digits 2 (unat ip div 2 ^ 8) @ hex_digits 2 (unat ip)"
    by (simp only: hex_digits_split) simp
  also have "\<dots> = hex_out 2 (drop_bit 24 ip AND 255) @ hex_out 2 (drop_bit 16 ip AND 255) @ hex_out 2 (drop_bit 8 ip AND 255) @ hex_out 2 (ip AND 255)"
    using f [of 0] by (simp add: f del: hex_digits.simps)
  finally show ?thesis using word_hex_slice [OF assms] by (simp only: addr_hex_def word_hex_def ip bindE_simps)
qed

lemma bytes_hex_slice: "p + n \<le> length mem \<Longrightarrow> bytes_hex mem p n = Inr (hexdump (slice mem p n))"
  by (simp add: bytes_hex_def slice_def)

lemmas field_slices = byte_hex_slice half_hex_slice word_hex_slice addr_hex_slice nibbles_hex_slice flags_hex_slice

lemma slice_split: "m \<le> n \<Longrightarrow> hexdump (slice mem p n) = hexdump (slice mem p m) @ hexdump (slice mem (p + m) (n - m))"
  using slice_add [of mem p m "n - m"] by simp

text \<open>The fields of each header, in order, are its bytes.\<close>

lemma ip_fields_slice:
  assumes "ip + 20 \<le> length mem"
  shows "ip_fields mem ip = Inr (hexdump (slice mem ip 20))"
proof -
  have "ip_fields mem ip = Inr (hexdump (slice mem ip 1) @ hexdump (slice mem (ip + 1) 1) @ hexdump (slice mem (ip + 2) 2) @
      hexdump (slice mem (ip + 4) 2) @ hexdump (slice mem (ip + 6) 2) @ hexdump (slice mem (ip + 8) 1) @ hexdump (slice mem (ip + 9) 1) @
      hexdump (slice mem (ip + 10) 2) @ hexdump (slice mem (ip + 12) 4) @ hexdump (slice mem (ip + 16) 4))"
    using assms unfolding ip_fields_def by (simp add: field_slices del: One_nat_def add_2_eq_Suc')
  also have "\<dots> = Inr (hexdump (slice mem ip (1 + (1 + (2 + (2 + (2 + (1 + (1 + (2 + (4 + 4)))))))))))"
    unfolding slice_add hexdump_simps by (simp add: add.assoc del: One_nat_def add_2_eq_Suc')
  finally show ?thesis by simp
qed

lemma tcp_fields_slice:
  assumes "p + 20 \<le> length mem"
  shows "tcp_fields mem p = Inr (hexdump (slice mem p 20))"
proof -
  have "tcp_fields mem p = Inr (hexdump (slice mem p 2) @ hexdump (slice mem (p + 2) 2) @ hexdump (slice mem (p + 4) 4) @
      hexdump (slice mem (p + 8) 4) @ hexdump (slice mem (p + 12) 1) @ hexdump (slice mem (p + 13) 1) @ hexdump (slice mem (p + 14) 2) @
      hexdump (slice mem (p + 16) 2) @ hexdump (slice mem (p + 18) 2))"
    using assms unfolding tcp_fields_def by (simp add: field_slices del: One_nat_def add_2_eq_Suc')
  also have "\<dots> = Inr (hexdump (slice mem p (2 + (2 + (4 + (4 + (1 + (1 + (2 + (2 + 2))))))))))"
    unfolding slice_add hexdump_simps by (simp add: add.assoc del: One_nat_def add_2_eq_Suc')
  finally show ?thesis by simp
qed

lemma udp_icmp_fields_slice:
  assumes "p + 8 \<le> length mem"
  shows "udp_fields mem p = Inr (hexdump (slice mem p 8))" "icmp_fields mem p = Inr (hexdump (slice mem p 8))"
proof -
  have "udp_fields mem p = Inr (hexdump (slice mem p 2) @ hexdump (slice mem (p + 2) 2) @ hexdump (slice mem (p + 4) 2) @ hexdump (slice mem (p + 6) 2))"
    using assms unfolding udp_fields_def by (simp add: field_slices del: One_nat_def add_2_eq_Suc')
  also have "\<dots> = Inr (hexdump (slice mem p (2 + (2 + (2 + 2)))))" unfolding slice_add hexdump_simps by (simp add: add.assoc del: One_nat_def add_2_eq_Suc')
  finally show "udp_fields mem p = Inr (hexdump (slice mem p 8))" by simp
  have "icmp_fields mem p = Inr (hexdump (slice mem p 1) @ hexdump (slice mem (p + 1) 1) @ hexdump (slice mem (p + 2) 2) @ hexdump (slice mem (p + 4) 2) @
      hexdump (slice mem (p + 6) 2))"
    using assms unfolding icmp_fields_def by (simp add: field_slices del: One_nat_def add_2_eq_Suc')
  also have "\<dots> = Inr (hexdump (slice mem p (1 + (1 + (2 + (2 + 2))))))" unfolding slice_add hexdump_simps by (simp add: add.assoc del: One_nat_def add_2_eq_Suc')
  finally show "icmp_fields mem p = Inr (hexdump (slice mem p 8))" by simp
qed

section \<open>A packet is its hex dump\<close>

text \<open>The length of the transport header of a packet: TCP gives its own, an unknown protocol has none.\<close>

definition l4_len :: "bytes \<Rightarrow> nat \<Rightarrow> nat" where
  "l4_len mem l4 = unat (drop_bit 4 (ucast (mem ! (l4 + 12)) :: u32)) * 4"

definition transport_len :: "bytes \<Rightarrow> nat \<Rightarrow> 8 word \<Rightarrow> nat" where
  "transport_len mem l4 proto = (if proto = 6 then l4_len mem l4 else if proto = 17 \<or> proto = 1 then 8 else 0)"

definition pad :: "nat \<Rightarrow> string \<Rightarrow> string" where
  "pad n s = take n (s @ replicate n CHR ''0'')"

lemma fit_header_pad: "fit_header s = pad 160 s"
  by (simp add: fit_header_def pad_def)

lemma length_pad [simp]: "length (pad n s) = n"
  by (simp add: pad_def)

lemma option_len_ok:
  assumes "5 \<le> n" "n < 16"
  shows "tcp_option_len n = n * 4 - 20" "ip_option_len n = n * 4 - 20"
proof -
  have i: "int (n * 4) - 20 = int (n * 4 - 20)" using assms(1) by simp
  have w: "unat (word_of_int (int k) :: 'a::len word) = k mod 2 ^ LENGTH('a)" for k by (simp add: unat_of_nat)
  show "tcp_option_len n = n * 4 - 20" "ip_option_len n = n * 4 - 20"
    using assms(2) unfolding tcp_option_len_def ip_option_len_def i w by simp_all
qed

lemma high_nibble: "unat (drop_bit 4 (ucast (b :: 8 word) :: u32)) < 16"
  unfolding unat_drop_bit_eq byte_val unfolding drop_bit_eq_div using byte_val(2) [of b] by (simp add: less_mult_imp_div_less)

lemma transport_hex_slice:
  assumes "l4 + transport_len mem l4 proto \<le> length mem" "proto = 6 \<Longrightarrow> 20 \<le> l4_len mem l4"
  shows "transport_hex mem l4 (ucast proto) = Inr (hexdump (slice mem l4 (transport_len mem l4 proto)), transport_len mem l4 proto)"
proof -
  have eq: "(ucast proto = (6 :: u32)) = (proto = 6)" "(ucast proto = (17 :: u32)) = (proto = 17)" "(ucast proto = (1 :: u32)) = (proto = 1)"
    unfolding word_unat_eq_iff byte_val by simp_all
  show ?thesis
  proof (cases "proto = 6")
    case True
    let ?doff = "unat (drop_bit 4 (ucast (mem ! (l4 + 12)) :: u32))"
    have len: "20 \<le> ?doff * 4" "l4 + ?doff * 4 \<le> length mem" using assms True by (simp_all add: l4_len_def transport_len_def)
    have "tcp_option_len ?doff = ?doff * 4 - 20" using len(1) by (intro option_len_ok high_nibble) simp
    then have "catE [tcp_fields mem l4, bytes_hex mem (l4 + 20) (tcp_option_len ?doff)] =
        Inr (hexdump (slice mem l4 20) @ hexdump (slice mem (l4 + 20) (?doff * 4 - 20)))"
      using len by (simp add: tcp_fields_slice bytes_hex_slice)
    also have "\<dots> = Inr (hexdump (slice mem l4 (?doff * 4)))" using slice_split [OF len(1)] by simp
    finally show ?thesis using len
      by (simp add: transport_hex_def eq True byte_at_def transport_len_def l4_len_def Let_def)
  next
    case False
    then show ?thesis using assms(1)
      by (auto simp: transport_hex_def eq transport_len_def udp_icmp_fields_slice slice_def)
  qed
qed

lemma payload_hex_slice:
  assumes "data + min D 240 \<le> length mem" "D < 2 ^ 64"
  shows "payload_hex mem data (of_nat D) = Inr (pad 480 (hexdump (slice mem data D)))"
proof -
  have u: "unat (of_nat D :: u64) = D" using assms(2) by (simp add: unat_of_nat)
  have le: "(240 \<le> (of_nat D :: u64)) = (240 \<le> D)" unfolding word_le_nat_alt u by simp
  show ?thesis
  proof (cases "240 \<le> D")
    case True
    have "bytes_hex mem data 240 = Inr (hexdump (slice mem data 240))" using assms(1) True by (intro bytes_hex_slice) simp
    moreover have "length (slice mem data 240) = 240" using assms(1) True by (simp add: slice_def)
    ultimately show ?thesis using slice_split [OF True] by (simp add: payload_hex_def le True pad_def)
  next
    case False
    have "bytes_hex mem data D = Inr (hexdump (slice mem data D))" using assms(1) False by (intro bytes_hex_slice) simp
    moreover have "length (slice mem data D) = D" using assms(1) False by (simp add: slice_def)
    ultimately show ?thesis using False by (simp add: payload_hex_def le u pad_def mult.commute)
  qed
qed

text \<open>The header length in the first byte of an IP header.\<close>

definition ip_header_len :: "bytes \<Rightarrow> nat \<Rightarrow> nat" where
  "ip_header_len mem ip = unat (ucast (mem ! ip) AND 15 :: u32) * 4"

text \<open>C23: the string made of an IPv4 packet field by field (nibbles, addresses byte by byte, the TCP flags
  regrouped from six bit fields) is the hexadecimal dump of its bytes: 80 bytes of the IP header, its
  options and the transport header, and 240 bytes of what follows, each cut or filled with zeros.
  The header lengths in the packet must be at least the fixed ones and the bytes must be in the buffer.\<close>

theorem parse_mfr_is_hexdump:
  assumes "parse_ethtype_vlan mem body = Inr (0, 0x0800, l3)" "ip = body + l3" "hl = ip_header_len mem ip" "20 \<le> hl"
    and "len = transport_len mem (ip + hl) (mem ! (ip + 9))" "mem ! (ip + 9) = 6 \<Longrightarrow> 20 \<le> l4_len mem (ip + hl)"
    and "pkt_len = 14 + hl + len + D" "ip + hl + len + min D 240 \<le> length mem" "D < 2 ^ 64"
  shows "parse_mfr mem body pkt_len =
    Inr (pad 160 (hexdump (slice mem ip (hl + len))) @ pad 480 (hexdump (slice mem (ip + hl + len) D)))"
proof -
  define n where "n = unat (ucast (mem ! ip) AND 15 :: u32)"
  have hl: "hl = n * 4" using assms(3) by (simp add: n_def ip_header_len_def)
  have n: "5 \<le> n" "n < 16"
  proof -
    show "5 \<le> n" using assms(4) hl by simp
    have "ucast (mem ! ip) AND (15 :: u32) = drop_bit 0 (ucast (mem ! ip)) AND mask 4" by (simp add: mask_eq_exp_minus_1)
    then have "n = unat (ucast (mem ! ip) :: u32) mod 2 ^ 4" unfolding n_def using unat_field [of 0 "ucast (mem ! ip)" 4] by simp
    then show "n < 16" by simp
  qed
  have in_mem: "ip + hl + len \<le> length mem" using assms(8) by simp
  have fields: "ip_fields mem ip = Inr (hexdump (slice mem ip 20))" using in_mem assms(4) by (intro ip_fields_slice) simp
  have opts: "bytes_hex mem (ip + 20) (ip_option_len n) = Inr (hexdump (slice mem (ip + 20) (hl - 20)))"
    unfolding option_len_ok(2) [OF n] using in_mem assms(4) hl by (simp add: bytes_hex_slice)
  have bytes: "byte_at mem ip = Inr (ucast (mem ! ip))" "byte_at mem (ip + 9) = Inr (ucast (mem ! (ip + 9)))"
    using in_mem assms(4) by (simp_all add: byte_at_def)
  have trans: "transport_hex mem (ip + n * 4) (ucast (mem ! (ip + 9))) = Inr (hexdump (slice mem (ip + hl) len), len)"
    unfolding hl [symmetric] assms(5) by (rule transport_hex_slice) (use in_mem assms(5,6) in auto)
  have "(of_nat pkt_len - 14 - of_nat (n * 4) - of_nat len :: u64) = of_nat D" by (simp add: assms(7) hl)
  then have pay: "payload_hex mem (ip + n * 4 + len) (of_nat pkt_len - 14 - of_nat (n * 4) - of_nat len) =
      Inr (pad 480 (hexdump (slice mem (ip + hl + len) D)))"
    using payload_hex_slice [OF assms(8,9)] by (simp add: hl)
  have "hexdump (slice mem ip 20) @ hexdump (slice mem (ip + 20) (hl - 20)) @ hexdump (slice mem (ip + hl) len) =
      hexdump (slice mem ip (hl + len))"
    using slice_split [OF assms(4), of mem ip] by (simp add: slice_add)
  then show ?thesis
    unfolding parse_mfr_def assms(1) bindE_simps prod.case Let_def assms(2) [symmetric] fields bytes n_def [symmetric] opts trans pay
    by (simp add: fit_header_pad)
qed

definition demo_tcp :: bytes where
  "demo_tcp = replicate 12 7 @ [8, 0] @ [0x45, 0, 0, 42, 0, 1, 0, 0, 64, 6, 0x12, 0x34, 10, 0, 0, 1, 10, 0, 0, 2] @
     [4, 0, 1, 187, 0, 0, 0, 5, 0, 0, 0, 0, 0x50, 0x12, 1, 0, 0xAB, 0xCD, 0, 0] @ [0xDE, 0xAD]"

theorem parse_mfr_is_hexdump_witness:
  "parse_mfr demo_tcp 0 56 = Inr (pad 160 (hexdump (slice demo_tcp 14 40)) @ pad 480 (hexdump (slice demo_tcp 54 2)))"
proof -
  have "parse_ethtype_vlan demo_tcp 0 = Inr (0, 0x0800, 14)" by code_simp
  moreover have "20 = ip_header_len demo_tcp 14" "20 = transport_len demo_tcp (14 + 20) (demo_tcp ! (14 + 9))" "20 \<le> l4_len demo_tcp (14 + 20)"
    by code_simp+
  moreover have "length demo_tcp = 56" by (simp add: demo_tcp_def)
  ultimately show ?thesis
    using parse_mfr_is_hexdump [of demo_tcp 0 14 14 20 20 56 2] by simp
qed

section \<open>The shape of a batch\<close>

text \<open>A string of the batch: so many hexadecimal digits.\<close>

definition hex_string :: "nat \<Rightarrow> string \<Rightarrow> bool" where
  "hex_string n s \<longleftrightarrow> length s = n \<and> list_all is_hex s"

definition all_hex :: "string outcome \<Rightarrow> bool" where
  "all_hex x \<longleftrightarrow> (case x of Inl e \<Rightarrow> True | Inr s \<Rightarrow> list_all is_hex s)"

lemma all_hex_simps [simp]:
  "all_hex (Inl e)" "all_hex (Inr s) = list_all is_hex s" "all_hex (bindE x f) \<longleftrightarrow> (\<forall>v. x = Inr v \<longrightarrow> all_hex (f v))"
  by (cases x; simp add: all_hex_def)+

lemma is_hex_0 [simp]: "is_hex CHR ''0''"
  by (simp add: is_hex_def isdigit_def)

lemma is_hex_to_hex [simp]: "list_all is_hex (to_hex v)"
proof (induction v rule: to_hex.induct)
  case (1 v)
  then show ?case by (subst to_hex.simps) simp
qed

lemma list_all_replicate [simp]: "list_all P (replicate n x) \<longleftrightarrow> n = 0 \<or> P x"
  by (induction n) auto

lemma is_hex_out [simp]: "list_all is_hex (num2hexstring (to_hex v) n)"
  by (simp add: num2hexstring_def)

lemma all_hex_catE [simp]: "list_all all_hex xs \<Longrightarrow> all_hex (catE xs)"
proof (induction xs)
  case (Cons x xs)
  then show ?case by (cases x; cases "catE xs") simp_all
qed simp

lemma all_hex_field [simp]:
  "all_hex (byte_hex mem p)" "all_hex (half_hex mem p)" "all_hex (word_hex mem p)" "all_hex (nibbles_hex mem p)" "all_hex (addr_hex mem p)"
  "all_hex (flags_hex mem p)" "all_hex (bytes_hex mem p n)"
  by (simp_all add: byte_hex_def half_hex_def word_hex_def nibbles_hex_def addr_hex_def flags_hex_def bytes_hex_def is_hex_hexdump)

lemma all_hex_fields [simp]:
  "all_hex (ip_fields mem p)" "all_hex (tcp_fields mem p)" "all_hex (udp_fields mem p)" "all_hex (icmp_fields mem p)"
  unfolding ip_fields_def tcp_fields_def udp_fields_def icmp_fields_def by (rule all_hex_catE, simp)+

lemma all_hexD: "x = Inr s \<Longrightarrow> all_hex x \<Longrightarrow> list_all is_hex s"
  by simp

lemma transport_hex_hex:
  assumes "transport_hex mem l4 proto = Inr (s, n)"
  shows "list_all is_hex s"
proof (cases "proto = 6")
  case True
  then obtain b where b: "catE [tcp_fields mem l4, bytes_hex mem (l4 + 20) b] = Inr s"
    using assms by (auto simp: transport_hex_def Let_def bindE_Inr_iff simp del: catE.simps)
  show ?thesis by (rule all_hexD [OF b all_hex_catE]) simp
next
  case False
  then have "udp_fields mem l4 = Inr s \<or> icmp_fields mem l4 = Inr s \<or> s = []"
    using assms by (auto simp: transport_hex_def bindE_Inr_iff split: if_splits)
  then show ?thesis using all_hexD [OF _ all_hex_fields(3)] all_hexD [OF _ all_hex_fields(4)] by auto
qed

lemma payload_hex_string: "payload_hex mem data n = Inr s \<Longrightarrow> hex_string 480 s"
proof -
  assume p: "payload_hex mem data n = Inr s"
  have b: "length t = 2 * k \<and> list_all is_hex t" if "bytes_hex mem data k = Inr t" for k t
    using that by (auto simp: bytes_hex_def is_hex_hexdump split: if_splits)
  have "unat n < 240" if "\<not> 240 \<le> n" using that by (simp add: word_le_nat_alt)
  then show ?thesis using p
    by (auto simp: payload_hex_def hex_string_def list_all_iff bindE_Inr_iff split: if_splits dest!: b)
qed

lemma fit_header_string: "list_all is_hex s \<Longrightarrow> hex_string 160 (fit_header s)"
  by (auto simp: fit_header_def hex_string_def list_all_iff dest: in_set_takeD)

lemma bindE_InrE: "bindE r f = Inr y \<Longrightarrow> (\<And>x. r = Inr x \<Longrightarrow> f x = Inr y \<Longrightarrow> P) \<Longrightarrow> P"
  by (cases r) simp_all

lemma parse_mfr_string:
  assumes "parse_mfr mem body pkt_len = Inr s"
  shows "hex_string 640 s"
proof -
  have join: "hex_string 640 (h @ p)" if "hex_string 160 h" "hex_string 480 p" for h p using that by (simp add: hex_string_def)
  have zeros: "hex_string 160 (replicate 160 CHR ''0'')" by (simp add: hex_string_def list_all_iff)
  obtain r where "parse_ethtype_vlan mem body = Inr r" using assms unfolding parse_mfr_def by (rule bindE_InrE)
  then obtain rc h_proto l3 where e: "parse_ethtype_vlan mem body = Inr (rc, h_proto, l3)" by (cases r) simp
  show ?thesis
  proof (cases "rc \<noteq> 0 \<or> h_proto \<noteq> 0x0800")
    case True
    then have "bindE (payload_hex mem body (of_nat pkt_len)) (\<lambda>p. Inr (replicate 160 CHR ''0'' @ p)) = Inr s"
      using assms unfolding parse_mfr_def e bindE_simps prod.case by (simp only: if_True)
    then obtain p where p: "payload_hex mem body (of_nat pkt_len) = Inr p" and g0: "Inr (replicate 160 CHR ''0'' @ p) = (Inr s :: string outcome)" by (rule bindE_InrE)
    from g0 have "s = replicate 160 CHR ''0'' @ p" by (simp only: sum.inject)
    then show ?thesis using join [OF zeros payload_hex_string [OF p]] by (simp only:)
  next
    case False
    let ?ip = "body + l3"
    have "bindE (ip_fields mem ?ip) (\<lambda>fields. bindE (byte_at mem ?ip) (\<lambda>vhl.
        bindE (bytes_hex mem (?ip + 20) (ip_option_len (unat (vhl AND 15)))) (\<lambda>options. bindE (byte_at mem (?ip + 9)) (\<lambda>proto.
        bindE (transport_hex mem (?ip + unat (vhl AND 15) * 4) proto) (\<lambda>(transport, len).
        bindE (payload_hex mem (?ip + unat (vhl AND 15) * 4 + len) (of_nat pkt_len - 14 - of_nat (unat (vhl AND 15) * 4) - of_nat len)) (\<lambda>p.
          Inr (fit_header (fields @ options @ transport) @ p))))))) = Inr s"
      using assms False unfolding parse_mfr_def e bindE_simps prod.case Let_def by (simp only: if_False)
    then obtain fields where f1: "ip_fields mem ?ip = Inr fields" and g1: "bindE (byte_at mem ?ip) (\<lambda>vhl.
        bindE (bytes_hex mem (?ip + 20) (ip_option_len (unat (vhl AND 15)))) (\<lambda>options. bindE (byte_at mem (?ip + 9)) (\<lambda>proto.
        bindE (transport_hex mem (?ip + unat (vhl AND 15) * 4) proto) (\<lambda>(transport, len).
        bindE (payload_hex mem (?ip + unat (vhl AND 15) * 4 + len) (of_nat pkt_len - 14 - of_nat (unat (vhl AND 15) * 4) - of_nat len)) (\<lambda>p.
          Inr (fit_header (fields @ options @ transport) @ p)))))) = Inr s" by (rule bindE_InrE)
    from g1 obtain vhl where "byte_at mem ?ip = Inr vhl" and g11: "bindE (bytes_hex mem (?ip + 20) (ip_option_len (unat (vhl AND 15)))) (\<lambda>options. bindE (byte_at mem (?ip + 9)) (\<lambda>proto.
        bindE (transport_hex mem (?ip + unat (vhl AND 15) * 4) proto) (\<lambda>(transport, len).
        bindE (payload_hex mem (?ip + unat (vhl AND 15) * 4 + len) (of_nat pkt_len - 14 - of_nat (unat (vhl AND 15) * 4) - of_nat len)) (\<lambda>p.
          Inr (fit_header (fields @ options @ transport) @ p))))) = Inr s" by (rule bindE_InrE)
    from g11 obtain options where f2: "bytes_hex mem (?ip + 20) (ip_option_len (unat (vhl AND 15))) = Inr options" and g2: "bindE (byte_at mem (?ip + 9)) (\<lambda>proto.
        bindE (transport_hex mem (?ip + unat (vhl AND 15) * 4) proto) (\<lambda>(transport, len).
        bindE (payload_hex mem (?ip + unat (vhl AND 15) * 4 + len) (of_nat pkt_len - 14 - of_nat (unat (vhl AND 15) * 4) - of_nat len)) (\<lambda>p.
          Inr (fit_header (fields @ options @ transport) @ p)))) = Inr s" by (rule bindE_InrE)
    from g2 obtain proto where "byte_at mem (?ip + 9) = Inr proto" and g22: "bindE (transport_hex mem (?ip + unat (vhl AND 15) * 4) proto) (\<lambda>(transport, len).
        bindE (payload_hex mem (?ip + unat (vhl AND 15) * 4 + len) (of_nat pkt_len - 14 - of_nat (unat (vhl AND 15) * 4) - of_nat len)) (\<lambda>p.
          Inr (fit_header (fields @ options @ transport) @ p))) = Inr s" by (rule bindE_InrE)
    from g22 obtain tl where f3: "transport_hex mem (?ip + unat (vhl AND 15) * 4) proto = Inr tl" and t: "(case tl of (transport, len) \<Rightarrow>
        bindE (payload_hex mem (?ip + unat (vhl AND 15) * 4 + len) (of_nat pkt_len - 14 - of_nat (unat (vhl AND 15) * 4) - of_nat len)) (\<lambda>p.
          Inr (fit_header (fields @ options @ transport) @ p))) = Inr s" by (rule bindE_InrE)
    obtain transport len where tl: "tl = (transport, len)" by (cases tl)
    obtain p n data where f4: "payload_hex mem data n = Inr p" and g4: "Inr (fit_header (fields @ options @ transport) @ p) = (Inr s :: string outcome)"
      using t unfolding tl prod.case by (rule bindE_InrE)
    from g4 have f5: "s = fit_header (fields @ options @ transport) @ p" by (simp only: sum.inject)
    have "list_all is_hex fields" "list_all is_hex options"
      by (rule all_hexD [OF f1 all_hex_fields(1)], rule all_hexD [OF f2 all_hex_field(7)])
    then have "hex_string 160 (fit_header (fields @ options @ transport))" using transport_hex_hex [OF f3 [unfolded tl]] by (intro fit_header_string) simp
    then show ?thesis unfolding f5 by (rule join [OF _ payload_hex_string [OF f4]])
  qed
qed

lemma mfr_loop_strings:
  "mfr_loop n mem data pkt_len acc = Inr xs \<Longrightarrow> list_all (hex_string 640) acc \<Longrightarrow> length xs = length acc + n \<and> list_all (hex_string 640) xs"
proof (induction n arbitrary: data pkt_len acc)
  case (Suc n)
  obtain s len where s: "parse_rb_mfr mem (data + 2) (unat pkt_len) = Inr s"
    "mfr_loop n mem (data + 2 + unat pkt_len) len (acc @ [s]) = Inr xs"
    using Suc.prems(1) by (auto simp: Let_def bindE_Inr_iff simp del: add_2_eq_Suc')
  have "hex_string 640 s" using s(1) parse_mfr_string by (auto simp: parse_rb_mfr_def bindE_Inr_iff)
  then show ?case using Suc.IH [OF s(2)] Suc.prems(2) by simp
qed simp

lemma concat_strings: "list_all (hex_string n) xs \<Longrightarrow> hex_string (n * length xs) (concat xs)"
  by (induction xs) (auto simp: hex_string_def)

lemma make_batches_strings:
  assumes "list_all (hex_string 640) xs" "int (length xs) \<le> batch_size * 5"
  shows "int (length (make_batches batch_size xs)) = batch_size \<and> list_all (hex_string 3200) (make_batches batch_size xs)"
proof -
  let ?real = "length xs div 5"
  have five: "hex_string 3200 (concat (take 5 (drop (i * 5) xs)))" if "i < ?real" for i
  proof -
    have "i * 5 + 5 \<le> length xs" using that by presburger
    then have "length (take 5 (drop (i * 5) xs)) = 5" by simp
    moreover have "list_all (hex_string 640) (take 5 (drop (i * 5) xs))"
      using assms(1) by (auto simp: list_all_iff dest!: in_set_takeD in_set_dropD)
    ultimately show ?thesis using concat_strings [of 640 "take 5 (drop (i * 5) xs)"] by simp
  qed
  have "int ?real \<le> batch_size" using assms(2) by presburger
  moreover have "hex_string 3200 (replicate 3200 CHR ''0'')" by (simp add: hex_string_def list_all_iff)
  ultimately show ?thesis using five by (auto simp: make_batches_def Let_def list_all_iff)
qed

text \<open>C25: whatever the bytes are, when \<open>get_mfr_bytes\<close> returns it returns exactly as many strings as the batch
  size says, each of 3200 hexadecimal digits: the 1600 pixels the model takes.\<close>

theorem get_mfr_bytes_type:
  assumes "get_mfr_bytes mem pktsdata pkts_cnt batch_size = Inr out"
  shows "0 \<le> batch_size \<and> int (length out) = batch_size \<and> list_all (hex_string 3200) out"
proof -
  let ?n = "if batch_size * 5 \<le> int (unat pkts_cnt) then batch_size * 5 else int (unat pkts_cnt)"
  have pos: "0 \<le> batch_size" using assms by (simp add: get_mfr_bytes_def split: if_splits)
  then obtain len xs where xs: "mfr_loop (nat ?n) mem pktsdata len [] = Inr xs" "out = make_batches batch_size xs"
    using assms by (auto simp: get_mfr_bytes_def Let_def bindE_Inr_iff simp del: mfr_loop.simps)
  have "length xs = nat ?n" "list_all (hex_string 640) xs" using mfr_loop_strings [OF xs(1)] by simp_all
  moreover have "int (nat ?n) \<le> batch_size * 5" using pos by simp
  ultimately show ?thesis using pos make_batches_strings [of xs batch_size] xs(2) by simp
qed

theorem get_mfr_bytes_type_witness:
  "\<exists>out. get_mfr_bytes [0, 0] 0 0 2 = Inr out \<and> length out = 2 \<and> list_all (hex_string 3200) out"
proof -
  have "get_mfr_bytes [0, 0] 0 0 2 = Inr (make_batches 2 [])"
    by (simp add: get_mfr_bytes_def le16_at_def byte_at_def)
  then show ?thesis using get_mfr_bytes_type [of "[0, 0]" 0 0 2] by simp
qed

end
