(* ===== verification/Onnx_Results.thy ===== *)
theory Onnx_Results
  imports Packet_Bytes
begin

text \<open>
  What becomes of the outputs of a model: the tasks of \<open>samples/dni/tasks/onnx\<close> that derive from
  \<open>OnnxTask\<close> (\<open>onnx_snding_mfr_task.cc\<close>, \<open>onnx_two_dimesion_task.cc\<close>, \<open>onnx_logreg_task.cc\<close>) and the
  program \<open>onnx_snding_mfr_1_fixed_model.cc\<close> from a capture to a label. An output value is a tensor of floats
  or of 64-bit integers, or a sequence of maps, each a tensor of keys and one of values. Reading the data of a
  value of another type is undefined, and so is reading past the data. Dimensions are below \<open>2^31\<close>, so the
  \<open>int\<close> counters do not overflow.
\<close>

section \<open>Output values\<close>

record 'a tensor =
  tn_shape :: "int list"
  tn_data :: "'a list"

datatype ort_value = Float_Tensor "double tensor" | Int_Tensor "int tensor" | Map_Sequence "(int tensor \<times> double tensor) list"

definition read_at :: "'a list \<Rightarrow> int \<Rightarrow> 'a outcome" where
  "read_at xs i = (if 0 \<le> i \<and> i < int (length xs) then Inr (xs ! nat i) else Inl Undefined)"

fun mapE :: "('a \<Rightarrow> 'b outcome) \<Rightarrow> 'a list \<Rightarrow> 'b list outcome" where
  "mapE f [] = Inr []"
| "mapE f (x # xs) = bindE (f x) (\<lambda>y. bindE (mapE f xs) (\<lambda>ys. Inr (y # ys)))"

text \<open>\<open>h\<close> rows of \<open>w\<close> elements.\<close>

definition read_rows :: "'a list \<Rightarrow> int \<Rightarrow> int \<Rightarrow> 'a list list outcome" where
  "read_rows xs h w = mapE (\<lambda>m. mapE (\<lambda>n. read_at xs (int m * w + int n)) [0..<nat w]) [0..<nat h]"

text \<open>What \<open>GetTensorMutableData<float>\<close> points to: no float, for a tensor of integers.\<close>

fun float_tensor :: "ort_value \<Rightarrow> double tensor option" where
  "float_tensor (Float_Tensor t) = Some t"
| "float_tensor (Int_Tensor t) = Some \<lparr>tn_shape = tn_shape t, tn_data = []\<rparr>"
| "float_tensor (Map_Sequence ms) = None"

fun int_tensor :: "ort_value \<Rightarrow> int tensor option" where
  "int_tensor (Int_Tensor t) = Some t"
| "int_tensor (Float_Tensor t) = Some \<lparr>tn_shape = tn_shape t, tn_data = []\<rparr>"
| "int_tensor (Map_Sequence ms) = None"

section \<open>Outputs of two dimensions\<close>

text \<open>The types these tasks put into a \<open>Datum\<close>.\<close>

record logreg_ret =
  lr_output_labels :: "int list list list"
  lr_output_probabilities :: "(int \<times> double) list list"

datatype onnx_val = VInputs "double list list" | VRet "double list list list" | VLogReg logreg_ret

definition as_inputs :: "onnx_val \<Rightarrow> double list list option" where
  "as_inputs v = (case v of VInputs x \<Rightarrow> Some x | _ \<Rightarrow> None)"

text \<open>The loop over the outputs; a tensor that has not two dimensions ends it with \<open>None\<close>.\<close>

fun two_dims :: "ort_value list \<Rightarrow> double list list list \<Rightarrow> double list list list option outcome" where
  "two_dims [] ret = Inr (Some ret)"
| "two_dims (v # inference_ret) ret = (case float_tensor v of
       None \<Rightarrow> two_dims inference_ret ret
     | Some t \<Rightarrow> if length (tn_shape t) \<noteq> 2 then Inr None
         else bindE (read_rows (tn_data t) (tn_shape t ! 0) (tn_shape t ! 1)) (\<lambda>rows. two_dims inference_ret (ret @ [rows])))"

definition OnnxSNDingMFRTask_ParseInferenceResult :: "int \<Rightarrow> ort_value list \<Rightarrow> onnx_val datum outcome" where
  "OnnxSNDingMFRTask_ParseInferenceResult junk inference_ret =
     bindE (two_dims inference_ret []) (\<lambda>r. Inr (case r of None \<Rightarrow> Datum0 | Some ret \<Rightarrow> Datum_val junk (VRet ret)))"

text \<open>\<open>DumpInferenceRet\<close> prints what the parser reads.\<close>

fun OnnxSNDingMFRTask_DumpInferenceRet :: "ort_value list \<Rightarrow> unit outcome" where
  "OnnxSNDingMFRTask_DumpInferenceRet [] = Inr ()"
| "OnnxSNDingMFRTask_DumpInferenceRet (v # inference_ret) = (case float_tensor v of
       None \<Rightarrow> OnnxSNDingMFRTask_DumpInferenceRet inference_ret
     | Some t \<Rightarrow> if length (tn_shape t) \<noteq> 2 then Inr ()
         else bindE (read_rows (tn_data t) (tn_shape t ! 0) (tn_shape t ! 1)) (\<lambda>rows. OnnxSNDingMFRTask_DumpInferenceRet inference_ret))"

definition OnnxSNDingMFRTask_Process ::
  "int \<Rightarrow> (double list \<Rightarrow> int list \<Rightarrow> 't outcome) \<Rightarrow> ('t, ort_value) runner \<Rightarrow> model_loader \<Rightarrow> onnx_val task_context \<Rightarrow>
   (int \<times> model_loader \<times> onnx_val task_context) outcome" where
  "OnnxSNDingMFRTask_Process junk create run = OnnxTask_Process as_inputs create run
     (\<lambda>ret. bindE (OnnxSNDingMFRTask_DumpInferenceRet ret) (\<lambda>_. OnnxSNDingMFRTask_ParseInferenceResult junk ret))"

definition OnnxTwoDimesionTask_ParseInferenceResult :: "int \<Rightarrow> ort_value list \<Rightarrow> onnx_val datum outcome" where
  "OnnxTwoDimesionTask_ParseInferenceResult junk inference_ret =
     bindE (two_dims inference_ret []) (\<lambda>r. Inr (case r of None \<Rightarrow> Datum0 | Some ret \<Rightarrow> Datum_val junk (VRet ret)))"

text \<open>Here the printing loop counts the dimensions instead of the rows.\<close>

fun OnnxTwoDimesionTask_DumpInferenceRet :: "ort_value list \<Rightarrow> unit outcome" where
  "OnnxTwoDimesionTask_DumpInferenceRet [] = Inr ()"
| "OnnxTwoDimesionTask_DumpInferenceRet (v # inference_ret) = (case float_tensor v of
       None \<Rightarrow> OnnxTwoDimesionTask_DumpInferenceRet inference_ret
     | Some t \<Rightarrow> bindE (if tn_shape t = [] then Inr []
         else bindE (read_at (tn_shape t) 1) (\<lambda>w. read_rows (tn_data t) (int (length (tn_shape t))) w))
           (\<lambda>rows. OnnxTwoDimesionTask_DumpInferenceRet inference_ret))"

definition OnnxTwoDimesionTask_Process ::
  "int \<Rightarrow> (double list \<Rightarrow> int list \<Rightarrow> 't outcome) \<Rightarrow> ('t, ort_value) runner \<Rightarrow> model_loader \<Rightarrow> onnx_val task_context \<Rightarrow>
   (int \<times> model_loader \<times> onnx_val task_context) outcome" where
  "OnnxTwoDimesionTask_Process junk create run = OnnxTask_Process as_inputs create run
     (\<lambda>ret. bindE (OnnxTwoDimesionTask_DumpInferenceRet ret) (\<lambda>_. OnnxTwoDimesionTask_ParseInferenceResult junk ret))"

section \<open>Labels and probabilities\<close>

text \<open>The pairs of one map; the key and value counts are the sums of their dimensions.\<close>

fun put_pairs :: "int tensor \<Rightarrow> double tensor \<Rightarrow> nat list \<Rightarrow> (int \<times> double) list \<Rightarrow> (int \<times> double) list outcome" where
  "put_pairs keys vals [] probabilities = Inr probabilities"
| "put_pairs keys vals (i # is) probabilities =
     bindE (read_at (tn_data vals) (int i)) (\<lambda>v. bindE (read_at (tn_data keys) (int i)) (\<lambda>k.
       put_pairs keys vals is (um_insert k v probabilities)))"

fun logreg_maps :: "(int tensor \<times> double tensor) list \<Rightarrow> (int \<times> double) list list \<Rightarrow> (int \<times> double) list list option outcome" where
  "logreg_maps [] acc = Inr (Some acc)"
| "logreg_maps ((keys, vals) # ms) acc =
     (let keys_total = sum_list (tn_shape keys); values_total = sum_list (tn_shape vals)
      in if keys_total \<noteq> values_total then Inr None
         else bindE (put_pairs keys vals [0..<nat keys_total] []) (\<lambda>probabilities. logreg_maps ms (acc @ [probabilities])))"

text \<open>The loop runs over the outputs the loader knows; the rows of a tensor of labels are counted by its
  dimensions and as wide as its first one.\<close>

fun logreg_outputs :: "ort_value list \<Rightarrow> nat list \<Rightarrow> logreg_ret \<Rightarrow> logreg_ret option outcome" where
  "logreg_outputs inference_ret [] ret = Inr (Some ret)"
| "logreg_outputs inference_ret (i # is) ret = bindE (read_at inference_ret (int i)) (\<lambda>v. case v of
       Map_Sequence ms \<Rightarrow> bindE (logreg_maps ms (lr_output_probabilities ret)) (\<lambda>r. case r of
           None \<Rightarrow> Inr None
         | Some ps \<Rightarrow> logreg_outputs inference_ret is (ret\<lparr>lr_output_probabilities := ps\<rparr>))
     | _ \<Rightarrow> (case int_tensor v of None \<Rightarrow> Inl Undefined | Some t \<Rightarrow>
         bindE (if tn_shape t = [] then Inr [] else read_rows (tn_data t) (int (length (tn_shape t))) (tn_shape t ! 0)) (\<lambda>rows.
           logreg_outputs inference_ret is (ret\<lparr>lr_output_labels := lr_output_labels ret @ [rows]\<rparr>))))"

definition OnnxLogRegTask_ParseInferenceResult :: "int \<Rightarrow> nat \<Rightarrow> ort_value list \<Rightarrow> onnx_val datum outcome" where
  "OnnxLogRegTask_ParseInferenceResult junk output_nodes_num inference_ret =
     bindE (logreg_outputs inference_ret [0..<output_nodes_num] \<lparr>lr_output_labels = [], lr_output_probabilities = []\<rparr>) (\<lambda>r.
       Inr (case r of None \<Rightarrow> Datum0 | Some ret \<Rightarrow> Datum_val junk (VLogReg ret)))"

section \<open>From a capture to a label\<close>

text \<open>The callback of \<open>pcap_loop\<close>: \<open>body\<close> holds the captured bytes.\<close>

definition pcap_mfr :: "string list \<Rightarrow> bytes \<times> nat \<Rightarrow> string list outcome" where
  "pcap_mfr analysis_mfr_data = (\<lambda>(body, caplen). bindE (parse_mfr body 0 caplen) (\<lambda>s. Inr (analysis_mfr_data @ [s])))"

text \<open>\<open>capture pcap n\<close> is \<open>None\<close> when the file cannot be opened and else the packets, with their captured
  lengths, \<open>pcap_loop\<close> calls back with for a count of \<open>n\<close>.\<close>

definition get_pcap_mfr_bytes :: "(string \<Rightarrow> int \<Rightarrow> (bytes \<times> nat) list option) \<Rightarrow> string \<Rightarrow> int \<Rightarrow> string list outcome" where
  "get_pcap_mfr_bytes capture pcap batch_size = (case capture pcap (batch_size * 5) of
       None \<Rightarrow> Inr []
     | Some packets \<Rightarrow> bindE (foldE (\<lambda>p acc. pcap_mfr acc p) packets []) (\<lambda>analysis_mfr_data. Inr (make_batches batch_size analysis_mfr_data)))"

definition userPrepareInputData1 :: "double list list \<Rightarrow> double list \<Rightarrow> int \<Rightarrow> double list list outcome" where
  "userPrepareInputData1 input_data model_np_list n =
     bindE (mapE (\<lambda>i. read_at model_np_list (int i)) [0..<nat n]) (\<lambda>input_tensor. Inr (input_data @ [input_tensor]))"

definition label_relation_dict :: "string list" where
  "label_relation_dict = [''BROWSING'', ''CHAT'', ''DDoS-hping3'', ''DDoS-pktgen'', ''DDoS-trafgen'',
     ''FTP'', ''MAIL'', ''Streaming'', ''VOIP'', ''p2p'']"

text \<open>\<open>std::max_element\<close>: the position of the first element no other is greater than.\<close>

fun max_loop :: "('a \<Rightarrow> 'a \<Rightarrow> bool) \<Rightarrow> 'a \<Rightarrow> nat \<Rightarrow> 'a list \<Rightarrow> nat \<Rightarrow> nat" where
  "max_loop lt largest k [] i = k"
| "max_loop lt largest k (x # xs) i = (if lt largest x then max_loop lt x i xs (i + 1) else max_loop lt largest k xs (i + 1))"

fun max_element :: "('a \<Rightarrow> 'a \<Rightarrow> bool) \<Rightarrow> 'a list \<Rightarrow> nat" where
  "max_element lt [] = 0"
| "max_element lt (x # xs) = max_loop lt x 0 xs 1"

definition count_up :: "nat \<Rightarrow> int list \<Rightarrow> int list outcome" where
  "count_up maxPos counts = (if maxPos < length counts then Inr (counts[maxPos := counts ! maxPos + 1]) else Inl Undefined)"

definition get_label_from_infer_ret :: "double list list list \<Rightarrow> string outcome" where
  "get_label_from_infer_ret infer_ret = bindE (read_at infer_ret 0) (\<lambda>output_data.
     bindE (foldE count_up (map (max_element dlt) output_data) (replicate (length label_relation_dict) 0)) (\<lambda>model_output_count.
       read_at label_relation_dict (int (max_element (<) model_output_count))))"

section \<open>Rounding of small numbers\<close>

lemma round_half_even_within:
  assumes "of_int m \<le> q" "q \<le> of_int n"
  shows "m \<le> round_half_even q \<and> round_half_even q \<le> n"
proof -
  have "m \<le> \<lfloor>q\<rfloor>" "\<lfloor>q\<rfloor> \<le> n" using assms by (simp_all add: le_floor_iff floor_le_iff)
  moreover have "\<lfloor>q\<rfloor> < n" if "1 / 2 \<le> q - of_int \<lfloor>q\<rfloor>" using assms(2) that by linarith
  ultimately show ?thesis by (auto simp: round_half_even_def Let_def)
qed

lemma round_grid_within:
  assumes "\<bar>q\<bar> \<le> B" "B = 1 \<or> B = 1 / 2" "e < 0"
  shows "\<bar>of_int (round_half_even (q / pow2 e)) * pow2 e\<bar> \<le> B"
proof -
  define k where "k = nat (- e) - 1"
  have p: "pow2 e = 1 / (2 * 2 ^ k)"
  proof -
    have "nat (- e) = Suc k" using assms(3) by (simp add: k_def)
    then show ?thesis using assms(3) by (simp add: pow2_def)
  qed
  define N :: int where "N = (if B = 1 then 2 * 2 ^ k else 2 ^ k)"
  have N: "of_int N = B / pow2 e" using assms(2) by (auto simp: N_def p)
  have pos: "0 < pow2 e" by (simp add: p)
  have "- B \<le> q" "q \<le> B" using assms(1) by simp_all
  then have "of_int (- N) \<le> q / pow2 e" "q / pow2 e \<le> of_int N"
    unfolding of_int_minus N using pos by (simp_all add: divide_right_mono pos_le_divide_eq pos_divide_le_eq)
  then have m: "- N \<le> round_half_even (q / pow2 e)" "round_half_even (q / pow2 e) \<le> N"
    using round_half_even_within [of "- N" "q / pow2 e" N] by simp_all
  then have "(of_int (- N) :: rat) \<le> of_int (round_half_even (q / pow2 e))" "(of_int (round_half_even (q / pow2 e)) :: rat) \<le> of_int N"
    by (simp_all only: of_int_le_iff)
  then have "of_int (- N) * pow2 e \<le> of_int (round_half_even (q / pow2 e)) * pow2 e"
    "of_int (round_half_even (q / pow2 e)) * pow2 e \<le> of_int N * pow2 e"
    using pos by (simp_all only: mult_le_cancel_right_pos)
  then show ?thesis using pos by (simp add: N abs_le_iff)
qed

lemma lead_exp_small: "\<bar>q\<bar> \<le> 1 \<Longrightarrow> q \<noteq> 0 \<Longrightarrow> lead_exp \<bar>q\<bar> \<le> 0"
  using lead_exp_le [of "\<bar>q\<bar>" 0] by simp

lemma round_small:
  assumes "\<bar>q\<bar> \<le> B" "B = 1 \<or> B = 1 / 2"
  shows "\<exists>r. round64 q = Fin r \<and> \<bar>r\<bar> \<le> B" "\<exists>r. round32 q = Fin r \<and> \<bar>r\<bar> \<le> B"
proof -
  have q1: "\<bar>q\<bar> \<le> 1" using assms by auto
  show "\<exists>r. round64 q = Fin r \<and> \<bar>r\<bar> \<le> B"
  proof (cases "q = 0")
    case False
    then have e: "ulp_exp q < 0" using lead_exp_small [OF q1] by (simp add: ulp_exp_def)
    then show ?thesis using round_grid_within [OF assms e] False by (simp add: round64_def Let_def)
  qed (use assms in \<open>auto simp: round64_def\<close>)
  show "\<exists>r. round32 q = Fin r \<and> \<bar>r\<bar> \<le> B"
  proof (cases "q = 0")
    case False
    define e where "e = max (lead_exp \<bar>q\<bar>) (- 126) - 23"
    have e: "e < 0" using lead_exp_small [OF q1] False by (simp add: e_def)
    then show ?thesis using round_grid_within [OF assms e] False by (simp add: round32_def Let_def flip: e_def)
  qed (use assms in \<open>auto simp: round32_def\<close>)
qed

definition in_unit :: "double \<Rightarrow> bool" where
  "in_unit x \<longleftrightarrow> (case x of Fin q \<Rightarrow> - 1 \<le> q \<and> q \<le> 1 | _ \<Rightarrow> False)"

lemma pixel_in_unit:
  assumes "n < 256"
  shows "in_unit (pixel (of_nat n))"
proof -
  have u: "uint (of_nat n :: u64) = int n" using assms by (simp add: uint_nat unat_of_nat)
  have "double_of_int (int n) = Fin (of_int (int n))" using assms by (intro double_of_int_exact) simp
  then have d: "double_of_int (int n) = Fin (of_nat n)" by simp
  have n: "(of_nat n :: rat) \<le> 255" using assms of_nat_le_iff [where ?'a = rat, of n 255] by simp
  have "0 \<le> (of_nat n :: rat) / 255" "(of_nat n :: rat) / 255 \<le> of_int 1" "(1 :: int) < 2 ^ 53" using n by simp_all
  then obtain a where a: "round64 (of_nat n / 255) = Fin a" "0 \<le> a" "a \<le> 1" using round64_between by (metis of_int_1)
  then have "\<bar>a - 1 / 2\<bar> \<le> 1 / 2" by (simp only: abs_le_iff) linarith
  then obtain b where b: "round64 (a - 1 / 2) = Fin b" "\<bar>b\<bar> \<le> 1 / 2" using round_small(1) by blast
  then have "\<bar>b / (1 / 2)\<bar> \<le> 1" by (simp add: abs_mult)
  then obtain c where c: "round64 (b / (1 / 2)) = Fin c" "\<bar>c\<bar> \<le> 1" using round_small(1) by blast
  then obtain f where f: "round32 c = Fin f" "\<bar>f\<bar> \<le> 1" using round_small(2) by blast
  have "pixel (of_nat n) = Fin f"
    unfolding pixel_def u d by (simp add: ddiv_const_def a(1) dsub_def b(1) c(1) [simplified] to_float_def f(1))
  then show ?thesis using f(2) by (auto simp: in_unit_def abs_le_iff)
qed

section \<open>Pixels\<close>

lemma is_hex_char:
  assumes "is_hex c"
  shows "isxdigit c" "\<not> isspace c" "c \<noteq> CHR ''-''" "c \<noteq> CHR ''+''" "hexdigit_val c < 16"
  using assms by (auto simp: is_hex_def isxdigit_def isdigit_def isspace_def hexdigit_val_def Let_def)

lemma stoul16_hex:
  assumes "is_hex a" "is_hex b"
  shows "stoul16 [a, b] = Inr (of_nat (hex_val [a, b]))" "hex_val [a, b] < 256"
proof -
  show small: "hex_val [a, b] < 256" using is_hex_char(5) [OF assms(1)] is_hex_char(5) [OF assms(2)] by (simp add: hex_val_def)
  then show "stoul16 [a, b] = Inr (of_nat (hex_val [a, b]))"
    using is_hex_char(1-4) [OF assms(1)] is_hex_char(1) [OF assms(2)] by (simp add: stoul16_def Let_def)
qed

text \<open>The number in the \<open>i\<close>th pair of digits.\<close>

definition pair_val :: "string \<Rightarrow> nat \<Rightarrow> nat" where
  "pair_val s i = hex_val (take 2 (drop (2 * i) s))"

lemma pair_val_ok:
  assumes "list_all is_hex s" "2 * i + 2 \<le> length s"
  shows "stoul16 (take 2 (drop (2 * i) s)) = Inr (of_nat (pair_val s i))" "pair_val s i < 256"
proof -
  have "take 2 (drop (2 * i) s) = [s ! (2 * i), s ! (2 * i + 1)]"
    using assms(2) by (intro nth_equalityI) (auto simp: less_Suc_eq numeral_2_eq_2)
  moreover have "is_hex (s ! (2 * i))" "is_hex (s ! (2 * i + 1))" using assms by (simp_all add: list_all_length)
  ultimately show "stoul16 (take 2 (drop (2 * i) s)) = Inr (of_nat (pair_val s i))" "pair_val s i < 256"
    using stoul16_hex by (simp_all add: pair_val_def)
qed

lemma fill_pixels_ok:
  assumes "list_all is_hex s" "2 * (i + n) \<le> length s" "at_p + n \<le> length buf"
  shows "fill_pixels n s (2 * i) at_p buf = Inr (take at_p buf @ map (\<lambda>j. pixel (of_nat (pair_val s j))) [i..<i + n] @ drop (at_p + n) buf)"
  using assms
proof (induction n arbitrary: i at_p buf)
  case (Suc n)
  let ?v = "pixel (of_nat (pair_val s i))"
  have v: "stoul16 (take 2 (drop (2 * i) s)) = Inr (of_nat (pair_val s i))" using Suc.prems by (intro pair_val_ok) simp_all
  have "fill_pixels n s (2 * (i + 1)) (at_p + 1) (buf[at_p := ?v]) =
      Inr (take (at_p + 1) (buf[at_p := ?v]) @ map (\<lambda>j. pixel (of_nat (pair_val s j))) [i + 1..<i + 1 + n] @ drop (at_p + 1 + n) (buf[at_p := ?v]))"
    using Suc.prems by (intro Suc.IH) simp_all
  moreover have "take (at_p + 1) (buf[at_p := ?v]) = take at_p buf @ [?v]" using Suc.prems by (simp add: take_Suc_conv_app_nth)
  moreover have "[i..<i + Suc n] = i # [i + 1..<i + 1 + n]" by (simp add: upt_conv_Cons)
  ultimately show ?case using Suc.prems v by simp
qed simp

definition pixels :: "string \<Rightarrow> double list" where
  "pixels s = map (\<lambda>j. pixel (of_nat (pair_val s j))) [0..<1600]"

lemma length_pixels: "length (pixels s) = 1600"
  by (simp add: pixels_def)

lemma get_model_input_ok:
  assumes "list_all (hex_string 3200) xs" "(k + length xs) * 1600 \<le> length buf"
  shows "get_model_input xs k buf = Inr (take (k * 1600) buf @ concat (map pixels xs) @ drop ((k + length xs) * 1600) buf)"
  using assms
proof (induction xs arbitrary: k buf)
  case (Cons s xs)
  have s: "list_all is_hex s" "2 * (0 + 1600) \<le> length s" using Cons.prems(1) by (simp_all add: hex_string_def)
  define buf1 where "buf1 = take (k * 1600) buf @ pixels s @ drop (k * 1600 + 1600) buf"
  have "fill_pixels 1600 s (2 * 0) (k * 1600) buf = Inr buf1"
    unfolding buf1_def pixels_def using fill_pixels_ok [OF s, of "k * 1600" buf] Cons.prems(2) by simp
  moreover have "get_model_input xs (k + 1) buf1 =
      Inr (take ((k + 1) * 1600) buf1 @ concat (map pixels xs) @ drop ((k + 1 + length xs) * 1600) buf1)"
    using Cons.prems by (intro Cons.IH) (simp_all add: buf1_def length_pixels)
  moreover have "take ((k + 1) * 1600) buf1 = take (k * 1600) buf @ pixels s"
    using Cons.prems(2) by (simp add: buf1_def length_pixels)
  moreover have "drop ((k + 1 + length xs) * 1600) buf1 = drop ((k + length (s # xs)) * 1600) buf"
    using Cons.prems(2) by (simp add: buf1_def length_pixels add.commute add.left_commute)
  ultimately show ?case by simp
qed simp

lemma pair_val_hexdump: "i < length bs \<Longrightarrow> pair_val (hexdump bs) i = unat (bs ! i)"
proof (induction bs arbitrary: i)
  case (Cons b bs)
  have two: "hex_digits 2 (unat b) = [hexdigit (unat b div 16), hexdigit (unat b mod 16)]"
    using byte_val(2) [of b] by (simp add: numeral_2_eq_2 less_mult_imp_div_less)
  have v: "hex_val [hexdigit (unat b div 16), hexdigit (unat b mod 16)] = unat b"
    using byte_val(2) [of b] by (simp add: hex_val_def less_mult_imp_div_less)
  show ?case
  proof (cases i)
    case 0
    then show ?thesis using v by (simp add: pair_val_def two)
  next
    case (Suc j)
    then have "2 * i = Suc (Suc (2 * j))" by simp
    then have "drop (2 * i) (hexdump (b # bs)) = drop (2 * j) (hexdump bs)" by (simp only: hexdump_simps two) simp
    then have "pair_val (hexdump (b # bs)) i = pair_val (hexdump bs) j" by (simp only: pair_val_def)
    then show ?thesis using Cons Suc by simp
  qed
qed simp

lemma pixels_hexdump: "length bs = 1600 \<Longrightarrow> pixels (hexdump bs) = map (\<lambda>b. pixel (ucast b)) bs"
proof (rule nth_equalityI)
  fix i
  assume len: "length bs = 1600" and "i < length (pixels (hexdump bs))"
  then have i: "i < 1600" by (simp add: length_pixels)
  have "(of_nat (unat (bs ! i)) :: u64) = ucast (bs ! i)" by (simp add: word_uint_eq_iff unsigned_ucast_eq uint_nat)
  then show "pixels (hexdump bs) ! i = map (\<lambda>b. pixel (ucast b)) bs ! i"
    using i len by (simp add: pixels_def pair_val_hexdump)
qed (simp add: length_pixels)

text \<open>When every string of the batch is the hexadecimal dump of 1600 bytes, the model input gets the pixel of
  each byte, in order, and the rest of the buffer is left as it was: the text between the two steps loses
  nothing.\<close>

lemma get_model_input_roundtrip:
  assumes "list_all (\<lambda>bs. length bs = 1600) bss" "length bss * 1600 \<le> length buf"
  shows "get_model_input (map hexdump bss) 0 buf = Inr (map (\<lambda>b. pixel (ucast b)) (concat bss) @ drop (length bss * 1600) buf)"
proof -
  have "list_all (hex_string 3200) (map hexdump bss)"
    using assms(1) is_hex_hexdump [unfolded list_all_iff] by (auto simp: list_all_iff hex_string_def)
  then have "get_model_input (map hexdump bss) 0 buf = Inr (concat (map pixels (map hexdump bss)) @ drop (length bss * 1600) buf)"
    using get_model_input_ok [of "map hexdump bss" 0 buf] assms(2) by simp
  moreover have "map pixels (map hexdump bss) = map (map (\<lambda>b. pixel (ucast b))) bss"
    using assms(1) by (simp add: list_all_iff pixels_hexdump)
  ultimately show ?thesis by (simp only: map_concat)
qed

lemma get_model_input_roundtrip_example:
  "get_model_input [hexdump (replicate 1600 0)] 0 (replicate 1601 NaN) = Inr (replicate 1600 (pixel 0) @ [NaN])"
proof -
  let ?z = "replicate 1600 (0 :: 8 word)" and ?buf = "replicate 1601 NaN"
  have "list_all (\<lambda>bs. length bs = 1600) [?z]" "length [?z] * 1600 \<le> length ?buf" by (simp_all del: replicate_Suc)
  note r = get_model_input_roundtrip [OF this]
  have c: "map (\<lambda>b. pixel (ucast b)) (concat [?z]) = replicate 1600 (pixel 0)" by (simp add: map_replicate)
  have d: "drop (length [?z] * 1600) ?buf = [NaN]" by (simp add: drop_replicate)
  show ?thesis using r unfolding c d list.map .
qed

section \<open>A capture\<close>

lemma foldE_pcap_strings:
  "foldE (\<lambda>p acc. pcap_mfr acc p) packets acc = Inr xs \<Longrightarrow> list_all (hex_string 640) acc \<Longrightarrow>
   length xs = length acc + length packets \<and> list_all (hex_string 640) xs"
proof (induction packets arbitrary: acc)
  case (Cons p packets)
  obtain acc1 where step: "pcap_mfr acc p = Inr acc1" "foldE (\<lambda>p acc. pcap_mfr acc p) packets acc1 = Inr xs"
    using Cons.prems(1) by (auto simp: bindE_Inr_iff)
  obtain body caplen where p: "p = (body, caplen)" by (cases p)
  obtain s where s: "parse_mfr body 0 caplen = Inr s" "acc1 = acc @ [s]" using step(1) by (auto simp: pcap_mfr_def p bindE_Inr_iff)
  then have "list_all (hex_string 640) acc1" using Cons.prems(2) parse_mfr_string by simp
  then show ?case using Cons.IH [OF step(2)] s(2) by simp
qed simp

text \<open>C18: the strings made of a capture fill the input of the model without an error: exactly 1600 floats for each
  item of the batch, every one of them between -1 and 1. The capture library must not call back
  more often than asked.\<close>

theorem pcap_model_input_bounds:
  assumes "get_pcap_mfr_bytes capture pcap batch_size = Inr out" "capture pcap (batch_size * 5) = Some packets"
    and "int (length packets) \<le> batch_size * 5" "int (length buf) = batch_size * 1600"
  shows "\<exists>floats. get_model_input out 0 buf = Inr floats \<and> length floats = length buf \<and> list_all in_unit floats"
proof -
  obtain xs where xs: "foldE (\<lambda>p acc. pcap_mfr acc p) packets [] = Inr xs" "out = make_batches batch_size xs"
    using assms(1,2) by (auto simp: get_pcap_mfr_bytes_def bindE_Inr_iff)
  then have "length xs = length packets" "list_all (hex_string 640) xs" using foldE_pcap_strings [OF xs(1)] by simp_all
  then have out: "int (length out) = batch_size" "list_all (hex_string 3200) out"
    using make_batches_strings [of xs batch_size] assms(3) xs(2) by simp_all
  have len: "length out * 1600 = length buf" using out(1) assms(4) by linarith
  then have "get_model_input out 0 buf = Inr (concat (map pixels out))"
    using get_model_input_ok [OF out(2), of 0 buf] by simp
  moreover have "length (concat (map pixels out)) = length buf" using len by (simp add: length_concat length_pixels o_def sum_list_triv)
  moreover have "in_unit x" if "s \<in> set out" "x \<in> set (pixels s)" for s x
  proof -
    note x = that(2)
    have "hex_string 3200 s" using that(1) out(2) by (simp add: list_all_iff)
    then have "list_all is_hex s" "length s = 3200" by (simp_all add: hex_string_def)
    moreover obtain j where "j < 1600" "x = pixel (of_nat (pair_val s j))" using x by (auto simp: pixels_def)
    ultimately show ?thesis by (simp add: pixel_in_unit pair_val_ok(2))
  qed
  ultimately show ?thesis by (auto simp: list_all_iff)
qed

definition demo_capture :: "string \<Rightarrow> int \<Rightarrow> (bytes \<times> nat) list option" where
  "demo_capture pcap n = Some (replicate 5 (replicate 60 0, 60))"

theorem pcap_model_input_bounds_witness:
  "\<exists>out floats. get_pcap_mfr_bytes demo_capture ''a.pcap'' 1 = Inr out \<and> get_model_input out 0 (replicate 1600 NaN) = Inr floats \<and>
     length floats = 1600 \<and> list_all in_unit floats"
proof -
  let ?f = "replicate 60 0 :: bytes"
  have e: "parse_ethtype_vlan ?f 0 = Inr (- 1, 0, 14)" by code_simp
  have "payload_hex ?f 0 (of_nat 60) = Inr (pad 480 (hexdump (slice ?f 0 60)))" by (rule payload_hex_slice) simp_all
  then obtain s where s: "parse_mfr ?f 0 60 = Inr s" by (simp add: parse_mfr_def e)
  have "foldE (\<lambda>p acc. pcap_mfr acc p) (replicate n (?f, 60)) acc = Inr (acc @ replicate n s)" for n acc
    by (induction n arbitrary: acc) (simp_all add: pcap_mfr_def s)
  then obtain out where "get_pcap_mfr_bytes demo_capture ''a.pcap'' 1 = Inr out"
    by (simp add: get_pcap_mfr_bytes_def demo_capture_def)
  then show ?thesis using pcap_model_input_bounds [of demo_capture "''a.pcap''" 1 _ "replicate 5 (?f, 60)" "replicate 1600 NaN"]
    by (auto simp: demo_capture_def)
qed

section \<open>Rows\<close>

lemma mapE_ok: "(\<And>x. x \<in> set xs \<Longrightarrow> f x = Inr (g x)) \<Longrightarrow> mapE f xs = Inr (map g xs)"
  by (induction xs) auto

lemma read_at_nat: "k < length xs \<Longrightarrow> read_at xs (int k) = Inr (xs ! k)"
  by (simp add: read_at_def)

text \<open>The rows of a complete tensor.\<close>

definition rows_of :: "'a list \<Rightarrow> nat \<Rightarrow> nat \<Rightarrow> 'a list list" where
  "rows_of xs h w = map (\<lambda>m. take w (drop (m * w) xs)) [0..<h]"

lemma read_rows_complete:
  assumes "length xs = h * w"
  shows "read_rows xs (int h) (int w) = Inr (rows_of xs h w)"
proof -
  have row: "mapE (\<lambda>n. read_at xs (int m * int w + int n)) [0..<w] = Inr (take w (drop (m * w) xs))" if "m < h" for m
  proof -
    have start_row: "m * w \<le> length xs" unfolding assms by (rule mult_le_mono1) (use that in simp)
    have end_row: "(m + 1) * w \<le> h * w" by (rule mult_le_mono1) (use that in simp)
    have "mapE (\<lambda>n. read_at xs (int m * int w + int n)) [0..<w] = Inr (map (\<lambda>n. xs ! (m * w + n)) [0..<w])"
    proof (rule mapE_ok)
      fix n assume "n \<in> set [0..<w]"
      then have n: "m * w + n < length xs" using end_row assms by simp
      have i: "int m * int w + int n = int (m * w + n)" by simp
      show "read_at xs (int m * int w + int n) = Inr (xs ! (m * w + n))" unfolding i by (rule read_at_nat [OF n])
    qed
    also have "map (\<lambda>n. xs ! (m * w + n)) [0..<w] = take w (drop (m * w) xs)"
    proof (rule nth_equalityI)
      from start_row show "map (\<lambda>n. xs ! (m * w + n)) [0..<w] ! i = take w (drop (m * w) xs) ! i"
        if "i < length (map (\<lambda>n. xs ! (m * w + n)) [0..<w])" for i using that by (simp add: nth_drop)
    qed (use end_row assms in simp)
    finally show ?thesis .
  qed
  show ?thesis unfolding read_rows_def rows_of_def nat_int by (rule mapE_ok) (use row in simp)
qed

text \<open>Outputs that are complete float tensors of two dimensions.\<close>

definition matrix :: "nat \<times> nat \<times> double list \<Rightarrow> ort_value" where
  "matrix = (\<lambda>(h, w, xs). Float_Tensor \<lparr>tn_shape = [int h, int w], tn_data = xs\<rparr>)"

definition complete_matrix :: "nat \<times> nat \<times> double list \<Rightarrow> bool" where
  "complete_matrix = (\<lambda>(h, w, xs). length xs = h * w)"

lemma two_dims_complete:
  "list_all complete_matrix ms \<Longrightarrow> two_dims (map matrix ms) ret = Inr (Some (ret @ map (\<lambda>(h, w, xs). rows_of xs h w) ms))"
  by (induction ms arbitrary: ret) (auto simp: matrix_def complete_matrix_def read_rows_complete)

lemma mfr_dump_complete: "list_all complete_matrix ms \<Longrightarrow> OnnxSNDingMFRTask_DumpInferenceRet (map matrix ms) = Inr ()"
  by (induction ms) (auto simp: matrix_def complete_matrix_def read_rows_complete)

lemma mfr_result_complete:
  "list_all complete_matrix ms \<Longrightarrow> bindE (OnnxSNDingMFRTask_DumpInferenceRet (map matrix ms)) (\<lambda>_. OnnxSNDingMFRTask_ParseInferenceResult junk (map matrix ms)) =
     Inr (Datum_val junk (VRet (map (\<lambda>(h, w, xs). rows_of xs h w) ms)))"
  by (simp add: mfr_dump_complete OnnxSNDingMFRTask_ParseInferenceResult_def two_dims_complete)

lemma mapE_Undefined: "x \<in> set xs \<Longrightarrow> f x = Inl Undefined \<Longrightarrow> (\<And>y e. f y = Inl e \<Longrightarrow> e = Undefined) \<Longrightarrow> mapE f xs = Inl Undefined"
proof (induction xs)
  case (Cons y ys)
  then show ?case by (cases "f y") auto
qed simp

lemma read_at_Inl: "read_at xs i = Inl e \<Longrightarrow> e = Undefined"
  by (simp add: read_at_def split: if_splits)

lemma mapE_Inl: "mapE f xs = Inl e \<Longrightarrow> \<exists>x\<in>set xs. f x = Inl e"
  by (induction xs) (auto simp: bindE_def split: sum.splits)

text \<open>On a model that ends in one row of scores, as for a batch of one, the printing of the results runs past the
  tensor: its loop counts the two dimensions where it means the rows. The task with the same parser and
  the correct printing loop (\<open>OnnxSNDingMFRTask\<close>) returns the row.\<close>

lemma OnnxTwoDimesionTask_one_row:
  assumes "length xs = w" "0 < w" "input_at as_inputs (ctx_inputs ctx) 0 = Inr (Some data)"
    and "Loader_Inference create run loader data = Inr (Some [matrix (1, w, xs)], loader')"
    and "c_at (ctx_outputs ctx) 0 = Inr s"
  shows "OnnxTwoDimesionTask_Process junk create run loader ctx = Inl Undefined \<and>
    OnnxSNDingMFRTask_Process junk create run loader ctx =
       Inr (0, loader', ctx\<lparr>ctx_outputs := c_put (ctx_outputs ctx) 0 (os_AddDatum (Datum_val junk (VRet [[xs]])) s)\<rparr>)"
proof -
  have "mapE (\<lambda>n. read_at xs (int 1 * int w + int n)) [0..<w] = Inl Undefined"
    by (rule mapE_Undefined [where x = 0]) (use assms(1,2) in \<open>simp_all add: read_at_def split: if_splits\<close>)
  then have "read_rows xs (int 2) (int w) = Inl Undefined"
    unfolding read_rows_def nat_int by (rule mapE_Undefined [where x = 1, rotated]) (auto dest!: mapE_Inl read_at_Inl)
  then have dump: "OnnxTwoDimesionTask_DumpInferenceRet [matrix (1, w, xs)] = Inl Undefined"
    by (simp add: matrix_def read_at_def)
  have "OnnxTwoDimesionTask_Process junk create run loader ctx = Inl Undefined"
    by (simp only: OnnxTwoDimesionTask_Process_def OnnxTask_Process_def assms(3,4) dump bindE_simps option.case prod.case)
  moreover have "list_all complete_matrix [(1, w, xs)]" using assms(1) by (simp add: complete_matrix_def)
  note r = mfr_result_complete [OF this, of junk, simplified list.map prod.case]
  have "rows_of xs 1 w = [xs]" using assms(1) by (simp add: rows_of_def)
  then have "OnnxSNDingMFRTask_Process junk create run loader ctx =
       Inr (0, loader', ctx\<lparr>ctx_outputs := c_put (ctx_outputs ctx) 0 (os_AddDatum (Datum_val junk (VRet [[xs]])) s)\<rparr>)"
    by (simp only: OnnxSNDingMFRTask_Process_def OnnxTask_Process_def assms(3-5) r bindE_simps option.case prod.case)
  ultimately show ?thesis by blast
qed

definition mfr_demo_ctx :: "onnx_val task_context" where
  "mfr_demo_ctx = onnx_ctx (onnx_inputs (VInputs [[Fin 1]]))"

lemma OnnxTwoDimesionTask_one_row_example:
  "OnnxTwoDimesionTask_Process 1 (\<lambda>data shape. Inr data) (\<lambda>_ ts _. Some [matrix (1, 1, hd ts)])
     (Fixed_Loader \<lparr>fl_in_names = [''x''], fl_dims = [[1, 1]], fl_out_names = [''y'']\<rparr>) mfr_demo_ctx = Inl Undefined"
proof -
  let ?l = "Fixed_Loader \<lparr>fl_in_names = [''x''], fl_dims = [[1, 1]], fl_out_names = [''y'']\<rparr>"
  have i: "input_at as_inputs (ctx_inputs mfr_demo_ctx) 0 = Inr (Some [[Fin 1]])" by code_simp
  have out: "c_at (ctx_outputs mfr_demo_ctx) 0 = Inr OutputStream0" by code_simp
  have l: "Loader_Inference (\<lambda>data shape. Inr data) (\<lambda>_ ts _. Some [matrix (1, 1, hd ts)]) ?l [[Fin 1]] =
      Inr (Some [matrix (1, 1, [Fin 1])], ?l)"
    by (simp add: Loader_Inference_def ONNXFixedModelLoader_Inference_def)
  show ?thesis by (rule OnnxTwoDimesionTask_one_row [OF _ _ i l out, THEN conjunct1]) simp_all
qed

section \<open>The label\<close>

text \<open>\<open>k\<close> is the first position of the greatest element.\<close>

definition first_max :: "'a::linorder list \<Rightarrow> nat \<Rightarrow> bool" where
  "first_max xs k \<longleftrightarrow> k < length xs \<and> (\<forall>j<length xs. xs ! j \<le> xs ! k) \<and> (\<forall>j<k. xs ! j < xs ! k)"

lemma first_max_unique: "first_max xs k \<Longrightarrow> first_max xs l \<Longrightarrow> k = l"
  unfolding first_max_def by (metis leD linorder_neqE_nat)

lemma max_loop_first:
  "first_max pre k \<Longrightarrow> first_max (pre @ xs) (max_loop (<) (pre ! k) k xs (length pre))"
proof (induction xs arbitrary: pre k)
  case (Cons x xs)
  have k: "k < length pre" using Cons.prems by (simp add: first_max_def)
  show ?case
  proof (cases "pre ! k < x")
    case True
    then have "first_max (pre @ [x]) (length pre)"
      using Cons.prems by (auto simp: first_max_def nth_append less_Suc_eq dest: order.strict_implies_order intro: le_less_trans)
    from Cons.IH [OF this] show ?thesis using True by simp
  next
    case False
    then have "first_max (pre @ [x]) k" using Cons.prems by (auto simp: first_max_def nth_append less_Suc_eq not_less)
    from Cons.IH [OF this] show ?thesis using False k by (simp add: nth_append)
  qed
qed simp

lemma max_element_first: "xs \<noteq> [] \<Longrightarrow> first_max xs (max_element (<) xs)"
proof (cases xs)
  case (Cons x ys)
  have "first_max [x] 0" by (simp add: first_max_def)
  from max_loop_first [OF this, of ys] show ?thesis by (simp add: Cons)
qed simp

lemma max_loop_dlt: "list_all (\<lambda>x. x \<noteq> NaN) (b # xs) \<Longrightarrow> max_loop dlt b k xs i = max_loop (<) b k xs i"
  by (induction xs arbitrary: b k i) (auto simp: dlt_def)

lemma max_element_dlt: "list_all (\<lambda>x. x \<noteq> NaN) xs \<Longrightarrow> max_element dlt xs = max_element (<) xs"
  by (cases xs) (simp_all add: max_loop_dlt)

lemma count_up_all:
  "list_all (\<lambda>p. p < length counts) ps \<Longrightarrow>
   foldE count_up ps counts = Inr (map (\<lambda>k. counts ! k + int (count_list ps k)) [0..<length counts])"
proof (induction ps arbitrary: counts)
  case Nil
  then show ?case by (simp add: map_nth)
next
  case (Cons p ps)
  let ?c = "counts[p := counts ! p + 1]"
  have "foldE count_up ps ?c = Inr (map (\<lambda>k. ?c ! k + int (count_list ps k)) [0..<length ?c])"
    using Cons.prems by (intro Cons.IH) simp
  moreover have "map (\<lambda>k. ?c ! k + int (count_list ps k)) [0..<length ?c] =
      map (\<lambda>k. counts ! k + int (count_list (p # ps) k)) [0..<length counts]"
    using Cons.prems by (auto simp: nth_list_update)
  moreover have "count_up p counts = Inr ?c" using Cons.prems by (simp add: count_up_def)
  ultimately show ?case by simp
qed

lemma count_list_filter: "count_list (map f xs) k = length (filter (\<lambda>x. f x = k) xs)"
  by (induction xs) auto

text \<open>C27: the label of a batch is decided by a vote: every row of ten scores votes for the class with its first
  greatest score, and the label is that of the first class with the most votes.\<close>

theorem get_label_by_vote:
  assumes "list_all (\<lambda>row. length row = 10 \<and> list_all (\<lambda>x. x \<noteq> NaN) row) rows"
  shows "\<exists>k. first_max (map (\<lambda>c. length (filter (\<lambda>row. first_max row c) rows)) [0..<10]) k \<and>
    get_label_from_infer_ret (rows # rest) = Inr (label_relation_dict ! k)"
proof -
  have row: "max_element dlt row = c \<longleftrightarrow> first_max row c" if "row \<in> set rows" for row c
  proof -
    have "row \<noteq> []" "list_all (\<lambda>x. x \<noteq> NaN) row" using assms that by (auto simp: list_all_iff)
    then have "first_max row (max_element dlt row)" using max_element_first max_element_dlt by metis
    then show ?thesis using first_max_unique by auto
  qed
  let ?votes = "map (\<lambda>c. length (filter (\<lambda>row. first_max row c) rows)) [0..<10]"
  have len: "length label_relation_dict = 10" by (simp add: label_relation_dict_def)
  have "max_element dlt row < 10" if "row \<in> set rows" for row
    using row [OF that, of "max_element dlt row"] assms that by (auto simp: first_max_def list_all_iff)
  then have "foldE count_up (map (max_element dlt) rows) (replicate 10 0) =
      Inr (map (\<lambda>k. replicate 10 0 ! k + int (count_list (map (max_element dlt) rows) k)) [0..<length (replicate 10 (0 :: int))])"
    by (intro count_up_all) (simp add: list_all_iff)
  also have "\<dots> = Inr (map int ?votes)"
  proof -
    have "filter (\<lambda>row. max_element dlt row = k) rows = filter (\<lambda>row. first_max row k) rows" for k
      using row by (intro filter_cong) auto
    then show ?thesis by (auto simp: count_list_filter intro!: map_cong)
  qed
  finally have counts: "foldE count_up (map (max_element dlt) rows) (replicate 10 0) = Inr (map int ?votes)" .
  define k where "k = max_element (<) (map int ?votes)"
  have "map int ?votes \<noteq> []" by simp
  then have "first_max (map int ?votes) k" unfolding k_def by (rule max_element_first)
  then have first: "first_max ?votes k" by (auto simp: first_max_def)
  then have "k < 10" by (simp add: first_max_def)
  then have "get_label_from_infer_ret (rows # rest) = Inr (label_relation_dict ! k)"
    using read_at_nat [of k label_relation_dict]
    by (simp only: get_label_from_infer_ret_def len counts bindE_simps read_at_nat [of 0 "rows # rest", simplified] flip: k_def)
  then show ?thesis using first by blast
qed

theorem get_label_by_vote_witness:
  "\<exists>k. first_max (map (\<lambda>c. length (filter (\<lambda>row. first_max row c) [map (\<lambda>i. Fin (of_nat i)) [0..<10]])) [0..<10]) k \<and>
    get_label_from_infer_ret [[map (\<lambda>i. Fin (of_nat i)) [0..<10]]] = Inr (label_relation_dict ! k)"
  by (rule get_label_by_vote [of "[map (\<lambda>i. Fin (of_nat i)) [0..<10]]" "[]"]) (simp add: list_all_iff)

section \<open>Labels with probabilities\<close>

lemma put_pairs_ok:
  assumes "length (tn_data keys) = n" "length (tn_data vals) = n" "i \<le> n"
  shows "\<exists>p. put_pairs keys vals [i..<n] acc = Inr p \<and> map_of p = map_of acc ++ map_of (rev (zip (drop i (tn_data keys)) (drop i (tn_data vals))))"
  using assms(3)
proof (induction "n - i" arbitrary: i acc)
  case 0
  then show ?case using assms(1,2) by simp
next
  case (Suc d)
  have i: "i < n" using Suc.hyps(2) by simp
  let ?k = "tn_data keys ! i" and ?v = "tn_data vals ! i"
  obtain p where p: "put_pairs keys vals [i + 1..<n] (um_insert ?k ?v acc) = Inr p"
    "map_of p = map_of (um_insert ?k ?v acc) ++ map_of (rev (zip (drop (i + 1) (tn_data keys)) (drop (i + 1) (tn_data vals))))"
    using Suc.hyps(1) [of "i + 1" "um_insert ?k ?v acc"] Suc.hyps(2) i
    by (metis Suc_diff_Suc Suc_eq_plus1 Suc_leI diff_Suc_Suc nat.inject)
  have zip: "zip (drop i (tn_data keys)) (drop i (tn_data vals)) = (?k, ?v) # zip (drop (i + 1) (tn_data keys)) (drop (i + 1) (tn_data vals))"
    using i assms(1,2) by (simp add: Cons_nth_drop_Suc [symmetric])
  have "put_pairs keys vals [i..<n] acc = Inr p" using i assms(1,2) p(1) by (simp add: upt_conv_Cons read_at_nat)
  moreover have "map_of p = map_of acc ++ map_of (rev (zip (drop i (tn_data keys)) (drop i (tn_data vals))))"
    unfolding p(2) zip by (simp add: um_lookup_update)
  ultimately show ?case by blast
qed

text \<open>A map of \<open>n\<close> keys and \<open>n\<close> values, and what it becomes: the last value of a key.\<close>

definition pair_map :: "int list \<times> double list \<Rightarrow> int tensor \<times> double tensor" where
  "pair_map = (\<lambda>(ks, vs). (\<lparr>tn_shape = [int (length ks)], tn_data = ks\<rparr>, \<lparr>tn_shape = [int (length vs)], tn_data = vs\<rparr>))"

lemma logreg_maps_ok:
  "list_all (\<lambda>(ks, vs). length ks = length vs) ms \<Longrightarrow>
   \<exists>ps. logreg_maps (map pair_map ms) acc = Inr (Some (acc @ ps)) \<and> list_all2 (\<lambda>(ks, vs) p. map_of p = map_of (rev (zip ks vs))) ms ps"
proof (induction ms arbitrary: acc)
  case (Cons m ms)
  obtain ks vs where m: "m = (ks, vs)" "length ks = length vs" using Cons.prems by (cases m) simp
  obtain p where p: "put_pairs (fst (pair_map m)) (snd (pair_map m)) [0..<length vs] [] = Inr p" "map_of p = map_of (rev (zip ks vs))"
    using put_pairs_ok [of "fst (pair_map m)" "length vs" "snd (pair_map m)" 0 "[]"] m by (auto simp: pair_map_def)
  obtain ps where ps: "logreg_maps (map pair_map ms) (acc @ [p]) = Inr (Some ((acc @ [p]) @ ps))"
    "list_all2 (\<lambda>(ks, vs) p. map_of p = map_of (rev (zip ks vs))) ms ps"
    using Cons.IH [of "acc @ [p]"] Cons.prems by auto
  have "logreg_maps (map pair_map (m # ms)) acc = Inr (Some (acc @ p # ps))"
    using p(1) ps(1) m by (simp add: pair_map_def)
  then show ?case using p(2) ps(2) m(1) by (intro exI [of _ "p # ps"]) simp
qed simp

text \<open>A classifier with one label and one map of probabilities for each sample: the task returns the labels and
  maps that send each class to the last probability given for it.\<close>

lemma OnnxLogRegTask_ParseInferenceResult_ok:
  assumes "list_all (\<lambda>(ks, vs). length ks = length vs) ms"
  shows "\<exists>ps. OnnxLogRegTask_ParseInferenceResult junk 2 [Int_Tensor \<lparr>tn_shape = [int (length labels)], tn_data = labels\<rparr>, Map_Sequence (map pair_map ms)] =
      Inr (Datum_val junk (VLogReg \<lparr>lr_output_labels = [[labels]], lr_output_probabilities = ps\<rparr>)) \<and>
    list_all2 (\<lambda>(ks, vs) p. map_of p = map_of (rev (zip ks vs))) ms ps"
proof -
  obtain ps where ps: "logreg_maps (map pair_map ms) [] = Inr (Some ps)" "list_all2 (\<lambda>(ks, vs) p. map_of p = map_of (rev (zip ks vs))) ms ps"
    using logreg_maps_ok [OF assms, of "[]"] by auto
  have rows: "read_rows labels 1 (int (length labels)) = Inr [labels]"
    using read_rows_complete [of labels 1 "length labels"] by (simp add: rows_of_def)
  have "[0..<2] = [0, 1 :: nat]" by (simp add: upt_rec numeral_2_eq_2)
  then show ?thesis using ps(2) by (intro exI [of _ ps]) (simp add: OnnxLogRegTask_ParseInferenceResult_def read_at_def rows ps(1))
qed

lemma OnnxLogRegTask_ParseInferenceResult_ok_example:
  "\<exists>p. OnnxLogRegTask_ParseInferenceResult 1 2 [Int_Tensor \<lparr>tn_shape = [1], tn_data = [2]\<rparr>, Map_Sequence [pair_map ([1, 2], [Fin 0, Fin 1])]] =
      Inr (Datum_val 1 (VLogReg \<lparr>lr_output_labels = [[[2]]], lr_output_probabilities = [p]\<rparr>)) \<and> map_of p 2 = Some (Fin 1)"
  using OnnxLogRegTask_ParseInferenceResult_ok [of "[([1, 2], [Fin 0, Fin 1])]" 1 "[2]"]
  by (auto simp: list_all2_Cons1)

end
