(* ===== verification/Rb_Rows.thy ===== *)
theory Rb_Rows
  imports Packet_Parse
begin

text \<open>
  The slots of the shared ring buffer as the detection server reads them:
  \<open>samples/ddos/realtime_with_sccm_with_grpc/common/rb_data_parse.cc\<close>. Its \<open>parse_ethtype_vlan\<close> is that of
  \<open>Packet_Parse\<close>; a packet is a row of six numbers here, in the order source address, source port,
  destination port, protocol, length, destination address. The header of a slot carries the statistics of the
  network card. Numbers are in the byte order of the host, \<open>double\<close>s in the IEEE 754 format.
\<close>

section \<open>Rows\<close>

text \<open>\<open>None\<close> is \<open>default: return\<close>.\<close>

definition row_ports :: "bytes \<Rightarrow> nat \<Rightarrow> u32 \<Rightarrow> (u32 \<times> u32) option outcome" where
  "row_ports mem ip_header proto =
     (if proto = 6 \<or> proto = 17 \<or> proto = 33 then
        bindE (byte_at mem ip_header) (\<lambda>vhl. let l4 = ip_header + unat (vhl AND 15) * 4 in
        bindE (be16_at mem l4) (\<lambda>sport. bindE (be16_at mem (l4 + 2)) (\<lambda>dport. Inr (Some (sport, dport)))))
      else if proto \<in> set [1, 2, 8, 47, 46, 51, 88, 89] then Inr (Some (0, 0))
      else Inr None)"

definition parse_row :: "bytes \<Rightarrow> nat \<Rightarrow> u32 list list \<Rightarrow> u32 list list outcome" where
  "parse_row mem body packets = bindE (parse_ethtype_vlan mem body) (\<lambda>(rc, h_proto, l3_off).
     if rc \<noteq> 0 then Inr packets
     else if h_proto = 0x0800 then let ip_header = body + l3_off in
       bindE (be32_at mem (ip_header + 12)) (\<lambda>src. bindE (be32_at mem (ip_header + 16)) (\<lambda>dst.
       bindE (byte_at mem (ip_header + 9)) (\<lambda>proto. bindE (row_ports mem ip_header proto) (\<lambda>r. case r of
           None \<Rightarrow> Inr packets
         | Some (sport, dport) \<Rightarrow> bindE (be16_at mem (ip_header + 2)) (\<lambda>ip_len.
             Inr (packets @ [[src, sport, dport, proto, ip_len, dst]]))))))
     else Inr packets)"

fun row_loop :: "nat \<Rightarrow> bytes \<Rightarrow> nat \<Rightarrow> u32 \<Rightarrow> u32 list list \<Rightarrow> u32 list list outcome" where
  "row_loop 0 mem data pkt_len packets = Inr packets"
| "row_loop (Suc n) mem data pkt_len packets =
     (let data = data + 2 in
      bindE (parse_row mem data packets) (\<lambda>packets.
      let data = data + unat pkt_len in
      bindE (le16_at mem data) (\<lambda>pkt_len. row_loop n mem data pkt_len packets)))"

definition parse_rows :: "bytes \<Rightarrow> nat \<Rightarrow> u32 \<Rightarrow> u32 list list \<Rightarrow> u32 list list outcome" where
  "parse_rows mem pktsdata cnt packets = bindE (le16_at mem pktsdata) (\<lambda>pkt_len. row_loop (unat cnt) mem pktsdata pkt_len packets)"

section \<open>The header of a slot\<close>

text \<open>The number a \<open>double\<close> of 64 bits stands for; the two zeros are one.\<close>

definition double_of_bits :: "nat \<Rightarrow> double" where
  "double_of_bits n = (let e = (n div 2 ^ 52) mod 2 ^ 11; m = n mod 2 ^ 52; neg = 2 ^ 63 \<le> n;
       q = (if e = 0 then of_nat m * pow2 (- 1074) else of_nat (2 ^ 52 + m) * pow2 (int e - 1075)) in
     if e = 2047 then (if m \<noteq> 0 then NaN else if neg then NInf else PInf)
     else Fin (if neg then - q else q))"

definition signed64 :: "nat \<Rightarrow> int" where
  "signed64 n = (if 2 ^ 63 \<le> n then int n - 2 ^ 64 else int n)"

definition le_double_at :: "bytes \<Rightarrow> nat \<Rightarrow> double outcome" where
  "le_double_at mem p = bindE (le64_at mem p) (\<lambda>n. Inr (double_of_bits n))"

definition le_i64_at :: "bytes \<Rightarrow> nat \<Rightarrow> int outcome" where
  "le_i64_at mem p = bindE (le64_at mem p) (\<lambda>n. Inr (signed64 n))"

text \<open>A loop that reads \<open>n\<close> numbers of \<open>w\<close> bytes.\<close>

fun read_vec :: "(bytes \<Rightarrow> nat \<Rightarrow> 'a outcome) \<Rightarrow> nat \<Rightarrow> nat \<Rightarrow> bytes \<Rightarrow> nat \<Rightarrow> 'a list outcome" where
  "read_vec rd w 0 mem slot = Inr []"
| "read_vec rd w (Suc n) mem slot = bindE (rd mem slot) (\<lambda>v. bindE (read_vec rd w n mem (slot + w)) (\<lambda>vs. Inr (v # vs)))"

record slot_header =
  sh_host_nic_name :: string
  sh_ts :: nat
  sh_pkts_stats :: "u32 list"
  sh_netdev_stats :: "double list"
  sh_speed :: int
  sh_cur_cpu :: double
  sh_resource_stats :: "int list"
  sh_nic_ip :: u32
  sh_mgr_ip :: u32
  sh_additional_stats :: "int list"

text \<open>The header and the offset of the packets from \<open>rbdata\<close>.\<close>

definition parse_slot_header :: "bytes \<Rightarrow> nat \<Rightarrow> (slot_header \<times> nat) outcome" where
  "parse_slot_header mem rbdata = bindE (le16_at mem rbdata) (\<lambda>nic_name_len.
     let slot = rbdata + 2; n = unat nic_name_len in
     if length mem < slot + n then Inl Undefined
     else let nic_name = map (\<lambda>b. char_of (unat b)) (take n (drop slot mem)); slot = slot + n in
       bindE (le64_at mem slot) (\<lambda>ts. let slot = slot + 8 in
       bindE (read_vec le32_at 4 9 mem slot) (\<lambda>pkts_stats. let slot = slot + 36 in
       bindE (read_vec le_double_at 8 4 mem slot) (\<lambda>netdev_stats. let slot = slot + 32 in
       bindE (le_i64_at mem slot) (\<lambda>speed. let slot = slot + 8 in
       bindE (le_double_at mem slot) (\<lambda>cur_cpu. let slot = slot + 8 in
       bindE (read_vec le_i64_at 8 5 mem slot) (\<lambda>resource_stats. let slot = slot + 40 in
       bindE (le32_at mem slot) (\<lambda>nic_ip. let slot = slot + 4 in
       bindE (le32_at mem slot) (\<lambda>mgr_ip. let slot = slot + 4 in
       bindE (read_vec le_i64_at 8 13 mem slot) (\<lambda>additional_stats. let slot = slot + 104 in
         Inr (\<lparr>sh_host_nic_name = nic_name, sh_ts = ts, sh_pkts_stats = pkts_stats, sh_netdev_stats = netdev_stats, sh_speed = speed,
           sh_cur_cpu = cur_cpu, sh_resource_stats = resource_stats, sh_nic_ip = nic_ip, sh_mgr_ip = mgr_ip,
           sh_additional_stats = additional_stats\<rparr>, slot - rbdata)))))))))))"

section \<open>Frames as rows\<close>

definition frame_row :: "frame \<Rightarrow> u32 list list" where
  "frame_row f = (let proto = ucast (fr_proto f) :: u32;
       row = (\<lambda>sport dport. [[fr_src f, sport, dport, proto, ucast (fr_len f), fr_dst f]]) in
     if proto = 6 \<or> proto = 17 \<or> proto = 33 then row (ucast (fr_sport f)) (ucast (fr_dport f))
     else if proto \<in> set [1, 2, 8, 47, 46, 51, 88, 89] then row 0 0
     else [])"

lemma parse_row_at:
  assumes "wf_frame f" "length pre = body"
  shows "parse_row (pre @ enc_frame f @ post) body packets = Inr (packets @ frame_row f)"
proof -
  let ?mem = "pre @ enc_frame f @ post" and ?ip = "body + (14 + 4 * length (fr_tags f))"
  let ?pre = "pre @ fr_macs f @ enc_tags (fr_tags f) @ enc16 0x0800"
  have "length (enc_tags tags) = 4 * length tags" if "wf_tags tags" for tags
    using that by (induction tags) (auto simp: enc_tags_def wf_tags_def)
  then have len: "length ?pre = ?ip" using assms by (simp add: wf_frame_def)
  have mem: "?mem = ?pre @ enc_ip f @ post" by (simp add: enc_frame_def)
  obtain mm ip where mm: "mm = ?mem" and ip: "ip = ?ip" by blast
  have eth: "parse_ethtype_vlan mm body = Inr (0, 0x0800, 14 + 4 * length (fr_tags f))" unfolding mm by (rule ethtype_frame [OF assms])
  have off: "body + (14 + 4 * length (fr_tags f)) = ip" by (simp add: ip)
  note reads = ip_reads [OF assms(1) len, of post, folded mem, folded mm ip]
  have "parse_row mm body packets = Inr (packets @ frame_row f)"
    unfolding parse_row_def eth bindE_simps prod.case off Let_def
    by (simp add: reads row_ports_def frame_row_def Let_def del: add_2_eq_Suc add_2_eq_Suc')
  then show ?thesis by (simp only: mm)
qed

interpretation rows: frame_reader parse_row row_loop frame_row
  by unfold_locales (simp_all add: parse_row_at)

lemma parse_rows_frames:
  assumes "wf_packets fs" "length pre = p" "unat cnt \<le> length fs"
  shows "parse_rows (pre @ enc_pkts fs @ post) p cnt packets =
      (if unat cnt = length fs \<and> length post < 2 then Inl Undefined
       else Inr (packets @ concat (map frame_row (take (unat cnt) fs))))"
  unfolding parse_rows_def by (rule rows.start_frames [OF assms])

section \<open>Writing a slot\<close>

text \<open>A 64-bit number is the pair of its halves, the higher first.\<close>

type_synonym w64 = "u32 \<times> u32"

definition w64_nat :: "w64 \<Rightarrow> nat" where
  "w64_nat = (\<lambda>(h, l). 4294967296 * unat h + unat l)"

definition enc_w64 :: "w64 \<Rightarrow> bytes" where
  "enc_w64 = (\<lambda>(h, l). enc_le64 h l)"

record slot_data =
  sd_name :: string
  sd_ts :: w64
  sd_pkts :: "u32 list"
  sd_netdev :: "w64 list"
  sd_speed :: w64
  sd_cpu :: w64
  sd_resource :: "w64 list"
  sd_nic :: u32
  sd_mgr :: u32
  sd_additional :: "w64 list"
  sd_frames :: "frame list"

definition enc_slot_header :: "slot_data \<Rightarrow> bytes" where
  "enc_slot_header s = enc_le16 (of_nat (length (sd_name s))) @ map (\<lambda>c. of_nat (of_char c)) (sd_name s) @ enc_w64 (sd_ts s) @
     concat (map enc_le32 (sd_pkts s)) @ concat (map enc_w64 (sd_netdev s)) @ enc_w64 (sd_speed s) @ enc_w64 (sd_cpu s) @
     concat (map enc_w64 (sd_resource s)) @ enc_le32 (sd_nic s) @ enc_le32 (sd_mgr s) @ concat (map enc_w64 (sd_additional s))"

definition wf_slot :: "slot_data \<Rightarrow> bool" where
  "wf_slot s \<longleftrightarrow> length (sd_name s) < 65536 \<and> length (sd_pkts s) = 9 \<and> length (sd_netdev s) = 4 \<and> length (sd_resource s) = 5 \<and>
     length (sd_additional s) = 13 \<and> wf_packets (sd_frames s)"

definition slot_header_of :: "slot_data \<Rightarrow> slot_header" where
  "slot_header_of s = \<lparr>sh_host_nic_name = sd_name s, sh_ts = w64_nat (sd_ts s), sh_pkts_stats = sd_pkts s,
     sh_netdev_stats = map (\<lambda>n. double_of_bits (w64_nat n)) (sd_netdev s), sh_speed = signed64 (w64_nat (sd_speed s)),
     sh_cur_cpu = double_of_bits (w64_nat (sd_cpu s)), sh_resource_stats = map (\<lambda>n. signed64 (w64_nat n)) (sd_resource s),
     sh_nic_ip = sd_nic s, sh_mgr_ip = sd_mgr s, sh_additional_stats = map (\<lambda>n. signed64 (w64_nat n)) (sd_additional s)\<rparr>"

lemma length_enc_w64 [simp]: "length (enc_w64 n) = 8"
  by (cases n) (simp add: enc_w64_def)

lemma length_concat_map: "(\<And>v. length (enc v) = w) \<Longrightarrow> length (concat (map enc vs)) = w * length vs"
  by (induction vs) simp_all

lemma w64_at_enc:
  assumes "length pre = p"
  shows "le64_at (pre @ enc_w64 n @ post) p = Inr (w64_nat n)" "le_i64_at (pre @ enc_w64 n @ post) p = Inr (signed64 (w64_nat n))"
    "le_double_at (pre @ enc_w64 n @ post) p = Inr (double_of_bits (w64_nat n))"
  using le64_at_enc [OF assms, of "fst n" "snd n" post]
  by (simp_all add: le_i64_at_def le_double_at_def enc_w64_def w64_nat_def split_beta)

lemma read_vec_enc:
  assumes "\<And>pre v post p. length pre = p \<Longrightarrow> rd (pre @ enc v @ post) p = Inr (dec v)" "\<And>v. length (enc v) = w"
  shows "length pre = p \<Longrightarrow> read_vec rd w (length vs) (pre @ concat (map enc vs) @ post) p = Inr (map dec vs)"
proof (induction vs arbitrary: pre p)
  case (Cons v vs)
  have "rd (pre @ concat (map enc (v # vs)) @ post) p = Inr (dec v)"
    using assms(1) [OF Cons.prems, of v "concat (map enc vs) @ post"] by simp
  moreover have "read_vec rd w (length vs) ((pre @ enc v) @ concat (map enc vs) @ post) (p + w) = Inr (map dec vs)"
    by (rule Cons.IH) (simp add: Cons.prems assms(2))
  ultimately show ?case by simp
qed simp

lemma parse_slot_header_enc:
  assumes "wf_slot s" "length pre = p"
  shows "parse_slot_header (pre @ enc_slot_header s @ post) p = Inr (slot_header_of s, length (enc_slot_header s))"
proof -
  let ?n = "length (sd_name s)" and ?name = "map (\<lambda>c. of_nat (of_char c)) (sd_name s) :: bytes"
  let ?a = "enc_le16 (of_nat ?n)" and ?c = "enc_w64 (sd_ts s)" and ?d = "concat (map enc_le32 (sd_pkts s))"
    and ?e = "concat (map enc_w64 (sd_netdev s))" and ?f = "enc_w64 (sd_speed s)" and ?g = "enc_w64 (sd_cpu s)"
    and ?h = "concat (map enc_w64 (sd_resource s))" and ?i = "enc_le32 (sd_nic s)" and ?j = "enc_le32 (sd_mgr s)"
    and ?k = "concat (map enc_w64 (sd_additional s))"
  define mem where "mem = pre @ enc_slot_header s @ post"
  note md = mem_def enc_slot_header_def
  have w: "?n < 65536" "length (sd_pkts s) = 9" "length (sd_netdev s) = 4" "length (sd_resource s) = 5" "length (sd_additional s) = 13"
    using assms(1) by (simp_all add: wf_slot_def)
  have l: "length ?d = 36" "length ?e = 32" "length ?h = 40" "length ?k = 104"
    using w by (simp_all add: length_concat_map [of enc_le32 4] length_concat_map [of enc_w64 8])
  note len = l assms(2)
  have ra: "le16_at mem p = Inr (ucast (of_nat ?n :: 16 word))"
    using le16_at_enc [OF assms(2), of "of_nat ?n" "?name @ ?c @ ?d @ ?e @ ?f @ ?g @ ?h @ ?i @ ?j @ ?k @ post"] by (simp add: md)
  have rb: "take ?n (drop (p + 2) mem) = ?name" "\<not> length mem < p + 2 + ?n" using assms(2) by (simp_all add: md)
  have rc: "le64_at mem (p + 2 + ?n) = Inr (w64_nat (sd_ts s))"
    using w64_at_enc(1) [of "pre @ ?a @ ?name" "p + 2 + ?n" "sd_ts s" "?d @ ?e @ ?f @ ?g @ ?h @ ?i @ ?j @ ?k @ post"] len by (simp add: md)
  have rd: "read_vec le32_at 4 9 mem (p + 2 + ?n + 8) = Inr (sd_pkts s)"
    using read_vec_enc [of le32_at enc_le32 "\<lambda>v. v" 4 "pre @ ?a @ ?name @ ?c" "p + 2 + ?n + 8" "sd_pkts s" "?e @ ?f @ ?g @ ?h @ ?i @ ?j @ ?k @ post"] len w
    by (simp add: md le32_at_enc)
  have re: "read_vec le_double_at 8 4 mem (p + 2 + ?n + 8 + 36) = Inr (map (\<lambda>n. double_of_bits (w64_nat n)) (sd_netdev s))"
    using read_vec_enc [of le_double_at enc_w64 "\<lambda>n. double_of_bits (w64_nat n)" 8 "pre @ ?a @ ?name @ ?c @ ?d" "p + 2 + ?n + 8 + 36" "sd_netdev s"
        "?f @ ?g @ ?h @ ?i @ ?j @ ?k @ post"] len w
    by (simp add: md w64_at_enc)
  have rf: "le_i64_at mem (p + 2 + ?n + 8 + 36 + 32) = Inr (signed64 (w64_nat (sd_speed s)))"
    using w64_at_enc(2) [of "pre @ ?a @ ?name @ ?c @ ?d @ ?e" "p + 2 + ?n + 8 + 36 + 32" "sd_speed s" "?g @ ?h @ ?i @ ?j @ ?k @ post"] len by (simp add: md)
  have rg: "le_double_at mem (p + 2 + ?n + 8 + 36 + 32 + 8) = Inr (double_of_bits (w64_nat (sd_cpu s)))"
    using w64_at_enc(3) [of "pre @ ?a @ ?name @ ?c @ ?d @ ?e @ ?f" "p + 2 + ?n + 8 + 36 + 32 + 8" "sd_cpu s" "?h @ ?i @ ?j @ ?k @ post"] len by (simp add: md)
  have rh: "read_vec le_i64_at 8 5 mem (p + 2 + ?n + 8 + 36 + 32 + 8 + 8) = Inr (map (\<lambda>n. signed64 (w64_nat n)) (sd_resource s))"
    using read_vec_enc [of le_i64_at enc_w64 "\<lambda>n. signed64 (w64_nat n)" 8 "pre @ ?a @ ?name @ ?c @ ?d @ ?e @ ?f @ ?g" "p + 2 + ?n + 8 + 36 + 32 + 8 + 8"
        "sd_resource s" "?i @ ?j @ ?k @ post"] len w
    by (simp add: md w64_at_enc)
  have ri: "le32_at mem (p + 2 + ?n + 8 + 36 + 32 + 8 + 8 + 40) = Inr (sd_nic s)"
    using le32_at_enc [of "pre @ ?a @ ?name @ ?c @ ?d @ ?e @ ?f @ ?g @ ?h" "p + 2 + ?n + 8 + 36 + 32 + 8 + 8 + 40" "sd_nic s" "?j @ ?k @ post"] len by (simp add: md)
  have rj: "le32_at mem (p + 2 + ?n + 8 + 36 + 32 + 8 + 8 + 40 + 4) = Inr (sd_mgr s)"
    using le32_at_enc [of "pre @ ?a @ ?name @ ?c @ ?d @ ?e @ ?f @ ?g @ ?h @ ?i" "p + 2 + ?n + 8 + 36 + 32 + 8 + 8 + 40 + 4" "sd_mgr s" "?k @ post"] len by (simp add: md)
  have rk: "read_vec le_i64_at 8 13 mem (p + 2 + ?n + 8 + 36 + 32 + 8 + 8 + 40 + 4 + 4) = Inr (map (\<lambda>n. signed64 (w64_nat n)) (sd_additional s))"
    using read_vec_enc [of le_i64_at enc_w64 "\<lambda>n. signed64 (w64_nat n)" 8 "pre @ ?a @ ?name @ ?c @ ?d @ ?e @ ?f @ ?g @ ?h @ ?i @ ?j"
        "p + 2 + ?n + 8 + 36 + 32 + 8 + 8 + 40 + 4 + 4" "sd_additional s" post] len w
    by (simp add: md w64_at_enc)
  have off: "length (enc_slot_header s) = p + 2 + ?n + 8 + 36 + 32 + 8 + 8 + 40 + 4 + 4 + 104 - p" using l by (simp add: enc_slot_header_def)
  show ?thesis
    unfolding mem_def [symmetric] parse_slot_header_def Let_def ra bindE_simps unat_len [OF w(1)] rb(1) rc rd re rf rg rh ri rj rk chars_back off
    using rb(2) by (simp add: slot_header_of_def)
qed

text \<open>C21: a slot of the shared buffer, wherever it lies in memory, is read back as it was written: the header with the
  name, the time, the counters, the floating-point rates and the signed statistics, then from the
  offset the header ends at a row for each of the first packets, with zero ports for the protocols
  without ports and no row for the unknown ones.\<close>

theorem parse_slot_roundtrip:
  assumes "wf_slot s" "unat cnt \<le> length (sd_frames s)" "2 \<le> length post"
  shows "\<exists>offset. parse_slot_header (pre @ enc_slot_header s @ enc_pkts (sd_frames s) @ post) (length pre) = Inr (slot_header_of s, offset) \<and>
    parse_rows (pre @ enc_slot_header s @ enc_pkts (sd_frames s) @ post) (length pre + offset) cnt [] =
      Inr (concat (map frame_row (take (unat cnt) (sd_frames s))))"
proof -
  have wf: "wf_packets (sd_frames s)" using assms(1) by (simp add: wf_slot_def)
  have "parse_rows ((pre @ enc_slot_header s) @ enc_pkts (sd_frames s) @ post) (length pre + length (enc_slot_header s)) cnt [] =
      Inr ([] @ concat (map frame_row (take (unat cnt) (sd_frames s))))"
    using parse_rows_frames [OF wf, of "pre @ enc_slot_header s" _ cnt post "[]"] assms(2,3) by simp
  then show ?thesis using parse_slot_header_enc [OF assms(1) refl, of pre "enc_pkts (sd_frames s) @ post"] by auto
qed

definition demo_slot :: slot_data where
  "demo_slot = \<lparr>sd_name = ''h#n'', sd_ts = (1, 2), sd_pkts = replicate 9 2, sd_netdev = replicate 4 (0x3FF80000, 0), sd_speed = (0xFFFFFFFF, 0xFFFFFFFF),
     sd_cpu = (0, 0), sd_resource = replicate 5 (0, 1), sd_nic = 1, sd_mgr = 2, sd_additional = replicate 13 (0, 7),
     sd_frames = [demo_frame 17, demo_frame 2]\<rparr>"

theorem parse_slot_roundtrip_witness:
  "\<exists>h offset. parse_slot_header ([9] @ enc_slot_header demo_slot @ enc_pkts (sd_frames demo_slot) @ [0, 0]) 1 = Inr (h, offset) \<and>
    sh_speed h = - 1 \<and> sh_netdev_stats h = replicate 4 (Fin (3 / 2)) \<and>
    parse_rows ([9] @ enc_slot_header demo_slot @ enc_pkts (sd_frames demo_slot) @ [0, 0]) (1 + offset) 2 [] =
      Inr [[0x0A000001, 1024, 443, 17, 40, 0x0A000002], [0x0A000001, 0, 0, 2, 40, 0x0A000002]]"
proof -
  have f: "wf_frame (demo_frame 17)" "wf_frame (demo_frame 2)" by code_simp+
  then have "wf_packets [demo_frame 17, demo_frame 2]" by (simp add: wf_packets_def enc_frame_def enc_ip_def enc_tags_def demo_frame_def)
  then have wf: "wf_slot demo_slot" by (simp add: wf_slot_def demo_slot_def)
  have rows: "concat (map frame_row [demo_frame 17, demo_frame 2]) =
      [[0x0A000001, 1024, 443, 17, 40, 0x0A000002], [0x0A000001, 0, 0, 2, 40, 0x0A000002]]" by code_simp
  have v: "signed64 (w64_nat (0xFFFFFFFF, 0xFFFFFFFF)) = - 1" "double_of_bits (w64_nat (0x3FF80000, 0)) = Fin (3 / 2)"
    by (simp_all add: signed64_def w64_nat_def double_of_bits_def pow2_def Let_def)
  have h: "sh_speed (slot_header_of demo_slot) = - 1" "sh_netdev_stats (slot_header_of demo_slot) = replicate 4 (Fin (3 / 2))"
    using v by (simp_all add: slot_header_of_def demo_slot_def)
  have fr: "take (unat (2 :: u32)) (sd_frames demo_slot) = [demo_frame 17, demo_frame 2]" by (simp add: demo_slot_def)
  have cnt: "unat (2 :: u32) \<le> length (sd_frames demo_slot)" by (simp add: demo_slot_def)
  show ?thesis using parse_slot_roundtrip [OF wf cnt, of "[0, 0]" "[9]"] h unfolding fr rows by auto
qed

end
