(* ===== verification/Slot_Queue.thy ===== *)
theory Slot_Queue
  imports Streams
begin

text \<open>
  How slots of the shared ring buffer reach the threads that analyse them:
  \<open>samples/ddos/realtime_with_sccm_with_grpc/server/dni_server.cc\<close>, the queue \<open>spsc\<close> between the reading thread
  and a calculating thread and the loop of \<open>read_rb\<close>. The locale \<open>slot_queue\<close> is the contract of the queue,
  interpreted on \<open>spsc\<close>. Two threads use it at once: \<open>spsc_step\<close> has one rule for every load and store of
  \<open>push\<close> and \<open>pop\<close>. The loads of the other thread's index acquire what its release store published, so the steps
  of the two threads interleave as if memory were sequentially consistent. Indices are below \<open>2^31\<close>.
\<close>

section \<open>The queue\<close>

record 'a spsc =
  sp_data :: "'a list"
  sp_head :: nat
  sp_tail :: nat
  sp_cap :: nat

text \<open>\<open>null\<close> is the value \<open>resize\<close> fills the vector with.\<close>

definition spsc_new :: "'a \<Rightarrow> nat \<Rightarrow> 'a spsc" where
  "spsc_new null Cap = \<lparr>sp_data = replicate Cap null, sp_head = 0, sp_tail = 0, sp_cap = Cap\<rparr>"

text \<open>An index outside the vector and a remainder by 0 are undefined.\<close>

definition spsc_push :: "'a \<Rightarrow> 'a spsc \<Rightarrow> 'a spsc outcome" where
  "spsc_push d q = (let t = sp_tail q in
     if length (sp_data q) \<le> t \<or> sp_cap q = 0 then Inl Undefined
     else Inr (q\<lparr>sp_data := (sp_data q)[t := d], sp_tail := (t + 1) mod sp_cap q\<rparr>))"

text \<open>\<open>None\<close> is \<open>false\<close>.\<close>

definition spsc_pop :: "'a spsc \<Rightarrow> ('a option \<times> 'a spsc) outcome" where
  "spsc_pop q = (let h = sp_head q in
     if h = sp_tail q then Inr (None, q)
     else if length (sp_data q) \<le> h \<or> sp_cap q = 0 then Inl Undefined
     else Inr (Some (sp_data q ! h), q\<lparr>sp_head := (h + 1) mod sp_cap q\<rparr>))"

section \<open>The contract\<close>

text \<open>Uses of a queue in any order, \<open>Some d\<close> to put and \<open>None\<close> to get, with what was got.\<close>

fun queue_uses ::
  "('a \<Rightarrow> 'q \<Rightarrow> 'q outcome) \<Rightarrow> ('q \<Rightarrow> ('a option \<times> 'q) outcome) \<Rightarrow> 'a option list \<Rightarrow> 'q \<Rightarrow> 'a list \<Rightarrow> ('a list \<times> 'q) outcome" where
  "queue_uses put get [] q got = Inr (got, q)"
| "queue_uses put get (Some d # us) q got = bindE (put d q) (\<lambda>q. queue_uses put get us q got)"
| "queue_uses put get (None # us) q got = bindE (get q) (\<lambda>(x, q). queue_uses put get us q (got @ (case x of None \<Rightarrow> [] | Some d \<Rightarrow> [d])))"

text \<open>With \<open>n\<close> elements waiting, the queue never fills up.\<close>

fun roomy :: "nat \<Rightarrow> 'a option list \<Rightarrow> nat \<Rightarrow> bool" where
  "roomy c [] n \<longleftrightarrow> True"
| "roomy c (Some d # us) n \<longleftrightarrow> Suc n < c \<and> roomy c us (Suc n)"
| "roomy c (None # us) n \<longleftrightarrow> roomy c us (n - 1)"

text \<open>A queue of a fixed capacity that has room for one element less: an element put into a full queue makes it
  look empty.\<close>

locale slot_queue =
  fixes items :: "'q \<Rightarrow> 'a list"
    and put :: "'a \<Rightarrow> 'q \<Rightarrow> 'q outcome"
    and get :: "'q \<Rightarrow> ('a option \<times> 'q) outcome"
    and capacity :: "'q \<Rightarrow> nat"
    and invar :: "'q \<Rightarrow> bool"
  assumes room: "invar q \<Longrightarrow> length (items q) < capacity q"
    and put_room: "invar q \<Longrightarrow> Suc (length (items q)) < capacity q \<Longrightarrow>
      \<exists>q'. put d q = Inr q' \<and> invar q' \<and> items q' = items q @ [d] \<and> capacity q' = capacity q"
    and put_full: "invar q \<Longrightarrow> Suc (length (items q)) = capacity q \<Longrightarrow>
      \<exists>q'. put d q = Inr q' \<and> invar q' \<and> items q' = [] \<and> capacity q' = capacity q"
    and get_none: "invar q \<Longrightarrow> items q = [] \<Longrightarrow> get q = Inr (None, q)"
    and get_some: "invar q \<Longrightarrow> items q = d # ds \<Longrightarrow>
      \<exists>q'. get q = Inr (Some d, q') \<and> invar q' \<and> items q' = ds \<and> capacity q' = capacity q"
begin

lemma uses_fifo:
  "invar q \<Longrightarrow> roomy (capacity q) us (length (items q)) \<Longrightarrow>
   \<exists>got' q'. queue_uses put get us q got = Inr (got @ got', q') \<and> invar q' \<and> capacity q' = capacity q \<and>
     got' @ items q' = items q @ List.map_filter (\<lambda>u. u) us"
proof (induction us arbitrary: q got)
  case Nil
  then show ?case by (simp add: map_filter_simps)
next
  case (Cons u us)
  show ?case
  proof (cases u)
    case (Some d)
    then obtain q1 where q1: "put d q = Inr q1" "invar q1" "items q1 = items q @ [d]" "capacity q1 = capacity q"
      using put_room Cons.prems by fastforce
    have "roomy (capacity q1) us (length (items q1))" using Cons.prems(2) by (simp add: Some q1(3,4))
    from Cons.IH [OF q1(2) this, of got] show ?thesis by (auto simp: Some q1 map_filter_simps)
  next
    case None
    show ?thesis
    proof (cases "items q")
      case Nil
      then have "roomy (capacity q) us (length (items q))" using Cons.prems(2) by (simp add: None)
      from Cons.IH [OF Cons.prems(1) this, of got] show ?thesis
        by (simp add: None get_none [OF Cons.prems(1) Nil] map_filter_simps)
    next
      case items: (Cons d ds)
      obtain q1 where q1: "get q = Inr (Some d, q1)" "invar q1" "items q1 = ds" "capacity q1 = capacity q"
        using get_some [OF Cons.prems(1) items] by blast
      have "roomy (capacity q1) us (length (items q1))" using Cons.prems(2) by (simp add: None items q1(3,4))
      from Cons.IH [OF q1(2) this, of "got @ [d]"] obtain got' q' where
        "queue_uses put get us q1 (got @ [d]) = Inr ((got @ [d]) @ got', q')" "invar q'" "capacity q' = capacity q1"
        "got' @ items q' = items q1 @ List.map_filter (\<lambda>u. u) us" by blast
      then show ?thesis by (intro exI [of _ "d # got'"] exI [of _ q']) (simp add: None q1 items map_filter_simps)
    qed
  qed
qed

text \<open>As many elements as the capacity, put into an empty queue with no get in between, are all lost.\<close>

lemma put_all:
  "invar q \<Longrightarrow> Suc (length (items q) + length ds) \<le> capacity q \<Longrightarrow>
   \<exists>q'. foldE put ds q = Inr q' \<and> invar q' \<and> items q' = items q @ ds \<and> capacity q' = capacity q"
proof (induction ds arbitrary: q)
  case (Cons d ds)
  obtain q1 where q1: "put d q = Inr q1" "invar q1" "items q1 = items q @ [d]" "capacity q1 = capacity q"
    using put_room [OF Cons.prems(1), of d] Cons.prems(2) by auto
  have "Suc (length (items q1) + length ds) \<le> capacity q1" using Cons.prems(2) by (simp add: q1(3,4))
  from Cons.IH [OF q1(2) this] show ?case by (auto simp: q1)
qed simp

lemma overrun:
  assumes "invar q" "items q = []" "length ds = capacity q"
  shows "\<exists>q'. foldE put ds q = Inr q' \<and> items q' = [] \<and> get q' = Inr (None, q')"
proof -
  have "0 < capacity q" using room [OF assms(1)] by simp
  then obtain es d where ds: "ds = es @ [d]" using assms(3) by (cases ds rule: rev_cases) auto
  then have "Suc (length (items q) + length es) \<le> capacity q" using assms(2,3) by simp
  from put_all [OF assms(1) this] obtain q1 where q1: "foldE put es q = Inr q1" "invar q1" "items q1 = es" "capacity q1 = capacity q"
    using assms(2) by auto
  then have "Suc (length (items q1)) = capacity q1" using assms(3) ds by simp
  from put_full [OF q1(2) this, of d] obtain q2 where q2: "put d q1 = Inr q2" "invar q2" "items q2 = []" by blast
  have "foldE put ds q = Inr q2" by (simp add: ds foldE_append q1(1) q2(1))
  then show ?thesis using q2 get_none by blast
qed

end

section \<open>The ring\<close>

definition sp_count :: "'a spsc \<Rightarrow> nat" where
  "sp_count q = (sp_tail q + sp_cap q - sp_head q) mod sp_cap q"

definition sp_items :: "'a spsc \<Rightarrow> 'a list" where
  "sp_items q = map (\<lambda>i. sp_data q ! ((sp_head q + i) mod sp_cap q)) [0..<sp_count q]"

definition sp_invar :: "'a spsc \<Rightarrow> bool" where
  "sp_invar q \<longleftrightarrow> length (sp_data q) = sp_cap q \<and> sp_head q < sp_cap q \<and> sp_tail q < sp_cap q"

lemma length_sp_items [simp]: "length (sp_items q) = sp_count q"
  by (simp add: sp_items_def)

text \<open>Distances on a ring of \<open>c\<close> places.\<close>

lemma ring_step: "a < c \<Longrightarrow> Suc a mod c = (if Suc a = c then 0 else Suc a)" for a c :: nat
  by simp

lemma ring_count:
  fixes h t c :: nat
  assumes "h < c" "t < c"
  shows "(t + c - h) mod c = (if h \<le> t then t - h else t + c - h)"
proof (cases "h \<le> t")
  case True
  then have "t + c - h = (t - h) + c" by simp
  moreover have "(t - h) mod c = t - h" using assms(2) by simp
  ultimately show ?thesis using True by (simp only: mod_add_self2 if_True)
next
  case False
  then show ?thesis using assms by simp
qed

lemma ring_put:
  fixes h t c :: nat
  assumes "h < c" "t < c"
  shows "(Suc t mod c + c - h) mod c = (if Suc ((t + c - h) mod c) = c then 0 else Suc ((t + c - h) mod c))"
proof (cases "Suc t = c")
  case True
  then have "Suc t mod c = 0" by simp
  then show ?thesis using ring_count [OF assms] ring_count [of h c 0] assms True by auto
next
  case False
  then have "Suc t mod c = Suc t" "Suc t < c" using assms by simp_all
  then show ?thesis using ring_count [OF assms] ring_count [of h c "Suc t"] assms by auto
qed

lemma ring_get:
  fixes h t c :: nat
  assumes "h < c" "t < c" "h \<noteq> t"
  shows "(t + c - Suc h mod c) mod c = (t + c - h) mod c - 1"
proof (cases "Suc h = c")
  case True
  then have "Suc h mod c = 0" by simp
  then show ?thesis using ring_count [OF assms(1,2)] ring_count [of 0 c t] assms True by auto
next
  case False
  then have "Suc h mod c = Suc h" "Suc h < c" using assms by simp_all
  then show ?thesis using ring_count [OF assms(1,2)] ring_count [of "Suc h" c t] assms by auto
qed

lemma ring_place:
  fixes h t c :: nat
  assumes "h < c" "t < c"
  shows "(h + (t + c - h) mod c) mod c = t"
  unfolding ring_count [OF assms] using assms by auto

lemma ring_before:
  fixes h t c i :: nat
  assumes "h < c" "t < c" "i < (t + c - h) mod c"
  shows "(h + i) mod c \<noteq> t"
proof -
  have i: "i < (if h \<le> t then t - h else t + c - h)" using assms(3) unfolding ring_count [OF assms(1,2)] .
  show ?thesis
  proof (cases "h + i < c")
    case True
    then have "(h + i) mod c = h + i" by simp
    then show ?thesis using i by (cases "h \<le> t") simp_all
  next
    case False
    then have "h + i = (h + i - c) + c" "h + i - c < c" using i assms(1,2) by (cases "h \<le> t"; simp)+
    then have "(h + i) mod c = h + i - c" by (metis mod_add_self2 mod_less)
    then show ?thesis using i False assms(1,2) by (cases "h \<le> t") simp_all
  qed
qed

lemma sp_count_less: "sp_invar q \<Longrightarrow> sp_count q < sp_cap q"
  by (simp add: sp_count_def sp_invar_def)

text \<open>Writing at the tail changes no element.\<close>

lemma sp_items_write: "sp_invar q \<Longrightarrow> sp_items (q\<lparr>sp_data := (sp_data q)[sp_tail q := d]\<rparr>) = sp_items q"
proof -
  assume q: "sp_invar q"
  have "sp_data q ! ((sp_head q + i) mod sp_cap q) = (sp_data q)[sp_tail q := d] ! ((sp_head q + i) mod sp_cap q)"
    if "i < sp_count q" for i
    using ring_before [of "sp_head q" "sp_cap q" "sp_tail q" i] q that by (simp add: sp_invar_def sp_count_def)
  then show ?thesis by (simp add: sp_items_def sp_count_def)
qed

text \<open>Moving the tail adds the element there, or makes the queue look empty.\<close>

lemma sp_items_publish:
  assumes "sp_invar q"
  shows "sp_items (q\<lparr>sp_tail := Suc (sp_tail q) mod sp_cap q\<rparr>) =
    (if Suc (sp_count q) = sp_cap q then [] else sp_items q @ [sp_data q ! sp_tail q])"
proof -
  have q: "sp_head q < sp_cap q" "sp_tail q < sp_cap q" using assms by (simp_all add: sp_invar_def)
  have "sp_count (q\<lparr>sp_tail := Suc (sp_tail q) mod sp_cap q\<rparr>) = (if Suc (sp_count q) = sp_cap q then 0 else Suc (sp_count q))"
    using ring_put [OF q] by (simp add: sp_count_def)
  then show ?thesis using ring_place [OF q] by (simp add: sp_items_def sp_count_def [symmetric])
qed

lemma sp_items_take:
  assumes "sp_invar q" "sp_head q \<noteq> sp_tail q"
  shows "sp_items q = sp_data q ! sp_head q # sp_items (q\<lparr>sp_head := Suc (sp_head q) mod sp_cap q\<rparr>)"
proof -
  have q: "sp_head q < sp_cap q" "sp_tail q < sp_cap q" using assms by (simp_all add: sp_invar_def)
  let ?q = "q\<lparr>sp_head := Suc (sp_head q) mod sp_cap q\<rparr>"
  have n: "sp_count ?q = sp_count q - 1" using ring_get [OF q assms(2)] by (simp add: sp_count_def)
  have pos: "0 < sp_count q" using ring_count [OF q] assms(2) q by (auto simp: sp_count_def)
  have "sp_items q = map (\<lambda>i. sp_data q ! ((sp_head q + i) mod sp_cap q)) (0 # map Suc [0..<sp_count q - 1])"
    unfolding sp_items_def using pos by (simp add: map_Suc_upt upt_conv_Cons)
  also have "\<dots> = sp_data q ! sp_head q # sp_items ?q"
    using q n by (simp add: sp_items_def comp_def mod_add_left_eq del: map_Suc_upt)
  finally show ?thesis .
qed

lemma sp_items_Nil: "sp_invar q \<Longrightarrow> sp_items q = [] \<longleftrightarrow> sp_head q = sp_tail q"
proof -
  assume "sp_invar q"
  then have q: "sp_head q < sp_cap q" "sp_tail q < sp_cap q" by (simp_all add: sp_invar_def)
  have "sp_items q = [] \<longleftrightarrow> sp_count q = 0" by (simp add: sp_items_def)
  also have "\<dots> \<longleftrightarrow> sp_head q = sp_tail q" using ring_count [OF q] q by (auto simp: sp_count_def)
  finally show ?thesis .
qed

lemma sp_push_items:
  assumes "sp_invar q"
  shows "\<exists>q'. spsc_push d q = Inr q' \<and> sp_invar q' \<and> sp_cap q' = sp_cap q \<and>
    sp_items q' = (if Suc (sp_count q) = sp_cap q then [] else sp_items q @ [d])"
proof -
  let ?q = "q\<lparr>sp_data := (sp_data q)[sp_tail q := d]\<rparr>"
  have inv: "sp_invar ?q" "sp_tail q < length (sp_data q)" "0 < sp_cap q" using assms by (auto simp: sp_invar_def)
  have c: "sp_count ?q = sp_count q" by (simp add: sp_count_def)
  have "sp_items (?q\<lparr>sp_tail := Suc (sp_tail q) mod sp_cap q\<rparr>) = (if Suc (sp_count q) = sp_cap q then [] else sp_items q @ [d])"
    using sp_items_publish [OF inv(1)] sp_items_write [OF assms, of d] inv(2) c by simp
  moreover have "sp_invar (?q\<lparr>sp_tail := Suc (sp_tail q) mod sp_cap q\<rparr>)" using assms by (auto simp: sp_invar_def)
  ultimately show ?thesis using inv by (simp add: spsc_push_def Let_def)
qed

interpretation spsc: slot_queue sp_items spsc_push spsc_pop sp_cap sp_invar
proof
  fix q :: "'a spsc" and d ds
  assume q: "sp_invar q"
  show "length (sp_items q) < sp_cap q" using sp_count_less [OF q] by simp
  show "\<exists>q'. spsc_push d q = Inr q' \<and> sp_invar q' \<and> sp_items q' = sp_items q @ [d] \<and> sp_cap q' = sp_cap q"
    if "Suc (length (sp_items q)) < sp_cap q" using sp_push_items [OF q, of d] that by auto
  show "\<exists>q'. spsc_push d q = Inr q' \<and> sp_invar q' \<and> sp_items q' = [] \<and> sp_cap q' = sp_cap q"
    if "Suc (length (sp_items q)) = sp_cap q" using sp_push_items [OF q, of d] that by auto
  show "spsc_pop q = Inr (None, q)" if "sp_items q = []"
    using that sp_items_Nil [OF q] by (simp add: spsc_pop_def)
  show "\<exists>q'. spsc_pop q = Inr (Some d, q') \<and> sp_invar q' \<and> sp_items q' = ds \<and> sp_cap q' = sp_cap q" if i: "sp_items q = d # ds"
  proof -
    have ne: "sp_head q \<noteq> sp_tail q" using sp_items_Nil [OF q] i by auto
    have "sp_invar (q\<lparr>sp_head := Suc (sp_head q) mod sp_cap q\<rparr>)" using q by (auto simp: sp_invar_def)
    then show ?thesis using sp_items_take [OF q ne] i ne q by (auto simp: spsc_pop_def sp_invar_def Let_def)
  qed
qed

section \<open>Properties of the queue\<close>

text \<open>C29: the queue between the reading and the calculating thread is first in, first out: used in any order, as
  long as it never holds more than one element less than its capacity, what was got and what is left are
  what was there and what was put, in order, and no operation fails.\<close>

theorem spsc_fifo:
  assumes "sp_invar q" "roomy (sp_cap q) us (sp_count q)"
  shows "\<exists>got q'. queue_uses spsc_push spsc_pop us q [] = Inr (got, q') \<and> sp_invar q' \<and>
    got @ sp_items q' = sp_items q @ List.map_filter (\<lambda>u. u) us"
  using spsc.uses_fifo [OF assms(1), of us "[]"] assms(2) by auto

lemma spsc_new_invar: "0 < Cap \<Longrightarrow> sp_invar (spsc_new null Cap) \<and> sp_items (spsc_new null Cap) = [] \<and> sp_cap (spsc_new null Cap) = Cap"
  by (simp add: spsc_new_def sp_invar_def sp_items_def sp_count_def)

theorem spsc_fifo_witness:
  "\<exists>got q'. queue_uses spsc_push spsc_pop [Some 5, Some 6, None, Some 7, None] (spsc_new 0 3) [] = Inr (got, q') \<and>
    got @ sp_items q' = [5, 6, 7 :: nat]"
proof -
  have "sp_invar (spsc_new (0 :: nat) 3)" "roomy (sp_cap (spsc_new (0 :: nat) 3)) [Some 5, Some 6, None, Some (7 :: nat), None] (sp_count (spsc_new (0 :: nat) 3))"
    by (simp_all add: spsc_new_def sp_invar_def sp_count_def)
  from spsc_fifo [OF this] show ?thesis by (auto simp: spsc_new_def sp_items_def sp_count_def map_filter_simps)
qed

text \<open>C38: the queue does not notice that it is full: as many slots as its capacity, pushed while the calculating thread
  is busy, are all lost, and \<open>pop\<close> finds the queue empty.\<close>

theorem spsc_overrun:
  assumes "sp_invar q" "sp_head q = sp_tail q" "length ds = sp_cap q"
  shows "\<exists>q'. foldE spsc_push ds q = Inr q' \<and> sp_items q' = [] \<and> spsc_pop q' = Inr (None, q')"
  using spsc.overrun [OF assms(1) _ assms(3)] assms(2) sp_items_Nil [OF assms(1)] by simp

theorem spsc_overrun_witness:
  "\<exists>q'. foldE spsc_push [0..<100] (spsc_new 0 100) = Inr q' \<and> sp_items q' = [] \<and> spsc_pop q' = Inr (None, q')"
  by (rule spsc_overrun) (simp_all add: spsc_new_def sp_invar_def)

section \<open>Two threads\<close>

datatype 'a pushing = Push_Idle | Push_Loaded 'a nat | Push_Written 'a nat

datatype 'a popping = Pop_Idle | Pop_Loaded nat | Pop_Ready nat | Pop_Got nat 'a

record 'a spsc_threads =
  st_queue :: "'a spsc"
  st_push :: "'a pushing"
  st_pop :: "'a popping"
  st_pushed :: "'a list"
  st_popped :: "'a list"

text \<open>One rule for each access to shared memory: \<open>push\<close> loads the tail, writes the element, stores the tail; \<open>pop\<close>
  loads the head, loads the tail, reads the element, stores the head. With \<open>guarded\<close> a push begins only while
  there is room, which the program does not check.\<close>

inductive spsc_step :: "bool \<Rightarrow> 'a spsc_threads \<Rightarrow> 'a spsc_threads \<Rightarrow> bool" for guarded where
  push_load: "st_push s = Push_Idle \<Longrightarrow> (guarded \<longrightarrow> Suc (sp_count (st_queue s)) < sp_cap (st_queue s)) \<Longrightarrow>
    spsc_step guarded s (s\<lparr>st_push := Push_Loaded d (sp_tail (st_queue s))\<rparr>)"
| push_write: "st_push s = Push_Loaded d t \<Longrightarrow>
    spsc_step guarded s (s\<lparr>st_queue := (st_queue s)\<lparr>sp_data := (sp_data (st_queue s))[t := d]\<rparr>, st_push := Push_Written d t\<rparr>)"
| push_store: "st_push s = Push_Written d t \<Longrightarrow>
    spsc_step guarded s (s\<lparr>st_queue := (st_queue s)\<lparr>sp_tail := Suc t mod sp_cap (st_queue s)\<rparr>, st_push := Push_Idle,
      st_pushed := st_pushed s @ [d]\<rparr>)"
| pop_load: "st_pop s = Pop_Idle \<Longrightarrow> spsc_step guarded s (s\<lparr>st_pop := Pop_Loaded (sp_head (st_queue s))\<rparr>)"
| pop_empty: "st_pop s = Pop_Loaded h \<Longrightarrow> h = sp_tail (st_queue s) \<Longrightarrow> spsc_step guarded s (s\<lparr>st_pop := Pop_Idle\<rparr>)"
| pop_ready: "st_pop s = Pop_Loaded h \<Longrightarrow> h \<noteq> sp_tail (st_queue s) \<Longrightarrow> spsc_step guarded s (s\<lparr>st_pop := Pop_Ready h\<rparr>)"
| pop_read: "st_pop s = Pop_Ready h \<Longrightarrow> spsc_step guarded s (s\<lparr>st_pop := Pop_Got h (sp_data (st_queue s) ! h)\<rparr>)"
| pop_store: "st_pop s = Pop_Got h d \<Longrightarrow>
    spsc_step guarded s (s\<lparr>st_queue := (st_queue s)\<lparr>sp_head := Suc h mod sp_cap (st_queue s)\<rparr>, st_pop := Pop_Idle,
      st_popped := st_popped s @ [d]\<rparr>)"

definition spsc_start :: "'a \<Rightarrow> nat \<Rightarrow> 'a spsc_threads" where
  "spsc_start null Cap = \<lparr>st_queue = spsc_new null Cap, st_push = Push_Idle, st_pop = Pop_Idle, st_pushed = [], st_popped = []\<rparr>"

text \<open>What holds between any two steps of a guarded run.\<close>

definition push_ok :: "'a spsc \<Rightarrow> 'a pushing \<Rightarrow> bool" where
  "push_ok q p \<longleftrightarrow> (case p of Push_Idle \<Rightarrow> True
     | Push_Loaded d t \<Rightarrow> t = sp_tail q \<and> Suc (sp_count q) < sp_cap q
     | Push_Written d t \<Rightarrow> t = sp_tail q \<and> Suc (sp_count q) < sp_cap q \<and> sp_data q ! t = d)"

definition pop_ok :: "'a spsc \<Rightarrow> 'a popping \<Rightarrow> bool" where
  "pop_ok q p \<longleftrightarrow> (case p of Pop_Idle \<Rightarrow> True
     | Pop_Loaded h \<Rightarrow> h = sp_head q
     | Pop_Ready h \<Rightarrow> h = sp_head q \<and> h \<noteq> sp_tail q
     | Pop_Got h d \<Rightarrow> h = sp_head q \<and> h \<noteq> sp_tail q \<and> sp_data q ! h = d)"

definition threads_ok :: "'a spsc_threads \<Rightarrow> bool" where
  "threads_ok s \<longleftrightarrow> sp_invar (st_queue s) \<and> push_ok (st_queue s) (st_push s) \<and> pop_ok (st_queue s) (st_pop s) \<and>
     st_popped s @ sp_items (st_queue s) = st_pushed s"

lemmas ok_simps [simp] = push_ok_def pop_ok_def

lemma sp_count_data [simp]: "sp_count (q\<lparr>sp_data := xs\<rparr>) = sp_count q"
  by (simp add: sp_count_def)

lemma sp_count_pop: "sp_invar q \<Longrightarrow> sp_head q \<noteq> sp_tail q \<Longrightarrow> sp_count (q\<lparr>sp_head := Suc (sp_head q) mod sp_cap q\<rparr>) = sp_count q - 1"
  using ring_get by (simp add: sp_count_def sp_invar_def)

lemma tail_not_head: "sp_invar q \<Longrightarrow> Suc (sp_count q) < sp_cap q \<Longrightarrow> Suc (sp_tail q) mod sp_cap q \<noteq> sp_head q"
  using ring_put [of "sp_head q" "sp_cap q" "sp_tail q"] by (auto simp: sp_invar_def sp_count_def)

lemma step_ok:
  assumes "spsc_step True s s'" "threads_ok s"
  shows "threads_ok s'"
  using assms(1)
proof cases
  case (push_load d)
  then show ?thesis using assms(2) by (simp add: threads_ok_def)
next
  case (push_write d t)
  have q: "sp_invar (st_queue s)" "t = sp_tail (st_queue s)" using assms(2) push_write(2) by (simp_all add: threads_ok_def)
  have "pop_ok ((st_queue s)\<lparr>sp_data := (sp_data (st_queue s))[t := d]\<rparr>) (st_pop s)"
    using assms(2) q by (auto simp: threads_ok_def split: popping.splits)
  then show ?thesis using assms(2) push_write sp_items_write [OF q(1), of d]
    by (auto simp: threads_ok_def sp_invar_def)
next
  case (push_store d t)
  have q: "sp_invar (st_queue s)" "t = sp_tail (st_queue s)" "Suc (sp_count (st_queue s)) < sp_cap (st_queue s)"
    "sp_data (st_queue s) ! t = d" using assms(2) push_store(2) by (auto simp: threads_ok_def)
  let ?q = "(st_queue s)\<lparr>sp_tail := Suc t mod sp_cap (st_queue s)\<rparr>"
  have "sp_items ?q = sp_items (st_queue s) @ [d]" using sp_items_publish [OF q(1)] q(2-4) by simp
  moreover have "pop_ok ?q (st_pop s)" using assms(2) tail_not_head [OF q(1,3)] q(2)
    by (auto simp: threads_ok_def split: popping.splits)
  moreover have "sp_invar ?q" using q(1) by (auto simp: sp_invar_def)
  ultimately show ?thesis using assms(2) push_store by (auto simp: threads_ok_def)
next
  case pop_load
  then show ?thesis using assms(2) by (simp add: threads_ok_def)
next
  case (pop_empty h)
  then show ?thesis using assms(2) by (simp add: threads_ok_def)
next
  case (pop_ready h)
  then show ?thesis using assms(2) by (simp add: threads_ok_def)
next
  case (pop_read h)
  then show ?thesis using assms(2) by (simp add: threads_ok_def)
next
  case (pop_store h d)
  have q: "sp_invar (st_queue s)" "h = sp_head (st_queue s)" "sp_head (st_queue s) \<noteq> sp_tail (st_queue s)"
    "sp_data (st_queue s) ! h = d" using assms(2) pop_store(2) by (auto simp: threads_ok_def)
  let ?q = "(st_queue s)\<lparr>sp_head := Suc h mod sp_cap (st_queue s)\<rparr>"
  have "sp_items (st_queue s) = d # sp_items ?q" using sp_items_take [OF q(1,3)] q(2,4) by simp
  moreover have "push_ok ?q (st_push s)" using assms(2) sp_count_pop [OF q(1,3)] q(2)
    by (auto simp: threads_ok_def split: pushing.splits)
  moreover have "sp_invar ?q" using q(1) by (auto simp: sp_invar_def)
  ultimately show ?thesis using assms(2) pop_store by (auto simp: threads_ok_def)
qed

lemma run_ok: "(spsc_step True)\<^sup>*\<^sup>* s s' \<Longrightarrow> threads_ok s \<Longrightarrow> threads_ok s'"
  by (induction rule: rtranclp_induct) (auto intro: step_ok)

text \<open>C6: in every interleaving of the two threads, load by load and store by store, in which a push begins only while
  there is room, the slots popped are the first of those pushed, in order: none is lost, repeated or read
  before it was written.\<close>

theorem spsc_threads_fifo:
  assumes "0 < Cap" "(spsc_step True)\<^sup>*\<^sup>* (spsc_start null Cap) s"
  shows "st_popped s @ sp_items (st_queue s) = st_pushed s \<and> (\<forall>h d. st_pop s = Pop_Got h d \<longrightarrow> sp_items (st_queue s) \<noteq> [] \<and> hd (sp_items (st_queue s)) = d)"
proof -
  have "threads_ok (spsc_start null Cap)"
    using spsc_new_invar [OF assms(1), of null] by (simp add: spsc_start_def threads_ok_def)
  from run_ok [OF assms(2) this] have ok: "threads_ok s" .
  have "sp_items (st_queue s) \<noteq> [] \<and> hd (sp_items (st_queue s)) = d" if "st_pop s = Pop_Got h d" for h d
    using ok that sp_items_take [of "st_queue s"] by (auto simp: threads_ok_def)
  then show ?thesis using ok by (auto simp: threads_ok_def)
qed

theorem spsc_threads_fifo_witness:
  "\<exists>s. (spsc_step True)\<^sup>*\<^sup>* (spsc_start 0 2) s \<and> st_pop s = Pop_Got 0 (7 :: nat) \<and> st_popped s @ sp_items (st_queue s) = [7]"
proof -
  let ?q = "\<lparr>sp_data = [7, 0], sp_head = 0, sp_tail = 0, sp_cap = 2\<rparr>"
  let ?s = "\<lambda>q a b l. \<lparr>st_queue = q, st_push = a, st_pop = b, st_pushed = l, st_popped = [] :: nat list\<rparr>"
  let ?s1 = "?s (spsc_new 0 2) (Push_Loaded 7 0) Pop_Idle []" and ?s2 = "?s ?q (Push_Written 7 0) Pop_Idle []"
    and ?s3 = "?s (?q\<lparr>sp_tail := 1\<rparr>) Push_Idle Pop_Idle [7]" and ?s4 = "?s (?q\<lparr>sp_tail := 1\<rparr>) Push_Idle (Pop_Loaded 0) [7]"
    and ?s5 = "?s (?q\<lparr>sp_tail := 1\<rparr>) Push_Idle (Pop_Ready 0) [7]" and ?s6 = "?s (?q\<lparr>sp_tail := 1\<rparr>) Push_Idle (Pop_Got 0 7) [7]"
  have n: "spsc_new 0 2 = \<lparr>sp_data = [0, 0 :: nat], sp_head = 0, sp_tail = 0, sp_cap = 2\<rparr>" by (simp add: spsc_new_def numeral_2_eq_2)
  have c1: "spsc_step True (spsc_start 0 2) ?s1" using spsc_step.push_load [of "spsc_start (0 :: nat) 2" True 7] by (simp add: spsc_start_def n sp_count_def)
  have c2: "spsc_step True ?s1 ?s2" using spsc_step.push_write [of ?s1 7 0 True] by (simp add: n)
  have c3: "spsc_step True ?s2 ?s3" using spsc_step.push_store [of ?s2 7 0 True] by simp
  have c4: "spsc_step True ?s3 ?s4" using spsc_step.pop_load [of ?s3 True] by simp
  have c5: "spsc_step True ?s4 ?s5" using spsc_step.pop_ready [of ?s4 0 True] by simp
  have c6: "spsc_step True ?s5 ?s6" using spsc_step.pop_read [of ?s5 0 True] by simp
  note r = rtranclp.rtrancl_into_rtrancl [of "spsc_step True"]
  have run: "(spsc_step True)\<^sup>*\<^sup>* (spsc_start 0 2) ?s6"
    by (rule r [OF r [OF r [OF r [OF r [OF r [OF rtranclp.rtrancl_refl [of "spsc_step True" "spsc_start 0 2"] c1] c2] c3] c4] c5] c6])
  have "st_popped ?s6 @ sp_items (st_queue ?s6) = st_pushed ?s6" using spsc_threads_fifo [OF _ run] by simp
  then show ?thesis using run by (intro exI [of _ ?s6]) simp
qed

section \<open>The shared ring buffer\<close>

text \<open>The header of the shared memory, the queues of the graphs (an element is the offset of a slot in the data
  buffer) and the graph whose turn it is. The reading thread also loads the length of the name at the
  start of the slot and uses it for nothing.\<close>

record ring_reader =
  rr_head :: nat
  rr_tail :: nat
  rr_size :: nat
  rr_queues :: "nat spsc list"
  rr_graph_index :: nat

definition rb_used :: "nat \<Rightarrow> nat \<Rightarrow> nat \<Rightarrow> nat" where
  "rb_used head tail n = (if head \<le> tail then tail - head else (n + 2 ^ 64 - (head - tail)) mod 2 ^ 64)"

text \<open>What \<open>read_rb\<close> does first, on shared memory of \<open>slot_count\<close> slots.\<close>

definition read_rb_start :: "nat \<Rightarrow> nat \<Rightarrow> nat spsc list \<Rightarrow> ring_reader" where
  "read_rb_start slot_size slot_count queues =
     \<lparr>rr_head = 0, rr_tail = 0, rr_size = slot_size * slot_count, rr_queues = queues, rr_graph_index = 0\<rparr>"

definition read_rb_step :: "nat \<Rightarrow> nat \<Rightarrow> ring_reader \<Rightarrow> ring_reader outcome" where
  "read_rb_step slot_size graph_cnt r =
     (if rb_used (rr_head r) (rr_tail r) (rr_size r) < slot_size then Inr r
      else if rr_size r = 0 \<or> graph_cnt = 0 \<or> length (rr_queues r) \<le> rr_graph_index r then Inl Undefined
      else let nic_data = rr_head r;
               r = r\<lparr>rr_head := (rr_head r + slot_size) mod rr_size r mod 2 ^ 32\<rparr>
        in bindE (spsc_push nic_data (rr_queues r ! rr_graph_index r)) (\<lambda>q.
             Inr (r\<lparr>rr_queues := (rr_queues r)[rr_graph_index r := q], rr_graph_index := (rr_graph_index r + 1) mod graph_cnt\<rparr>)))"

text \<open>What can happen: the producer moves the tail, the reading thread does one round, the thread of a graph
  takes a slot.\<close>

datatype ring_event = Produce nat | Read_Round | Take_Slot nat

fun ring_run :: "nat \<Rightarrow> nat \<Rightarrow> ring_event list \<Rightarrow> ring_reader \<Rightarrow> nat list \<Rightarrow> (ring_reader \<times> nat list) outcome" where
  "ring_run slot_size graph_cnt [] r got = Inr (r, got)"
| "ring_run slot_size graph_cnt (Produce t # es) r got = ring_run slot_size graph_cnt es (r\<lparr>rr_tail := t\<rparr>) got"
| "ring_run slot_size graph_cnt (Read_Round # es) r got =
     bindE (read_rb_step slot_size graph_cnt r) (\<lambda>r. ring_run slot_size graph_cnt es r got)"
| "ring_run slot_size graph_cnt (Take_Slot i # es) r got =
     (if length (rr_queues r) \<le> i then Inl Undefined
      else bindE (spsc_pop (rr_queues r ! i)) (\<lambda>(x, q).
        ring_run slot_size graph_cnt es (r\<lparr>rr_queues := (rr_queues r)[i := q]\<rparr>) (got @ (case x of None \<Rightarrow> [] | Some p \<Rightarrow> [p]))))"

definition slot_at :: "nat \<Rightarrow> nat \<Rightarrow> nat \<Rightarrow> bool" where
  "slot_at slot_size n p \<longleftrightarrow> slot_size dvd p \<and> p + slot_size \<le> n"

definition ring_ok :: "nat \<Rightarrow> nat \<Rightarrow> nat \<Rightarrow> ring_reader \<Rightarrow> bool" where
  "ring_ok slot_size slot_count graph_cnt r \<longleftrightarrow> rr_size r = slot_size * slot_count \<and> slot_at slot_size (rr_size r) (rr_head r) \<and>
     rr_size r \<le> 2 ^ 32 \<and> 0 < slot_size \<and> 0 < graph_cnt \<and> length (rr_queues r) = graph_cnt \<and> rr_graph_index r < graph_cnt \<and>
     (\<forall>q\<in>set (rr_queues r). sp_invar q \<and> (\<forall>p\<in>set (sp_items q). slot_at slot_size (rr_size r) p))"

lemma next_slot:
  assumes "slot_at n (n * c) p" "n * c \<le> 2 ^ 32" "0 < n"
  shows "slot_at n (n * c) ((p + n) mod (n * c) mod 2 ^ 32)"
proof -
  obtain k where k: "p = n * k" using assms(1) by (auto simp: slot_at_def)
  have "n * Suc k \<le> n * c" using assms(1) by (simp add: slot_at_def k add.commute)
  then have kc: "Suc k \<le> c" using assms(3) by (simp only: mult_le_cancel1)
  have m: "(p + n) mod (n * c) = n * (Suc k mod c)" unfolding k mult_mod_right by (simp add: add.commute)
  have "Suc (Suc k mod c) \<le> c" using kc by (simp add: Suc_leI)
  then have "n * Suc (Suc k mod c) \<le> n * c" by (rule mult_le_mono2)
  then have le: "n * (Suc k mod c) + n \<le> n * c" by (simp only: mult_Suc_right add.commute)
  then have "n * (Suc k mod c) < 2 ^ 32" using assms(2,3) by linarith
  then have "(p + n) mod (n * c) mod 2 ^ 32 = n * (Suc k mod c)" unfolding m by (rule mod_less)
  then show ?thesis using le by (simp only: slot_at_def dvd_triv_left simp_thms)
qed

lemma ring_ok_queue:
  assumes "ring_ok n c g r" "i < g"
  shows "sp_invar (rr_queues r ! i) \<and> (\<forall>p\<in>set (sp_items (rr_queues r ! i)). slot_at n (n * c) p)"
proof -
  have "rr_size r = n * c" "i < length (rr_queues r)" using assms by (simp_all add: ring_ok_def)
  then show ?thesis using assms(1) nth_mem [of i "rr_queues r"] unfolding ring_ok_def by metis
qed

lemma read_rb_step_ok:
  assumes "ring_ok n c g r"
  shows "\<exists>r'. read_rb_step n g r = Inr r' \<and> ring_ok n c g r'"
proof (cases "rb_used (rr_head r) (rr_tail r) (rr_size r) < n")
  case True
  then show ?thesis using assms by (simp add: read_rb_step_def)
next
  case False
  have r: "rr_size r = n * c" "slot_at n (n * c) (rr_head r)" "n * c \<le> 2 ^ 32" "0 < n" "rr_graph_index r < length (rr_queues r)" "0 < g"
    "length (rr_queues r) = g" using assms by (auto simp: ring_ok_def)
  let ?i = "rr_graph_index r"
  have inv: "sp_invar (rr_queues r ! ?i)" "\<forall>p\<in>set (sp_items (rr_queues r ! ?i)). slot_at n (n * c) p"
    using ring_ok_queue [OF assms, of ?i] r(5,7) by simp_all
  obtain q where q: "spsc_push (rr_head r) (rr_queues r ! ?i) = Inr q" "sp_invar q"
    "sp_items q = [] \<or> sp_items q = sp_items (rr_queues r ! ?i) @ [rr_head r]"
    using sp_push_items [OF inv(1), of "rr_head r"] by auto
  have "\<forall>p\<in>set (sp_items q). slot_at n (n * c) p" using q(3) inv(2) r(2) by auto
  moreover have "0 < rr_size r" using r(2,4) unfolding slot_at_def r(1) by linarith
  moreover have "slot_at n (n * c) ((rr_head r + n) mod (n * c) mod 2 ^ 32)" by (rule next_slot [OF r(2-4)])
  ultimately show ?thesis using False assms q(1,2) r
    by (auto simp: read_rb_step_def Let_def ring_ok_def dest: set_update_subset_insert [THEN subsetD])
qed

lemma take_slot_ok:
  assumes "ring_ok n c g r" "i < g"
  shows "\<exists>x q. spsc_pop (rr_queues r ! i) = Inr (x, q) \<and> ring_ok n c g (r\<lparr>rr_queues := (rr_queues r)[i := q]\<rparr>) \<and>
    (\<forall>p. x = Some p \<longrightarrow> slot_at n (n * c) p)"
proof -
  have len: "i < length (rr_queues r)" using assms by (simp add: ring_ok_def)
  let ?q = "rr_queues r ! i"
  have q: "sp_invar ?q" "\<forall>p\<in>set (sp_items ?q). slot_at n (n * c) p" using ring_ok_queue [OF assms] by simp_all
  show ?thesis
  proof (cases "sp_items ?q")
    case Nil
    then show ?thesis using spsc.get_none [OF q(1)] assms(1) by (simp add: list_update_id)
  next
    case (Cons d ds)
    obtain q' where q': "spsc_pop ?q = Inr (Some d, q')" "sp_invar q'" "sp_items q' = ds" using spsc.get_some [OF q(1) Cons] by blast
    then have "ring_ok n c g (r\<lparr>rr_queues := (rr_queues r)[i := q']\<rparr>)"
      using assms(1) q(2) Cons by (auto simp: ring_ok_def dest!: set_update_subset_insert [THEN subsetD])
    then show ?thesis using q' q(2) Cons by auto
  qed
qed

text \<open>C34: whatever the producer stores as the tail and however the threads take turns, the reading thread never fails,
  and every offset a calculating thread gets is a whole slot of the shared buffer: a multiple of the slot
  size, with the slot inside the buffer.\<close>

theorem ring_run_slots:
  assumes "0 < slot_size" "0 < slot_count" "slot_size * slot_count \<le> 2 ^ 32" "0 < graph_cnt" "0 < Cap"
    and "\<forall>i. Take_Slot i \<in> set es \<longrightarrow> i < graph_cnt"
  shows "\<exists>r got. ring_run slot_size graph_cnt es (read_rb_start slot_size slot_count (replicate graph_cnt (spsc_new 0 Cap))) [] = Inr (r, got) \<and>
    (\<forall>p\<in>set got. slot_size dvd p \<and> p + slot_size \<le> slot_size * slot_count)"
proof -
  have run: "ring_ok slot_size slot_count graph_cnt r \<Longrightarrow> \<forall>i. Take_Slot i \<in> set es \<longrightarrow> i < graph_cnt \<Longrightarrow>
      \<forall>p\<in>set got. slot_at slot_size (slot_size * slot_count) p \<Longrightarrow>
      \<exists>r' got'. ring_run slot_size graph_cnt es r got = Inr (r', got') \<and> (\<forall>p\<in>set got'. slot_at slot_size (slot_size * slot_count) p)" for es r got
  proof (induction es arbitrary: r got)
    case (Cons e es)
    have rest: "\<forall>i. Take_Slot i \<in> set es \<longrightarrow> i < graph_cnt" using Cons.prems(2) by simp
    show ?case
    proof (cases e)
      case (Produce t)
      have "ring_ok slot_size slot_count graph_cnt (r\<lparr>rr_tail := t\<rparr>)"
        using Cons.prems(1) by (cases r) (auto simp: ring_ok_def)
      from Cons.IH [OF this rest Cons.prems(3)] show ?thesis by (simp add: Produce)
    next
      case Read_Round
      obtain r' where "read_rb_step slot_size graph_cnt r = Inr r'" "ring_ok slot_size slot_count graph_cnt r'"
        using read_rb_step_ok [OF Cons.prems(1)] by blast
      then show ?thesis using Cons.IH [OF _ rest Cons.prems(3)] by (simp add: Read_Round)
    next
      case (Take_Slot i)
      then have i: "i < graph_cnt" "i < length (rr_queues r)" using Cons.prems(1,2) by (simp_all add: ring_ok_def)
      obtain x q where x: "spsc_pop (rr_queues r ! i) = Inr (x, q)" "ring_ok slot_size slot_count graph_cnt (r\<lparr>rr_queues := (rr_queues r)[i := q]\<rparr>)"
        "\<forall>p. x = Some p \<longrightarrow> slot_at slot_size (slot_size * slot_count) p" using take_slot_ok [OF Cons.prems(1) i(1)] by blast
      have "\<forall>p\<in>set (got @ (case x of None \<Rightarrow> [] | Some p \<Rightarrow> [p])). slot_at slot_size (slot_size * slot_count) p"
        using Cons.prems(3) x(3) by (auto split: option.splits)
      from Cons.IH [OF x(2) rest this] show ?thesis using i(2) by (simp add: Take_Slot x(1))
    qed
  qed simp
  let ?r = "read_rb_start slot_size slot_count (replicate graph_cnt (spsc_new 0 Cap))"
  have "ring_ok slot_size slot_count graph_cnt ?r"
    using assms(1-5) spsc_new_invar [OF assms(5), of 0] by (auto simp: ring_ok_def read_rb_start_def slot_at_def)
  from run [OF this assms(6), of "[]"] show ?thesis by (auto simp: slot_at_def)
qed

theorem ring_run_slots_witness:
  "\<exists>r got. ring_run 20 1 [Produce 40, Read_Round, Read_Round, Take_Slot 0, Take_Slot 0] (read_rb_start 20 100 [spsc_new 0 100]) [] = Inr (r, got) \<and>
    (\<forall>p\<in>set got. 20 dvd p \<and> p + 20 \<le> 2000)"
  using ring_run_slots [of 20 100 1 100 "[Produce 40, Read_Round, Read_Round, Take_Slot 0, Take_Slot 0]"] by simp

end
