(* ===== verification/Detect_Server.thy ===== *)
theory Detect_Server
  imports Graph Task_Values Onnx_Results Rb_Rows Slot_Queue "HOL-Library.Sublist"
begin

text \<open>
  The detection server: \<open>samples/ddos/realtime_with_sccm_with_grpc/server/dni_server.cc\<close>, what \<open>calc_graph\<close> does
  with the slots \<open>read_rb\<close> hands it (\<open>Slot_Queue\<close>), and \<open>common/snding_mfr_model.cc\<close>. Four graphs decide about a
  slot, one after the other: is the traffic abnormal, is it an attack, which rules answer it, and what kind
  of traffic is a possible attack. A graph is a state of \<open>Graph\<close>, run with the code of its tasks and the order of
  its nodes, both parameters. \<open>junk\<close> is the timestamp a datum gets from the constructor that sets none,
  \<open>now\<close> the clock. What is only logged is left out.
\<close>

section \<open>The graphs\<close>

type_synonym ('t, 'v) plan = "('t, 'v) task_code \<times> nat list"

text \<open>The configuration is \<open>None\<close> where \<open>LoadTextprotoFile\<close> fails; then there is no graph.\<close>

definition start_graph ::
  "string list \<Rightarrow> bool \<Rightarrow> ('t, 'v) plan \<Rightarrow> graph_proto option \<Rightarrow> ('t, 'v) graph option outcome" where
  "start_graph observed junk plan gc = (case gc of
       None \<Rightarrow> Inr None
     | Some config \<Rightarrow> bindE (Graph_Initialize junk config Graph0) (\<lambda>(rc, g).
         bindE (foldE (\<lambda>out g. bindE (ObserveOutputStream out g) (\<lambda>(rc, g). Inr g)) observed g) (\<lambda>g.
         bindE (Graph_PrepareForRun (fst plan) (snd plan) g) (\<lambda>(rc, g). Inr (Some g)))))"

definition start_graph1 :: "bool \<Rightarrow> ('t, 'v) plan \<Rightarrow> graph_proto option \<Rightarrow> ('t, 'v) graph option outcome" where
  "start_graph1 = start_graph [''packet_abnormal'', ''netdev_abnormal'', ''resource_abnormal'', ''netdev_inMbps'', ''netdev_inKpps'', ''abnormal_res'']"

definition start_graph2 :: "bool \<Rightarrow> ('t, 'v) plan \<Rightarrow> graph_proto option \<Rightarrow> ('t, 'v) graph option outcome" where
  "start_graph2 = start_graph [''attack_res'', ''sip_count'']"

definition start_graph3 :: "bool \<Rightarrow> ('t, 'v) plan \<Rightarrow> graph_proto option \<Rightarrow> ('t, 'v) graph option outcome" where
  "start_graph3 = start_graph [''dms_rules'']"

definition start_graph4 :: "bool \<Rightarrow> ('t, 'v) plan \<Rightarrow> graph_proto option \<Rightarrow> ('t, 'v) graph option outcome" where
  "start_graph4 = start_graph [''ret'']"

text \<open>The calls of \<open>AddDatumToInputStream\<close> one after the other.\<close>

definition inject :: "int \<Rightarrow> (string \<times> 'v) list \<Rightarrow> ('t, 'v) graph \<Rightarrow> ('t, 'v) graph outcome" where
  "inject junk = foldE (\<lambda>(name, v) g. bindE (AddDatumToInputStream name (Datum_val junk v) g) (\<lambda>(rc, g). Inr g))"

section \<open>Is the traffic abnormal?\<close>

record anomaly_result =
  an_abnormal_number :: int
  an_incrbytesRecv :: double
  an_incrpacketRecv :: double
  an_inMbps_score :: double
  an_inKpps_score :: double

definition g1_inputs_packets :: "string list" where
  "g1_inputs_packets = [''countTotal'', ''countType_length'', ''countType_srcIP'', ''countType_dstIP'', ''countType_protocol'',
     ''countType_srcPortTcp'', ''countType_dstPortTcp'', ''countType_srcPortUdp'', ''countType_dstPortUdp'']"

definition g1_inputs_packets_cond :: "string list" where
  "g1_inputs_packets_cond = ['''', ''cond_countType_length'', ''cond_countType_srcIP'', ''cond_countType_dstIP'', ''cond_countType_protocol'',
     ''cond_countType_srcPortTcp'', ''cond_countType_dstPortTcp'', ''cond_countType_srcPortUdp'', ''cond_countType_dstPortUdp'']"

definition g1_inputs_netdev :: "string list" where
  "g1_inputs_netdev = [''inMbps'', ''inKpps'', ''outMbps'', ''outKpps'']"

definition g1_inputs_resource :: "string list" where
  "g1_inputs_resource = [''incr_mem_swap'', ''incr_mem_virtual'', ''incr_tcpconn_full'', ''incr_tcpconn_semi'', ''incr_tcpconn_total'']"

text \<open>The statistics have the sizes \<open>parse_slot_header\<close> gives them: 9, 4, 5 and 13.\<close>

definition u32_double :: "u32 \<Rightarrow> double" where
  "u32_double n = double_of_int (int (unat n))"

definition g1_data :: "slot_header \<Rightarrow> (string \<times> val) list" where
  "g1_data h = (let countTotal = u32_double (sh_pkts_stats h ! 0); cond = [countTotal] in
     [(g1_inputs_packets ! 0, VDouble countTotal)] @
     concat (map (\<lambda>i. [(g1_inputs_packets ! i, VDouble (u32_double (sh_pkts_stats h ! i))), (g1_inputs_packets_cond ! i, VDoubles cond)]) [1..<9]) @
     map (\<lambda>i. (g1_inputs_netdev ! i, VDouble (sh_netdev_stats h ! i))) [0..<4] @
     [(''cur_cpu'', VDouble (sh_cur_cpu h))] @
     map (\<lambda>i. (g1_inputs_resource ! i, VDouble (double_of_int (sh_resource_stats h ! i)))) [0..<5])"

definition g1_inject_after :: "int \<Rightarrow> slot_header \<Rightarrow> ('t, val) graph \<Rightarrow> ((double \<times> double) \<times> ('t, val) graph) outcome" where
  "g1_inject_after junk h g = bindE (inject junk (g1_data h) g) (\<lambda>g. Inr ((sh_netdev_stats h ! 0, sh_netdev_stats h ! 1), g))"

definition as_int :: "val \<Rightarrow> int option" where
  "as_int v = (case v of VInt x \<Rightarrow> Some x | _ \<Rightarrow> None)"

definition g1_anomaly_detect :: "int \<Rightarrow> ('t, val) plan \<Rightarrow> slot_header \<Rightarrow> ('t, val) graph \<Rightarrow> (anomaly_result \<times> ('t, val) graph) outcome" where
  "g1_anomaly_detect junk plan h g =
     bindE (g1_inject_after junk h g) (\<lambda>((incrbytesRecv, incrpacketRecv), g).
     bindE (Graph_RunOnce (fst plan) (snd plan) g) (\<lambda>g.
     bindE (GetResult as_double (Fin 0) ''packet_abnormal'' g) (\<lambda>(ret, g).
     bindE (GetResult as_double (Fin 0) ''netdev_abnormal'' g) (\<lambda>(ret1, g).
     bindE (GetResult as_double (Fin 0) ''resource_abnormal'' g) (\<lambda>(ret2, g).
     bindE (GetResult as_int 0 ''abnormal_res'' g) (\<lambda>(ret3, g).
     bindE (GetResult as_double (Fin 0) ''netdev_inMbps'' g) (\<lambda>(inMbps_score, g).
     bindE (GetResult as_double (Fin 0) ''netdev_inKpps'' g) (\<lambda>(inKpps_score, g).
     bindE (ClearResult g) (\<lambda>g.
       Inr (\<lparr>an_abnormal_number = ret3, an_incrbytesRecv = incrbytesRecv, an_incrpacketRecv = incrpacketRecv,
         an_inMbps_score = inMbps_score, an_inKpps_score = inKpps_score\<rparr>, g))))))))))"

section \<open>Is it an attack?\<close>

text \<open>The conversion of \<open>attack_number\<close> to \<open>int\<close> is undefined out of range.\<close>

definition g2_attack_detect ::
  "int \<Rightarrow> ('t, val) plan \<Rightarrow> u32 list list \<Rightarrow> ('t, val) graph \<Rightarrow> (int \<times> (u32 \<times> int) list \<times> ('t, val) graph) outcome" where
  "g2_attack_detect junk plan packets g =
     bindE (inject junk [(''parsed_packets'', VRows packets)] g) (\<lambda>g.
     bindE (Graph_RunOnce (fst plan) (snd plan) g) (\<lambda>g.
     bindE (GetResult as_double (Fin 0) ''attack_res'' g) (\<lambda>(attack_number, g).
     bindE (GetResult as_counts [] ''sip_count'' g) (\<lambda>(sip_count_ret, g).
     bindE (ClearResult g) (\<lambda>g.
     bindE (to_int32 attack_number) (\<lambda>n. Inr (n, sip_count_ret, g)))))))"

section \<open>The response\<close>

record graph_rule =
  ru_hostnicsign :: string
  ru_srcip :: u32
  ru_srcip_len :: int
  ru_dstip :: u32
  ru_dstip_len :: int
  ru_sport :: string
  ru_dport :: string
  ru_length :: string
  ru_protocol :: int
  ru_action :: string
  ru_limitmode :: string
  ru_limitmaxvalue :: int
  ru_packets_ts :: nat

text \<open>\<open>add_rules\<close> with the time of the packets only.\<close>

definition empty_rule :: "nat \<Rightarrow> graph_rule" where
  "empty_rule packets_ts = \<lparr>ru_hostnicsign = [], ru_srcip = 0, ru_srcip_len = 0, ru_dstip = 0, ru_dstip_len = 0, ru_sport = [], ru_dport = [],
     ru_length = [], ru_protocol = 0, ru_action = [], ru_limitmode = [], ru_limitmaxvalue = 0, ru_packets_ts = packets_ts\<rparr>"

definition response_rule :: "nat \<Rightarrow> string \<Rightarrow> dms_rule \<Rightarrow> graph_rule" where
  "response_rule packets_ts sign d = \<lparr>ru_hostnicsign = sign, ru_srcip = cidr_ip (dr_srcIP d), ru_srcip_len = cidr_len (dr_srcIP d),
     ru_dstip = cidr_ip (dr_dstIP d), ru_dstip_len = cidr_len (dr_dstIP d), ru_sport = dr_sPort d, ru_dport = dr_dPort d,
     ru_length = dr_length d, ru_protocol = dr_protocol d, ru_action = dr_action d, ru_limitmode = dr_limitMode d,
     ru_limitmaxvalue = dr_limitMaxValue d, ru_packets_ts = packets_ts\<rparr>"

text \<open>The type is always \<open>GraphCalcOK\<close>; what is not set has the value of an empty message.\<close>

record graph_result =
  gr_ts :: int
  gr_host_nic_name :: string
  gr_inmbps :: double
  gr_outmbps :: double
  gr_dmsdropmbps :: double
  gr_speed :: int
  gr_cur_cpu :: double
  gr_abnormal_type :: int
  gr_attack_type :: int
  gr_detect_result :: string
  gr_label_relation_index :: int
  gr_rules :: "graph_rule list"

definition add_rules :: "graph_rule list \<Rightarrow> graph_result \<Rightarrow> graph_result" where
  "add_rules rules result = result\<lparr>gr_rules := gr_rules result @ rules\<rparr>"

definition less_packets :: "int \<Rightarrow> slot_header \<Rightarrow> graph_result" where
  "less_packets now h = \<lparr>gr_ts = now, gr_host_nic_name = sh_host_nic_name h, gr_inmbps = Fin 0, gr_outmbps = Fin 0, gr_dmsdropmbps = Fin 0,
     gr_speed = 0, gr_cur_cpu = Fin 0, gr_abnormal_type = 0, gr_attack_type = 0, gr_detect_result = [], gr_label_relation_index = 0,
     gr_rules = [empty_rule (sh_ts h)]\<rparr>"

definition fill_result :: "int \<Rightarrow> slot_header \<Rightarrow> graph_result" where
  "fill_result now h = \<lparr>gr_ts = now, gr_host_nic_name = sh_host_nic_name h, gr_inmbps = sh_netdev_stats h ! 0, gr_outmbps = sh_netdev_stats h ! 2,
     gr_dmsdropmbps = ddiv_const (ddiv_const (dmul (double_of_int (sh_additional_stats h ! 4)) (Fin 8)) 1000) 1000,
     gr_speed = sh_speed h, gr_cur_cpu = sh_cur_cpu h, gr_abnormal_type = 0, gr_attack_type = 0, gr_detect_result = [],
     gr_label_relation_index = 0, gr_rules = []\<rparr>"

section \<open>A confirmed attack\<close>

definition as_rules :: "val \<Rightarrow> (string \<times> dms_rule list) list option" where
  "as_rules v = (case v of VRules x \<Rightarrow> Some x | _ \<Rightarrow> None)"

definition g3_data :: "u32 list list \<Rightarrow> u32 list \<Rightarrow> double list \<Rightarrow> string \<Rightarrow> (u32 \<times> int) list \<Rightarrow> (string \<times> val) list" where
  "g3_data packets all_known_ips netdevs host_nic_name sip_count_ret =
     [(''parsed_packets'', VRows packets), (''all_known_ips'', VIPs all_known_ips), (''host_nic_name'', VString host_nic_name),
      (''netdevs_1'', VDoubles netdevs), (''sip_count'', VCountsPtr sip_count_ret)]"

definition confirmed_attack ::
  "int \<Rightarrow> ('t, val) plan \<Rightarrow> u32 list \<Rightarrow> slot_header \<Rightarrow> anomaly_result \<Rightarrow> u32 list list \<Rightarrow> (u32 \<times> int) list \<Rightarrow> graph_result \<Rightarrow> ('t, val) graph \<Rightarrow>
   (graph_result \<times> ('t, val) graph) outcome" where
  "confirmed_attack junk plan all_known_ips h an packets sip_count_ret result g =
     (let netdevs = [an_incrbytesRecv an, an_inMbps_score an, an_incrpacketRecv an, an_inKpps_score an] in
      bindE (inject junk (g3_data packets all_known_ips netdevs (sh_host_nic_name h) sip_count_ret) g) (\<lambda>g.
      bindE (Graph_RunOnce (fst plan) (snd plan) g) (\<lambda>g.
      bindE (GetResult as_rules [] ''dms_rules'' g) (\<lambda>(ret, g).
      let result = add_rules (concat (map (\<lambda>(sign, ds). map (response_rule (sh_ts h) sign) ds) ret)) (result\<lparr>gr_detect_result := ''Confirmed Attack''\<rparr>) in
      bindE (ClearResult g) (\<lambda>g. Inr (result, g))))))"

section \<open>A possible attack\<close>

definition as_ret :: "onnx_val \<Rightarrow> double list list list option" where
  "as_ret v = (case v of VRet x \<Rightarrow> Some x | _ \<Rightarrow> None)"

definition get_label_with_index :: "double list list list \<Rightarrow> (string \<times> int) outcome" where
  "get_label_with_index infer_ret = bindE (read_at infer_ret 0) (\<lambda>output_data.
     bindE (foldE count_up (map (max_element dlt) output_data) (replicate (length label_relation_dict) 0)) (\<lambda>model_output_count.
       let predicted_class_id = int (max_element (<) model_output_count) in
       bindE (read_at label_relation_dict predicted_class_id) (\<lambda>predicted_class. Inr (predicted_class, predicted_class_id))))"

definition MFR_BATCH_SIZE :: int where
  "MFR_BATCH_SIZE = 64"

definition model_floats :: nat where
  "model_floats = nat (MFR_BATCH_SIZE * 1 * 40 * 40)"

text \<open>The state of a calculating thread: its graphs, the strings and the floats of the model input.\<close>

record ('a, 'b, 'c, 'd) calc =
  cg_g1 :: "('a, val) graph"
  cg_g2 :: "('b, val) graph"
  cg_g3 :: "('c, val) graph"
  cg_g4 :: "('d, onnx_val) graph"
  cg_mfr_bytes_list :: "string list"
  cg_model_np_list :: "double list"

text \<open>\<open>get_mfr_bytes\<close> appends to the list it is given.\<close>

definition possible_attack ::
  "int \<Rightarrow> ('d, onnx_val) plan \<Rightarrow> bytes \<Rightarrow> nat \<Rightarrow> u32 \<Rightarrow> slot_header \<Rightarrow> graph_result \<Rightarrow> ('a, 'b, 'c, 'd) calc \<Rightarrow>
   (graph_result \<times> ('a, 'b, 'c, 'd) calc) outcome" where
  "possible_attack junk plan mem pktsdata pkts_cnt h result s =
     bindE (get_mfr_bytes mem pktsdata pkts_cnt MFR_BATCH_SIZE) (\<lambda>out.
     let s = s\<lparr>cg_mfr_bytes_list := cg_mfr_bytes_list s @ out\<rparr> in
     bindE (get_model_input (cg_mfr_bytes_list s) 0 (cg_model_np_list s)) (\<lambda>np.
     let s = s\<lparr>cg_model_np_list := np\<rparr> in
     bindE (userPrepareInputData1 [] (cg_model_np_list s) (int model_floats)) (\<lambda>input_data.
     bindE (inject junk [(''data'', VInputs input_data)] (cg_g4 s)) (\<lambda>g.
     bindE (Graph_RunOnce (fst plan) (snd plan) g) (\<lambda>g.
     bindE (GetResult as_ret [] ''ret'' g) (\<lambda>(ret, g).
     bindE (get_label_with_index ret) (\<lambda>(predicted_class, label_relation_index).
       let result = add_rules [empty_rule (sh_ts h)]
             (result\<lparr>gr_detect_result := ''Possible Attack'', gr_label_relation_index := label_relation_index\<rparr>)
       in Inr (result, s\<lparr>cg_g4 := g, cg_mfr_bytes_list := [], cg_model_np_list := replicate model_floats (Fin 0)\<rparr>))))))))"

section \<open>A slot\<close>

text \<open>The code and node orders of the four graphs.\<close>

record ('a, 'b, 'c, 'd) plans =
  pl_1 :: "('a, val) plan"
  pl_2 :: "('b, val) plan"
  pl_3 :: "('c, val) plan"
  pl_4 :: "('d, onnx_val) plan"

text \<open>What the loop does for a packet count that is abnormal; \<open>None\<close> is \<open>continue\<close> without a response.\<close>

definition process_abnormal ::
  "int \<Rightarrow> ('a, 'b, 'c, 'd) plans \<Rightarrow> u32 list \<Rightarrow> bytes \<Rightarrow> nat \<Rightarrow> slot_header \<Rightarrow> anomaly_result \<Rightarrow> graph_result \<Rightarrow> ('a, 'b, 'c, 'd) calc \<Rightarrow>
   (graph_result option \<times> ('a, 'b, 'c, 'd) calc) outcome" where
  "process_abnormal junk pl all_known_ips mem pktsdata h an result s =
     (let pkts_cnt = (if 10000 < sh_pkts_stats h ! 0 then 10000 else sh_pkts_stats h ! 0) in
      bindE (parse_rows mem pktsdata pkts_cnt []) (\<lambda>packets.
      if packets = [] then Inr (None, s)
      else bindE (g2_attack_detect junk (pl_2 pl) packets (cg_g2 s)) (\<lambda>(attack_number, sip_count_ret, g2).
        let s = s\<lparr>cg_g2 := g2\<rparr>; result = result\<lparr>gr_attack_type := attack_number\<rparr> in
        if attack_number = 2 then
          bindE (confirmed_attack junk (pl_3 pl) all_known_ips h an packets sip_count_ret result (cg_g3 s)) (\<lambda>(result, g3).
            Inr (Some result, s\<lparr>cg_g3 := g3\<rparr>))
        else if attack_number = 1 then
          bindE (possible_attack junk (pl_4 pl) mem pktsdata pkts_cnt h result s) (\<lambda>(result, s). Inr (Some result, s))
        else Inr (Some (add_rules [empty_rule (sh_ts h)] (result\<lparr>gr_detect_result := ''No Attack''\<rparr>)), s))))"

definition process_slot ::
  "int \<Rightarrow> ('a, 'b, 'c, 'd) plans \<Rightarrow> u32 list \<Rightarrow> u32 \<Rightarrow> int \<Rightarrow> bytes \<Rightarrow> nat \<Rightarrow> ('a, 'b, 'c, 'd) calc \<Rightarrow>
   (graph_result option \<times> ('a, 'b, 'c, 'd) calc) outcome" where
  "process_slot junk pl all_known_ips count_total_threshold now mem nic_data s =
     bindE (parse_slot_header mem nic_data) (\<lambda>(h, offset).
     if sh_pkts_stats h ! 0 \<le> count_total_threshold then Inr (Some (less_packets now h), s)
     else let result = fill_result now h in
       bindE (g1_anomaly_detect junk (pl_1 pl) h (cg_g1 s)) (\<lambda>(an, g1).
       let s = s\<lparr>cg_g1 := g1\<rparr>; result = result\<lparr>gr_abnormal_type := an_abnormal_number an\<rparr> in
       if 0 < an_abnormal_number an then process_abnormal junk pl all_known_ips mem (nic_data + offset) h an result s
       else Inr (Some (add_rules [empty_rule (sh_ts h)] (result\<lparr>gr_detect_result := ''No Anomaly''\<rparr>)), s)))"

section \<open>The loop\<close>

text \<open>What a round finds: the memory and the clock, and whether the stream of responses is still open.\<close>

record round =
  rn_mem :: bytes
  rn_now :: int
  rn_open :: bool

text \<open>A round takes a slot, if there is one, and writes the response, if there is one; \<open>False\<close> is \<open>break\<close>.\<close>

definition calc_round ::
  "int \<Rightarrow> ('a, 'b, 'c, 'd) plans \<Rightarrow> u32 list \<Rightarrow> u32 \<Rightarrow> round \<Rightarrow> nat spsc \<times> ('a, 'b, 'c, 'd) calc \<times> graph_result list \<Rightarrow>
   (bool \<times> nat spsc \<times> ('a, 'b, 'c, 'd) calc \<times> graph_result list) outcome" where
  "calc_round junk pl all_known_ips count_total_threshold r = (\<lambda>(ptrs_rb, s, written). bindE (spsc_pop ptrs_rb) (\<lambda>(x, ptrs_rb). case x of
       None \<Rightarrow> Inr (True, ptrs_rb, s, written)
     | Some nic_data \<Rightarrow> bindE (process_slot junk pl all_known_ips count_total_threshold (rn_now r) (rn_mem r) nic_data s) (\<lambda>(response, s).
         case response of
           None \<Rightarrow> Inr (True, ptrs_rb, s, written)
         | Some result \<Rightarrow> if rn_open r then Inr (True, ptrs_rb, s, written @ [result]) else Inr (False, ptrs_rb, s, written))))"

fun calc_graph ::
  "int \<Rightarrow> ('a, 'b, 'c, 'd) plans \<Rightarrow> u32 list \<Rightarrow> u32 \<Rightarrow> round list \<Rightarrow> nat spsc \<times> ('a, 'b, 'c, 'd) calc \<times> graph_result list \<Rightarrow>
   (bool \<times> nat spsc \<times> ('a, 'b, 'c, 'd) calc \<times> graph_result list) outcome" where
  "calc_graph junk pl all_known_ips count_total_threshold [] st = Inr (True, st)"
| "calc_graph junk pl all_known_ips count_total_threshold (r # rs) st =
     bindE (calc_round junk pl all_known_ips count_total_threshold r st) (\<lambda>(running, st).
       if running then calc_graph junk pl all_known_ips count_total_threshold rs st else Inr (False, st))"

definition calc_start :: "('a, val) graph \<Rightarrow> ('b, val) graph \<Rightarrow> ('c, val) graph \<Rightarrow> ('d, onnx_val) graph \<Rightarrow> ('a, 'b, 'c, 'd) calc" where
  "calc_start g1 g2 g3 g4 = \<lparr>cg_g1 = g1, cg_g2 = g2, cg_g3 = g3, cg_g4 = g4, cg_mfr_bytes_list = [],
     cg_model_np_list = replicate model_floats (Fin 0)\<rparr>"

text \<open>The known addresses a request names, as \<open>CalculateGraph\<close> passes them on.\<close>

definition known_ips :: "u32 list \<Rightarrow> u32 list" where
  "known_ips all_ips = sort all_ips"

section \<open>Responses\<close>

text \<open>Nothing of a slot is left in the model input.\<close>

definition clean :: "('a, 'b, 'c, 'd) calc \<Rightarrow> bool" where
  "clean s \<longleftrightarrow> cg_mfr_bytes_list s = [] \<and> cg_model_np_list s = replicate model_floats (Fin 0)"

lemma clean_update [simp]:
  "clean (s\<lparr>cg_g1 := g1\<rparr>) = clean s" "clean (s\<lparr>cg_g2 := g2\<rparr>) = clean s" "clean (s\<lparr>cg_g3 := g3\<rparr>) = clean s"
  by (simp_all add: clean_def)

lemma confirmed_attack_result:
  assumes "confirmed_attack junk plan ips h an packets sip result g = Inr (r, g')"
  shows "\<exists>ret. r = add_rules (concat (map (\<lambda>(sign, ds). map (response_rule (sh_ts h) sign) ds) ret)) (result\<lparr>gr_detect_result := ''Confirmed Attack''\<rparr>)"
  using assms unfolding confirmed_attack_def Let_def by (auto elim!: bindE_InrE)

lemma possible_attack_result:
  assumes "possible_attack junk plan mem p cnt h result s = Inr (r, s')"
  shows "\<exists>i. r = add_rules [empty_rule (sh_ts h)] (result\<lparr>gr_detect_result := ''Possible Attack'', gr_label_relation_index := i\<rparr>)" "clean s'"
  using assms unfolding possible_attack_def Let_def by (auto elim!: bindE_InrE simp: clean_def)

text \<open>What a response to an abnormal slot can be.\<close>

definition abnormal_answer :: "nat \<Rightarrow> graph_result \<Rightarrow> graph_result \<Rightarrow> bool" where
  "abnormal_answer ts result r \<longleftrightarrow> (\<exists>base rules. r = add_rules rules base \<and> gr_host_nic_name base = gr_host_nic_name result \<and>
      gr_abnormal_type base = gr_abnormal_type result \<and> gr_rules base = gr_rules result \<and>
      (gr_attack_type base = 2 \<and> gr_detect_result base = ''Confirmed Attack'' \<and>
         (\<exists>ret. rules = concat (map (\<lambda>(sign, ds). map (response_rule ts sign) ds) ret)) \<or>
       rules = [empty_rule ts]))"

lemma process_abnormal_cases:
  assumes "process_abnormal junk pl ips mem p h an result s = Inr (x, s')"
  shows "(x = None \<and> s' = s \<or> (\<exists>r. x = Some r \<and> abnormal_answer (sh_ts h) result r)) \<and> (clean s \<longrightarrow> clean s')"
proof -
  let ?cnt = "if 10000 < sh_pkts_stats h ! 0 then 10000 else sh_pkts_stats h ! 0"
  obtain packets where p: "parse_rows mem p ?cnt [] = Inr packets"
    and rest: "(if packets = [] then Inr (None, s) else bindE (g2_attack_detect junk (pl_2 pl) packets (cg_g2 s)) (\<lambda>(attack, sip, g2).
        if attack = 2 then bindE (confirmed_attack junk (pl_3 pl) ips h an packets sip (result\<lparr>gr_attack_type := attack\<rparr>) (cg_g3 (s\<lparr>cg_g2 := g2\<rparr>)))
            (\<lambda>(r, g3). Inr (Some r, s\<lparr>cg_g2 := g2\<rparr>\<lparr>cg_g3 := g3\<rparr>))
        else if attack = 1 then bindE (possible_attack junk (pl_4 pl) mem p ?cnt h (result\<lparr>gr_attack_type := attack\<rparr>) (s\<lparr>cg_g2 := g2\<rparr>)) (\<lambda>(r, s). Inr (Some r, s))
        else Inr (Some (add_rules [empty_rule (sh_ts h)] (result\<lparr>gr_attack_type := attack\<rparr>\<lparr>gr_detect_result := ''No Attack''\<rparr>)), s\<lparr>cg_g2 := g2\<rparr>))) = Inr (x, s')"
    using assms unfolding process_abnormal_def Let_def by (rule bindE_InrE)
  show ?thesis
  proof (cases "packets = []")
    case True
    then show ?thesis using rest by simp
  next
    case False
    obtain v where v: "g2_attack_detect junk (pl_2 pl) packets (cg_g2 s) = Inr v" and rest2: "(case v of (attack, sip, g2) \<Rightarrow>
        if attack = 2 then bindE (confirmed_attack junk (pl_3 pl) ips h an packets sip (result\<lparr>gr_attack_type := attack\<rparr>) (cg_g3 (s\<lparr>cg_g2 := g2\<rparr>)))
            (\<lambda>(r, g3). Inr (Some r, s\<lparr>cg_g2 := g2\<rparr>\<lparr>cg_g3 := g3\<rparr>))
        else if attack = 1 then bindE (possible_attack junk (pl_4 pl) mem p ?cnt h (result\<lparr>gr_attack_type := attack\<rparr>) (s\<lparr>cg_g2 := g2\<rparr>)) (\<lambda>(r, s). Inr (Some r, s))
        else Inr (Some (add_rules [empty_rule (sh_ts h)] (result\<lparr>gr_attack_type := attack\<rparr>\<lparr>gr_detect_result := ''No Attack''\<rparr>)), s\<lparr>cg_g2 := g2\<rparr>)) = Inr (x, s')"
      using rest unfolding if_not_P [OF False] by (rule bindE_InrE)
    obtain attack sip g2 where vv: "v = (attack, sip, g2)" by (cases v)
    note rest3 = rest2 [unfolded vv prod.case]
    let ?base = "result\<lparr>gr_attack_type := attack\<rparr>" and ?s = "s\<lparr>cg_g2 := g2\<rparr>"
    consider "attack = 2" | "attack \<noteq> 2" "attack = 1" | "attack \<noteq> 2" "attack \<noteq> 1" by blast
    then show ?thesis
    proof cases
      case 1
      obtain r g3 where c: "confirmed_attack junk (pl_3 pl) ips h an packets sip ?base (cg_g3 ?s) = Inr (r, g3)" "x = Some r" "s' = ?s\<lparr>cg_g3 := g3\<rparr>"
        using rest3 unfolding if_P [OF 1] by (auto elim!: bindE_InrE)
      obtain ret where "r = add_rules (concat (map (\<lambda>(sign, ds). map (response_rule (sh_ts h) sign) ds) ret)) (?base\<lparr>gr_detect_result := ''Confirmed Attack''\<rparr>)"
        using confirmed_attack_result [OF c(1)] by blast
      then have "abnormal_answer (sh_ts h) result r" unfolding abnormal_answer_def
        by (intro exI [of _ "?base\<lparr>gr_detect_result := ''Confirmed Attack''\<rparr>"] exI) (auto simp: 1)
      then show ?thesis using c(2,3) by simp
    next
      case 2
      obtain r where c: "possible_attack junk (pl_4 pl) mem p ?cnt h ?base ?s = Inr (r, s')" "x = Some r"
        using rest3 unfolding if_not_P [OF 2(1)] if_P [OF 2(2)] by (auto elim!: bindE_InrE)
      obtain i where "r = add_rules [empty_rule (sh_ts h)] (?base\<lparr>gr_detect_result := ''Possible Attack'', gr_label_relation_index := i\<rparr>)"
        using possible_attack_result(1) [OF c(1)] by blast
      then have "abnormal_answer (sh_ts h) result r" unfolding abnormal_answer_def
        by (intro exI [of _ "?base\<lparr>gr_detect_result := ''Possible Attack'', gr_label_relation_index := i\<rparr>"] exI) auto
      then show ?thesis using c(2) possible_attack_result(2) [OF c(1)] by simp
    next
      case 3
      have "abnormal_answer (sh_ts h) result (add_rules [empty_rule (sh_ts h)] (?base\<lparr>gr_detect_result := ''No Attack''\<rparr>))"
        unfolding abnormal_answer_def by (intro exI [of _ "?base\<lparr>gr_detect_result := ''No Attack''\<rparr>"] exI) auto
      then show ?thesis using rest3 unfolding if_not_P [OF 3(1)] if_not_P [OF 3(2)] by auto
    qed
  qed
qed

lemma add_rules_sel [simp]:
  "gr_rules (add_rules rs r) = gr_rules r @ rs" "gr_host_nic_name (add_rules rs r) = gr_host_nic_name r"
  "gr_abnormal_type (add_rules rs r) = gr_abnormal_type r" "gr_attack_type (add_rules rs r) = gr_attack_type r"
  "gr_detect_result (add_rules rs r) = gr_detect_result r"
  by (simp_all add: add_rules_def)

lemma rule_ts [simp]: "ru_packets_ts (empty_rule t) = t" "ru_packets_ts (response_rule t sign d) = t"
  by (simp_all add: empty_rule_def response_rule_def)

text \<open>What holds of a response to the slot with header \<open>h\<close>.\<close>

definition answers :: "u32 \<Rightarrow> slot_header \<Rightarrow> graph_result \<Rightarrow> bool" where
  "answers threshold h r \<longleftrightarrow> gr_host_nic_name r = sh_host_nic_name h \<and> (\<forall>ru\<in>set (gr_rules r). ru_packets_ts ru = sh_ts h) \<and>
     (\<forall>ru\<in>set (gr_rules r). ru \<noteq> empty_rule (sh_ts h) \<longrightarrow>
        threshold < sh_pkts_stats h ! 0 \<and> 0 < gr_abnormal_type r \<and> gr_attack_type r = 2 \<and> gr_detect_result r = ''Confirmed Attack'')"

lemma process_slot_ok:
  assumes "process_slot junk pl ips threshold now mem p s = Inr (x, s')"
  shows "\<exists>h off. parse_slot_header mem p = Inr (h, off) \<and> (clean s \<longrightarrow> clean s') \<and> (\<forall>r. x = Some r \<longrightarrow> answers threshold h r)"
proof -
  obtain v where v: "parse_slot_header mem p = Inr v" and rest: "(case v of (h, offset) \<Rightarrow> if sh_pkts_stats h ! 0 \<le> threshold then Inr (Some (less_packets now h), s)
      else bindE (g1_anomaly_detect junk (pl_1 pl) h (cg_g1 s)) (\<lambda>(an, g1).
        if 0 < an_abnormal_number an then process_abnormal junk pl ips mem (p + offset) h an ((fill_result now h)\<lparr>gr_abnormal_type := an_abnormal_number an\<rparr>) (s\<lparr>cg_g1 := g1\<rparr>)
        else Inr (Some (add_rules [empty_rule (sh_ts h)] ((fill_result now h)\<lparr>gr_abnormal_type := an_abnormal_number an, gr_detect_result := ''No Anomaly''\<rparr>)), s\<lparr>cg_g1 := g1\<rparr>))) = Inr (x, s')"
    using assms unfolding process_slot_def Let_def by (rule bindE_InrE)
  obtain h offset where hv: "v = (h, offset)" by (cases v)
  note rest1 = rest [unfolded hv prod.case]
  show ?thesis
  proof (cases "sh_pkts_stats h ! 0 \<le> threshold")
    case True
    then have "x = Some (less_packets now h)" "s' = s" using rest1 by simp_all
    then show ?thesis using v hv by (auto simp: answers_def less_packets_def)
  next
    case False
    obtain an g1 where an: "g1_anomaly_detect junk (pl_1 pl) h (cg_g1 s) = Inr (an, g1)" and rest2:
      "(if 0 < an_abnormal_number an then process_abnormal junk pl ips mem (p + offset) h an ((fill_result now h)\<lparr>gr_abnormal_type := an_abnormal_number an\<rparr>) (s\<lparr>cg_g1 := g1\<rparr>)
        else Inr (Some (add_rules [empty_rule (sh_ts h)] ((fill_result now h)\<lparr>gr_abnormal_type := an_abnormal_number an, gr_detect_result := ''No Anomaly''\<rparr>)), s\<lparr>cg_g1 := g1\<rparr>)) = Inr (x, s')"
      using rest1 unfolding if_not_P [OF False] by (auto elim!: bindE_InrE)
    show ?thesis
    proof (cases "0 < an_abnormal_number an")
      case True
      note cs = process_abnormal_cases [OF rest2 [unfolded if_P [OF True]]]
      have "answers threshold h r" if some: "x = Some r" for r
      proof -
        have "abnormal_answer (sh_ts h) ((fill_result now h)\<lparr>gr_abnormal_type := an_abnormal_number an\<rparr>) r" using cs some by auto
        then obtain base rules where "r = add_rules rules base" "gr_host_nic_name base = sh_host_nic_name h" "gr_abnormal_type base = an_abnormal_number an"
          "gr_rules base = []" "gr_attack_type base = 2 \<and> gr_detect_result base = ''Confirmed Attack'' \<and>
            (\<exists>ret. rules = concat (map (\<lambda>(sign, ds). map (response_rule (sh_ts h) sign) ds) ret)) \<or> rules = [empty_rule (sh_ts h)]"
          unfolding abnormal_answer_def by (auto simp: fill_result_def)
        then show ?thesis using True False by (auto simp: answers_def)
      qed
      moreover have "clean s \<longrightarrow> clean s'" using cs by auto
      ultimately show ?thesis using v hv by blast
    next
      case False
      then have "x = Some (add_rules [empty_rule (sh_ts h)] ((fill_result now h)\<lparr>gr_abnormal_type := an_abnormal_number an, gr_detect_result := ''No Anomaly''\<rparr>))"
        "s' = s\<lparr>cg_g1 := g1\<rparr>" using rest2 by simp_all
      then show ?thesis using v hv by (auto simp: answers_def fill_result_def)
    qed
  qed
qed

text \<open>C4: every rule the server answers a slot with carries the time of the slot, and the answer names the
  card the slot was measured on. A rule that restricts traffic, one that is not the empty rule, is only
  sent for a slot with more packets than the threshold, after an anomaly was found and the attack
  confirmed, whatever state earlier slots left the graphs in; the strings and floats of the model input
  are as empty as before.\<close>

theorem process_slot_rules:
  assumes "process_slot junk pl ips threshold now mem p s = Inr (Some r, s')"
  shows "\<exists>h off. parse_slot_header mem p = Inr (h, off) \<and> gr_host_nic_name r = sh_host_nic_name h \<and>
    (\<forall>ru\<in>set (gr_rules r). ru_packets_ts ru = sh_ts h) \<and>
    ((\<exists>ru\<in>set (gr_rules r). ru \<noteq> empty_rule (sh_ts h)) \<longrightarrow>
      threshold < sh_pkts_stats h ! 0 \<and> 0 < gr_abnormal_type r \<and> gr_attack_type r = 2 \<and> gr_detect_result r = ''Confirmed Attack'') \<and>
    (clean s \<longrightarrow> clean s')"
  using process_slot_ok [OF assms] by (auto simp: answers_def)

text \<open>A slot of \<open>demo_slot\<close> with as many packets as the threshold allows, in memory from address 1.\<close>

definition demo_mem :: bytes where
  "demo_mem = [9] @ enc_slot_header demo_slot @ enc_pkts (sd_frames demo_slot) @ [0, 0]"

definition demo_plans :: "(unit, unit, unit, unit) plans" where
  "demo_plans = (let f = (\<lambda>t ctx side. Inr (0, t, ctx, [])); c = \<lparr>tk_new = (\<lambda>_. Some ()), tk_open = f, tk_process = f, tk_close = f\<rparr>;
       c4 = \<lparr>tk_new = (\<lambda>_. Some ()), tk_open = (\<lambda>t ctx side. Inr (0, t, ctx, [])), tk_process = (\<lambda>t ctx side. Inr (0, t, ctx, [])),
         tk_close = (\<lambda>t ctx side. Inr (0, t, ctx, []))\<rparr>
     in \<lparr>pl_1 = (c, []), pl_2 = (c, []), pl_3 = (c, []), pl_4 = (c4, [])\<rparr>)"

lemma demo_wf: "wf_slot demo_slot"
proof -
  have "wf_frame (demo_frame 17)" "wf_frame (demo_frame 2)" by code_simp+
  then have "wf_packets [demo_frame 17, demo_frame 2]" by (simp add: wf_packets_def enc_frame_def enc_ip_def enc_tags_def demo_frame_def)
  then show ?thesis by (simp add: wf_slot_def demo_slot_def)
qed

lemma demo_header: "\<exists>off. parse_slot_header demo_mem 1 = Inr (slot_header_of demo_slot, off)"
  using parse_slot_header_enc [OF demo_wf, of "[9]" 1] by (simp add: demo_mem_def)

lemma demo_quiet:
  "process_slot junk pl ips 2 now demo_mem 1 s = Inr (Some (less_packets now (slot_header_of demo_slot)), s)"
proof -
  obtain off where h: "parse_slot_header demo_mem 1 = Inr (slot_header_of demo_slot, off)" using demo_header by blast
  have "sh_pkts_stats (slot_header_of demo_slot) ! 0 = 2" by (simp add: slot_header_of_def demo_slot_def)
  then show ?thesis unfolding process_slot_def h by simp
qed

theorem process_slot_rules_witness:
  "\<exists>s. process_slot 0 demo_plans
      [] 2 5 demo_mem 1 (calc_start Graph0 Graph0 Graph0 Graph0) = Inr (Some s, calc_start Graph0 Graph0 Graph0 Graph0) \<and>
    (\<exists>h off. parse_slot_header demo_mem 1 = Inr (h, off) \<and> gr_host_nic_name s = sh_host_nic_name h)"
  using demo_quiet process_slot_rules [OF demo_quiet] by blast

section \<open>The loop answers in order\<close>

lemma calc_round_ok:
  assumes "sp_invar q" "calc_round junk pl ips threshold r (q, s, w) = Inr (b, q', s', w')"
  shows "sp_invar q' \<and> (clean s \<longrightarrow> clean s') \<and> (sp_items q = sp_items q' \<and> w' = w \<or>
    (\<exists>p h off. sp_items q = p # sp_items q' \<and> parse_slot_header (rn_mem r) p = Inr (h, off) \<and>
      (w' = w \<or> (\<exists>x. w' = w @ [x] \<and> answers threshold h x))))"
proof (cases "sp_items q")
  case Nil
  from assms(2) spsc.get_none [OF assms(1) Nil] show ?thesis using assms(1) by (simp add: calc_round_def)
next
  case (Cons p ps)
  obtain q1 where q1: "spsc_pop q = Inr (Some p, q1)" "sp_invar q1" "sp_items q1 = ps" using spsc.get_some [OF assms(1) Cons] by blast
  have step: "bindE (process_slot junk pl ips threshold (rn_now r) (rn_mem r) p s) (\<lambda>(response, s1).
      case response of None \<Rightarrow> Inr (True, q1, s1, w)
      | Some result \<Rightarrow> if rn_open r then Inr (True, q1, s1, w @ [result]) else Inr (False, q1, s1, w)) = Inr (b, q', s', w')"
    using assms(2) by (simp add: calc_round_def q1(1))
  then obtain x s1 where v: "process_slot junk pl ips threshold (rn_now r) (rn_mem r) p s = Inr (x, s1)" and rest:
    "(case x of None \<Rightarrow> Inr (True, q1, s1, w)
      | Some result \<Rightarrow> if rn_open r then Inr (True, q1, s1, w @ [result]) else Inr (False, q1, s1, w)) = (Inr (b, q', s', w') :: _ outcome)"
    unfolding bindE_Inr_iff by (elim exE conjE) (simp split: prod.splits)
  obtain h off where h: "parse_slot_header (rn_mem r) p = Inr (h, off)" "clean s \<longrightarrow> clean s1" "\<forall>y. x = Some y \<longrightarrow> answers threshold h y"
    using process_slot_ok [OF v] by blast
  have "q' = q1 \<and> s' = s1 \<and> (w' = w \<or> (\<exists>y. w' = w @ [y] \<and> x = Some y))"
    using rest by (cases x) (auto split: if_splits)
  then show ?thesis using h q1 Cons by blast
qed

text \<open>C10: whatever the memory, the graphs and the rounds, the slots a calculating thread has taken are a
  beginning of the ones that waited in its queue, it writes at most one response to each of them, and the
  responses come in the order of the slots: response and slot agree on the card, the time of the rules
  and the conditions for a rule. Nothing of a slot is left over in the model input for the next one.\<close>

theorem calc_graph_in_order:
  assumes "sp_invar q" "clean s" "\<forall>rn\<in>set rs. rn_mem rn = mem"
    and "calc_graph junk pl ips threshold rs (q, s, written) = Inr (running, q', s', written')"
  shows "clean s' \<and> (\<exists>ps hs answered new. sp_items q = ps @ sp_items q' \<and>
    list_all2 (\<lambda>p h. \<exists>off. parse_slot_header mem p = Inr (h, off)) ps hs \<and> subseq answered hs \<and>
    written' = written @ new \<and> list_all2 (answers threshold) answered new)"
  using assms
proof (induction rs arbitrary: q s written)
  case Nil
  then show ?case by (auto intro!: exI [of _ "[]"])
next
  case (Cons r rs)
  obtain v where v: "calc_round junk pl ips threshold r (q, s, written) = Inr v"
    and rest: "(case v of (go, st) \<Rightarrow> if go then calc_graph junk pl ips threshold rs st else Inr (False, st)) = Inr (running, q', s', written')"
    using Cons.prems(4) unfolding calc_graph.simps by (rule bindE_InrE)
  obtain go q1 s1 w1 where vs: "v = (go, q1, s1, w1)" by (cases v) auto
  note ok = calc_round_ok [OF Cons.prems(1) v [unfolded vs]]
  have "clean s' \<and> (\<exists>ps hs answered new. sp_items q1 = ps @ sp_items q' \<and>
    list_all2 (\<lambda>p h. \<exists>off. parse_slot_header mem p = Inr (h, off)) ps hs \<and> subseq answered hs \<and>
    written' = w1 @ new \<and> list_all2 (answers threshold) answered new)"
  proof (cases go)
    case True
    then show ?thesis using Cons.IH [of q1 s1 w1] ok Cons.prems(2,3) rest by (simp add: vs)
  next
    case False
    then have "q' = q1" "s' = s1" "written' = w1" using rest by (simp_all add: vs)
    then show ?thesis using ok Cons.prems(2) by (auto intro!: exI [of _ "[]"])
  qed
  then obtain ps hs answered new where ih: "clean s'" "sp_items q1 = ps @ sp_items q'"
    "list_all2 (\<lambda>p h. \<exists>off. parse_slot_header mem p = Inr (h, off)) ps hs" "subseq answered hs"
    "written' = w1 @ new" "list_all2 (answers threshold) answered new" by blast
  from ok consider "sp_items q = sp_items q1" "w1 = written"
    | p h off where "sp_items q = p # sp_items q1" "parse_slot_header mem p = Inr (h, off)" "w1 = written"
    | p h off x where "sp_items q = p # sp_items q1" "parse_slot_header mem p = Inr (h, off)" "w1 = written @ [x]" "answers threshold h x"
    using Cons.prems(3) by auto
  then show ?case
  proof cases
    case 1
    then show ?thesis using ih by auto
  next
    case 2
    then have "sp_items q = (p # ps) @ sp_items q'" "list_all2 (\<lambda>p h. \<exists>off. parse_slot_header mem p = Inr (h, off)) (p # ps) (h # hs)"
      "subseq answered (h # hs)" "written' = written @ new" using ih by auto
    then show ?thesis using ih by blast
  next
    case 3
    then have "sp_items q = (p # ps) @ sp_items q'" "list_all2 (\<lambda>p h. \<exists>off. parse_slot_header mem p = Inr (h, off)) (p # ps) (h # hs)"
      "subseq (h # answered) (h # hs)" "written' = written @ (x # new)" "list_all2 (answers threshold) (h # answered) (x # new)" using ih by auto
    then show ?thesis using ih(1) by blast
  qed
qed

lemma calc_start_clean: "clean (calc_start g1 g2 g3 g4)"
  by (simp add: clean_def calc_start_def)

theorem calc_graph_in_order_witness:
  "\<exists>q'. calc_graph 0 demo_plans [] 2
      [\<lparr>rn_mem = demo_mem, rn_now = 5, rn_open = True\<rparr>, \<lparr>rn_mem = demo_mem, rn_now = 6, rn_open = True\<rparr>]
      (\<lparr>sp_data = [1, 0, 0], sp_head = 0, sp_tail = 1, sp_cap = 3\<rparr>, calc_start Graph0 Graph0 Graph0 Graph0, []) =
    Inr (True, q', calc_start Graph0 Graph0 Graph0 Graph0, [less_packets 5 (slot_header_of demo_slot)]) \<and> sp_items q' = [] \<and>
    (\<exists>hs answered. list_all2 (\<lambda>p h. \<exists>off. parse_slot_header demo_mem p = Inr (h, off)) [1] hs \<and> subseq answered hs \<and>
      list_all2 (answers 2) answered [less_packets 5 (slot_header_of demo_slot)])"
proof -
  define q :: "nat spsc" where "q = \<lparr>sp_data = [1, 0, 0], sp_head = 0, sp_tail = 1, sp_cap = 3\<rparr>"
  define q' :: "nat spsc" where "q' = \<lparr>sp_data = [1, 0, 0], sp_head = 1, sp_tail = 1, sp_cap = 3\<rparr>"
  have inv: "sp_invar q" by (simp add: q_def sp_invar_def)
  have items: "sp_items q = [1]" "sp_items q' = []" by (simp_all add: q_def q'_def sp_items_def sp_count_def)
  have pops: "spsc_pop q = Inr (Some 1, q')" "spsc_pop q' = Inr (None, q')" by (simp_all add: q_def q'_def spsc_pop_def)
  let ?rs = "[\<lparr>rn_mem = demo_mem, rn_now = 5, rn_open = True\<rparr>, \<lparr>rn_mem = demo_mem, rn_now = 6, rn_open = True\<rparr>]"
  let ?s = "calc_start Graph0 Graph0 Graph0 Graph0"
  have run: "calc_graph 0 demo_plans [] 2 ?rs (q, ?s, []) = Inr (True, q', ?s, [less_packets 5 (slot_header_of demo_slot)])"
    by (simp add: calc_round_def pops demo_quiet [simplified])
  have mem: "\<forall>rn\<in>set ?rs. rn_mem rn = demo_mem" by simp
  from calc_graph_in_order [OF inv calc_start_clean mem run] show ?thesis using run items unfolding q_def by auto
qed

end
