(* ===== verification/Net_Cards.thy ===== *)
theory Net_Cards
  imports Dms_Rules Stats_Tasks Attacker_Merge Detect_Server
begin

text \<open>
  The detector for all cards of a network, \<open>samples/ddos/realtime_with_sccm/\<close>: \<open>all_net_ip.cc\<close> reads the names
  and addresses of the cards, and \<open>all_net_detect_defense_with_sccm.cc\<close> gives every card its graphs, its list of
  slots and a thread. The graphs are started and fed as in \<open>Detect_Server\<close>; packets are the maps of \<open>Packet_Parse\<close>.
  What the database answers is a parameter: the name of each host and the text that lists its cards.
\<close>

section \<open>Addresses of the cards\<close>

text \<open>The regular expression \<open>25[0-5]|2[0-4][0-9]|[01]?[0-9][0-9]?\<close>.\<close>

definition octet :: "string \<Rightarrow> bool" where
  "octet s = (case s of
       [a] \<Rightarrow> isdigit a
     | [a, b] \<Rightarrow> isdigit a \<and> isdigit b
     | [a, b, c] \<Rightarrow> (a = CHR ''0'' \<or> a = CHR ''1'') \<and> isdigit b \<and> isdigit c \<or>
         a = CHR ''2'' \<and> (b = CHR ''5'' \<and> c \<in> set ''012345'' \<or> b \<in> set ''01234'' \<and> isdigit c)
     | _ \<Rightarrow> False)"

text \<open>The parts of a string between the occurrences of a character.\<close>

fun parts :: "char \<Rightarrow> string \<Rightarrow> string list" where
  "parts c [] = [[]]"
| "parts c (a # s) = (if a = c then [] # parts c s else (case parts c s of [] \<Rightarrow> [[a]] | p # ps \<Rightarrow> (a # p) # ps))"

text \<open>The iterator over what does not match drops an empty part at the end, unless nothing matched.\<close>

definition split_string :: "string \<Rightarrow> char \<Rightarrow> string list" where
  "split_string str c = (let ps = parts c str in if c \<in> set str \<and> last ps = [] then butlast ps else ps)"

text \<open>\<open>ipv4_pattern\<close>: three times an octet and a dot, then an octet.\<close>

definition ipv4_match :: "string \<Rightarrow> bool" where
  "ipv4_match ip = (let ps = parts (CHR ''.'') ip in length ps = 4 \<and> list_all octet ps)"

definition ip_num :: "string list \<Rightarrow> u32 outcome" where
  "ip_num ip_segs = bindE (read_at ip_segs 0) (\<lambda>s0. bindE (stoul s0) (\<lambda>a. bindE (read_at ip_segs 1) (\<lambda>s1. bindE (stoul s1) (\<lambda>b.
     bindE (read_at ip_segs 2) (\<lambda>s2. bindE (stoul s2) (\<lambda>c. bindE (read_at ip_segs 3) (\<lambda>s3. bindE (stoul s3) (\<lambda>d.
       Inr (push_bit 24 a + push_bit 16 b + push_bit 8 c + d)))))))))"

text \<open>One entry \<open>name:address\<close> of a host; without a colon name and address are both the whole entry.\<close>

definition card_entry :: "string \<Rightarrow> string \<Rightarrow> u32 list \<times> string list \<Rightarrow> (u32 list \<times> string list) outcome" where
  "card_entry host_name if_ip = (\<lambda>(all_known_ips, host_nic_names).
     let pos = str_find (CHR '':'') if_ip;
         nic_name = (if pos = - 1 then if_ip else substr_len if_ip 0 pos);
         ip = substr if_ip (pos + 1) in
     if ipv4_match ip then bindE (ip_num (split_string ip (CHR ''.''))) (\<lambda>n.
       Inr (all_known_ips @ [n], host_nic_names @ [host_name @ ''#'' @ nic_name]))
     else Inr (all_known_ips, host_nic_names))"

text \<open>\<open>m.substr(4, m.size() - 5)\<close> takes what is between \<open>map[\<close> and \<open>]\<close>; the length wraps below 5.\<close>

definition card_host :: "string \<times> string \<Rightarrow> u32 list \<times> string list \<Rightarrow> (u32 list \<times> string list) outcome" where
  "card_host = (\<lambda>(host_name, m) st.
     if length m < 4 then Inl Out_of_range
     else let ips_str = (if length m < 5 then substr m 4 else substr_len m 4 (int (length m) - 5)) in
       foldE (card_entry host_name) (split_string ips_str (CHR '' '')) st)"

definition get_all_net_ips :: "(string \<times> string) list \<Rightarrow> u32 list \<times> string list \<Rightarrow> (u32 list \<times> string list) outcome" where
  "get_all_net_ips series = foldE card_host series"

section \<open>Written addresses are read back\<close>

lemma parts_not_Nil [simp]: "parts c s \<noteq> []"
  by (cases "(c, s)" rule: parts.cases) (auto split: list.split)

lemma parts_plain: "c \<notin> set s \<Longrightarrow> parts c s = [s]"
  by (induction s) auto

lemma parts_append: "c \<notin> set s \<Longrightarrow> parts c (s @ c # t) = s # parts c t"
  by (induction s) auto

text \<open>Parts put together again.\<close>

fun join :: "char \<Rightarrow> string list \<Rightarrow> string" where
  "join c [] = []"
| "join c [s] = s"
| "join c (s # t # ss) = s @ c # join c (t # ss)"

lemma parts_join: "ss \<noteq> [] \<Longrightarrow> \<forall>s\<in>set ss. c \<notin> set s \<Longrightarrow> parts c (join c ss) = ss"
  by (induction c ss rule: join.induct) (simp_all add: parts_plain parts_append)

lemma join_sep: "c \<in> set (join c (s # t # ss))"
  by simp

lemma join_no_sep: "\<forall>s\<in>set ss. d \<notin> set s \<Longrightarrow> c \<noteq> d \<Longrightarrow> d \<notin> set (join c ss)"
  by (induction c ss rule: join.induct) auto

lemma split_join: "ss \<noteq> [] \<Longrightarrow> \<forall>s\<in>set ss. c \<notin> set s \<Longrightarrow> last ss \<noteq> [] \<Longrightarrow> split_string (join c ss) c = ss"
  by (simp add: split_string_def parts_join)

lemma digit_numerals: "digit 0 = CHR ''0''" "digit (Suc 0) = CHR ''1''" "digit 2 = CHR ''2''" "digit 3 = CHR ''3''" "digit 4 = CHR ''4''" "digit 5 = CHR ''5''"
  by code_simp+

lemma digit_upto:
  "d < 5 \<Longrightarrow> digit d \<in> set ''01234''" "d < 6 \<Longrightarrow> digit d \<in> set ''012345''" "d < 2 \<Longrightarrow> digit d = CHR ''0'' \<or> digit d = CHR ''1''"
proof -
  have l: "d < 5 \<Longrightarrow> d = 0 \<or> d = 1 \<or> d = 2 \<or> d = 3 \<or> d = 4" "d < 6 \<Longrightarrow> d = 0 \<or> d = 1 \<or> d = 2 \<or> d = 3 \<or> d = 4 \<or> d = 5"
    "d < 2 \<Longrightarrow> d = 0 \<or> d = 1" by presburger+
  show "d < 5 \<Longrightarrow> digit d \<in> set ''01234''" by (drule l(1)) (elim disjE; simp add: digit_numerals)
  show "d < 6 \<Longrightarrow> digit d \<in> set ''012345''" by (drule l(2)) (elim disjE; simp add: digit_numerals)
  show "d < 2 \<Longrightarrow> digit d = CHR ''0'' \<or> digit d = CHR ''1''" by (drule l(3)) (elim disjE; simp add: digit_numerals)
qed

lemma nat_string_less: "n < 10 \<Longrightarrow> nat_string n = [digit n]"
  by (subst nat_string.simps) simp

lemma nat_string_more: "\<not> n < 10 \<Longrightarrow> nat_string n = nat_string (n div 10) @ [digit (n mod 10)]"
  by (subst nat_string.simps) simp

text \<open>A number of three digits.\<close>

lemma nat_string_three:
  assumes "100 \<le> n" "n < 1000"
  shows "nat_string n = [digit (n div 100), digit (n div 10 mod 10), digit (n mod 10)]"
proof -
  have "100 div 10 \<le> n div 10" by (rule div_le_mono [OF assms(1)])
  moreover have s: "n div 10 div 10 = n div 100" by (simp add: div_mult2_eq [symmetric])
  moreover have "n div 100 < 10" using assms(2) by (simp add: less_mult_imp_div_less)
  ultimately have q: "\<not> n < 10" "\<not> n div 10 < 10" "n div 100 < 10" using assms(1) by simp_all
  show ?thesis unfolding nat_string_more [OF q(1)] nat_string_more [OF q(2)] s nat_string_less [OF q(3)] by (simp only: append.simps)
qed

lemma octet_nat_string:
  assumes "n < 256"
  shows "octet (nat_string n)"
proof -
  have dig: "isdigit (digit (n mod 10))" "isdigit (digit (n div 10 mod 10))" by simp_all
  consider "n < 10" | "10 \<le> n" "n < 100" | "100 \<le> n" "n < 200" | "200 \<le> n" "n < 250" | "250 \<le> n" by linarith
  then show ?thesis
  proof cases
    case 1
    then show ?thesis by (simp add: nat_string_less octet_def)
  next
    case 2
    then have q: "\<not> n < 10" "n div 10 < 10" by (simp_all add: less_mult_imp_div_less)
    show ?thesis unfolding nat_string_more [OF q(1)] nat_string_less [OF q(2)] using dig q(2) by (simp add: octet_def)
  next
    case 3
    then have n: "100 \<le> n" "n < 1000" "n div 100 < 2" by (simp_all add: less_mult_imp_div_less)
    show ?thesis unfolding nat_string_three [OF n(1,2)] octet_def using dig digit_upto(3) [OF n(3)] by auto
  next
    case 4
    have "200 div 10 \<le> n div 10" using 4(1) by (rule div_le_mono)
    moreover have "n div 10 < 25" using 4(2) by (simp add: less_mult_imp_div_less)
    moreover have "m mod 10 < 5" "m div 10 = 2" if "20 \<le> m" "m < 25" for m :: nat using that by presburger+
    ultimately have m: "n div 10 mod 10 < 5" "n div 10 div 10 = 2" by simp_all
    then have n: "100 \<le> n" "n < 1000" "n div 100 = 2" "n div 10 mod 10 < 5" using 4 by (simp_all add: div_mult2_eq [symmetric])
    show ?thesis unfolding nat_string_three [OF n(1,2)] octet_def n(3) using dig digit_upto(1) [OF n(4)] by (simp add: digit_numerals)
  next
    case 5
    then have "n = 250 \<or> n = 251 \<or> n = 252 \<or> n = 253 \<or> n = 254 \<or> n = 255" using assms by presburger
    then have n: "100 \<le> n" "n < 1000" "n div 100 = 2" "n div 10 mod 10 = 5" "n mod 10 < 6" by auto
    show ?thesis unfolding nat_string_three [OF n(1,2)] octet_def n(3,4) using digit_upto(2) [OF n(5)] by (simp add: digit_numerals)
  qed
qed

lemma stoul_octet:
  assumes "n < 256"
  shows "stoul (nat_string n) = Inr (of_nat n)"
proof -
  have "signed_digits (nat_string n) = Some (False, nat_string n)"
    using signed_digits_plain [of "nat_string n" "[]"] by (simp add: nat_string_isdigit)
  then show ?thesis using assms by (simp add: stoul_def digits_val_nat_string)
qed

lemma nat_string_plain: "CHR ''.'' \<notin> set (nat_string n)" "CHR '' '' \<notin> set (nat_string n)" "CHR '':'' \<notin> set (nat_string n)"
  using nat_string_isdigit [of "CHR ''.''" n] nat_string_isdigit [of "CHR '' ''" n] nat_string_isdigit [of "CHR '':''" n] by (auto simp: isdigit_def)

text \<open>An entry of a host: a card with the octets of its address, or anything that is not an address.\<close>

datatype card_item = Card string nat nat nat nat | No_Address string

definition item_text :: "card_item \<Rightarrow> string" where
  "item_text it = (case it of Card nic a b c d \<Rightarrow> nic @ CHR '':'' # join (CHR ''.'') (map nat_string [a, b, c, d]) | No_Address s \<Rightarrow> s)"

definition wf_item :: "card_item \<Rightarrow> bool" where
  "wf_item it \<longleftrightarrow> (case it of
       Card nic a b c d \<Rightarrow> CHR '' '' \<notin> set nic \<and> CHR '':'' \<notin> set nic \<and> a < 256 \<and> b < 256 \<and> c < 256 \<and> d < 256
     | No_Address s \<Rightarrow> s \<noteq> [] \<and> CHR '' '' \<notin> set s \<and> \<not> ipv4_match (substr s (str_find (CHR '':'') s + 1)))"

definition item_ips :: "card_item \<Rightarrow> u32 list" where
  "item_ips it = (case it of Card nic a b c d \<Rightarrow> [of_nat (((a * 256 + b) * 256 + c) * 256 + d)] | No_Address s \<Rightarrow> [])"

definition item_names :: "string \<Rightarrow> card_item \<Rightarrow> string list" where
  "item_names host it = (case it of Card nic a b c d \<Rightarrow> [host @ ''#'' @ nic] | No_Address s \<Rightarrow> [])"

lemma card_entry_item:
  assumes "wf_item it"
  shows "card_entry host (item_text it) (ips, names) = Inr (ips @ item_ips it, names @ item_names host it)"
proof (cases it)
  case (Card nic a b c d)
  let ?ip = "join (CHR ''.'') (map nat_string [a, b, c, d])"
  have w: "CHR '':'' \<notin> set nic" "a < 256" "b < 256" "c < 256" "d < 256" using assms by (simp_all add: wf_item_def Card)
  have p: "parts (CHR ''.'') ?ip = map nat_string [a, b, c, d]" by (rule parts_join) (simp_all add: nat_string_plain)
  have m: "ipv4_match ?ip" unfolding ipv4_match_def p Let_def using w by (simp add: octet_nat_string)
  have s: "split_string ?ip (CHR ''.'') = map nat_string [a, b, c, d]" by (rule split_join) (simp_all add: nat_string_plain)
  have "ip_num (split_string ?ip (CHR ''.'')) = Inr (push_bit 24 (of_nat a) + push_bit 16 (of_nat b) + push_bit 8 (of_nat c) + of_nat d)"
    unfolding s using w by (simp add: ip_num_def read_at_def stoul_octet)
  moreover have "push_bit 24 (of_nat a) + push_bit 16 (of_nat b) + push_bit 8 (of_nat c) + of_nat d = (of_nat (((a * 256 + b) * 256 + c) * 256 + d) :: u32)"
    by (simp add: push_bit_eq_mult algebra_simps)
  moreover have "str_find (CHR '':'') (nic @ CHR '':'' # ?ip) = int (length nic)" using w(1) by (rule str_find_append)
  moreover have "substr_len (nic @ CHR '':'' # ?ip) 0 (int (length nic)) = nic" "substr (nic @ CHR '':'' # ?ip) (int (length nic) + 1) = ?ip"
    by (simp_all add: substr_len_def substr_def nat_add_distrib)
  ultimately show ?thesis using m
    by (simp add: card_entry_def Let_def item_text_def item_ips_def item_names_def Card del: join.simps list.map)
next
  case (No_Address s)
  then show ?thesis using assms by (simp add: card_entry_def Let_def item_text_def item_ips_def item_names_def wf_item_def)
qed

lemma card_entries:
  "\<forall>it\<in>set items. wf_item it \<Longrightarrow> foldE (card_entry host) (map item_text items) (ips, names) =
   Inr (ips @ concat (map item_ips items), names @ concat (map (item_names host) items))"
  by (induction items arbitrary: ips names) (simp_all add: card_entry_item)

lemma item_text_plain:
  assumes "wf_item it"
  shows "CHR '' '' \<notin> set (item_text it)" "item_text it \<noteq> []"
proof -
  have "CHR '' '' \<notin> set (join (CHR ''.'') (map nat_string [a, b, c, d]))" for a b c d
    by (rule join_no_sep) (simp_all add: nat_string_plain)
  then show "CHR '' '' \<notin> set (item_text it)" "item_text it \<noteq> []"
    using assms by (cases it; simp add: item_text_def wf_item_def del: join.simps list.map)+
qed

lemma card_host_text:
  assumes "\<forall>it\<in>set items. wf_item it"
  shows "card_host (host, ''map['' @ join (CHR '' '') (map item_text items) @ '']'') (ips, names) =
    Inr (ips @ concat (map item_ips items), names @ concat (map (item_names host) items))"
proof -
  let ?t = "join (CHR '' '') (map item_text items)"
  have "substr_len (''map['' @ ?t @ '']'') 4 (int (length (''map['' @ ?t @ '']'')) - 5) = ?t" by (simp add: substr_len_def)
  then have s: "card_host (host, ''map['' @ ?t @ '']'') (ips, names) = foldE (card_entry host) (split_string ?t (CHR '' '')) (ips, names)"
    by (simp add: card_host_def Let_def)
  show ?thesis
  proof (cases "items = []")
    case True
    have "\<not> ipv4_match []" by code_simp
    then show ?thesis unfolding s by (simp add: True split_string_def card_entry_def Let_def substr_def)
  next
    case False
    then have "split_string ?t (CHR '' '') = map item_text items"
      using item_text_plain assms by (intro split_join) (auto simp: last_map)
    then show ?thesis unfolding s using card_entries [OF assms] by simp
  qed
qed

text \<open>C36: the addresses and names of the cards are read back from the text that lists them, in order: every card
  with the number its four octets stand for and the name \<open>host#card\<close>, and nothing for an entry that holds no
  address of that form.\<close>

theorem get_all_net_ips_roundtrip:
  assumes "\<forall>(host, items)\<in>set hosts. \<forall>it\<in>set items. wf_item it"
  shows "get_all_net_ips (map (\<lambda>(host, items). (host, ''map['' @ join (CHR '' '') (map item_text items) @ '']'')) hosts) (ips, names) =
    Inr (ips @ concat (map (\<lambda>(host, items). concat (map item_ips items)) hosts),
         names @ concat (map (\<lambda>(host, items). concat (map (item_names host) items)) hosts))"
  using assms unfolding get_all_net_ips_def
proof (induction hosts arbitrary: ips names)
  case (Cons h hosts)
  obtain host items where h: "h = (host, items)" by (cases h)
  have "\<forall>it\<in>set items. wf_item it" "\<forall>(host, items)\<in>set hosts. \<forall>it\<in>set items. wf_item it" using Cons.prems by (simp_all add: h)
  then show ?case using Cons.IH card_host_text [of items host ips names] by (simp add: h)
qed simp

theorem get_all_net_ips_roundtrip_witness:
  "get_all_net_ips [(''asn86'', ''map[ens1f0:10.0.0.255 lo:::1 ens1f1:172.17.17.33]''), (''h'', ''map[]'')] ([], []) =
    Inr ([0x0A0000FF, 0xAC111121], [''asn86#ens1f0'', ''asn86#ens1f1''])"
proof -
  let ?hosts = "[(''asn86'', [Card ''ens1f0'' 10 0 0 255, No_Address ''lo:::1'', Card ''ens1f1'' 172 17 17 33]), (''h'', [])]"
  have wf: "\<forall>(host, items)\<in>set ?hosts. \<forall>it\<in>set items. wf_item it" by code_simp
  have t: "map (\<lambda>(host, items). (host, ''map['' @ join (CHR '' '') (map item_text items) @ '']'')) ?hosts =
      [(''asn86'', ''map[ens1f0:10.0.0.255 lo:::1 ens1f1:172.17.17.33]''), (''h'', ''map[]'')]" by code_simp
  have v: "concat (map (\<lambda>(host, items). concat (map item_ips items)) ?hosts) = [0x0A0000FF, 0xAC111121]"
    "concat (map (\<lambda>(host, items). concat (map (item_names host) items)) ?hosts) = [''asn86#ens1f0'', ''asn86#ens1f1'']"
    by (simp_all add: item_ips_def item_names_def)
  show ?thesis using get_all_net_ips_roundtrip [OF wf, of "[]" "[]"] unfolding t v by simp
qed

section \<open>The cards and their graphs\<close>

text \<open>The slots that wait for a card and its graphs; the mutex makes every use of the list one step.\<close>

record ('a, 'b, 'c) card_graphs =
  cd_slots :: "nat list"
  cd_g1 :: "('a, val) graph option"
  cd_g2 :: "('b, val) graph option"
  cd_g3 :: "('c, val) graph option"

record ('a, 'b, 'c) card_plans =
  cp_1 :: "('a, val) plan"
  cp_2 :: "('b, val) plan"
  cp_3 :: "('c, val) plan"

definition start_card ::
  "bool \<Rightarrow> ('a, 'b, 'c) card_plans \<Rightarrow> graph_proto option \<times> graph_proto option \<times> graph_proto option \<Rightarrow> ('a, 'b, 'c) card_graphs outcome" where
  "start_card junk pl = (\<lambda>(gc1, gc2, gc3). bindE (start_graph1 junk (cp_1 pl) gc1) (\<lambda>g1. bindE (start_graph2 junk (cp_2 pl) gc2) (\<lambda>g2.
     bindE (start_graph3 junk (cp_3 pl) gc3) (\<lambda>g3. Inr \<lparr>cd_slots = [], cd_g1 = g1, cd_g2 = g2, cd_g3 = g3\<rparr>))))"

text \<open>The map of the names holds positions in the list of all \<open>graph_t\<close>, which are never freed.\<close>

definition start_cards ::
  "bool \<Rightarrow> ('a, 'b, 'c) card_plans \<Rightarrow> graph_proto option \<times> graph_proto option \<times> graph_proto option \<Rightarrow> string list \<Rightarrow>
   ((string \<times> nat) list \<times> ('a, 'b, 'c) card_graphs list) outcome" where
  "start_cards junk pl config host_nic_names = foldE (\<lambda>name (concurrent_graphs, gs). bindE (start_card junk pl config) (\<lambda>g.
     Inr (um_insert name (length gs) concurrent_graphs, gs @ [g]))) host_nic_names ([], [])"

section \<open>A slot of a card\<close>

text \<open>What the report says, with the data the program prints as text.\<close>

datatype verdict = No_Packets | No_Anomaly | No_Attack | Possible_Attack | Confirmed_Attack "(string \<times> dms_rule list) list"

definition card_g2_data :: "features list \<Rightarrow> (string \<times> val) list" where
  "card_g2_data packets = [(''parsed_packets'', VPackets packets)]"

definition card_attack ::
  "int \<Rightarrow> ('t, val) plan \<Rightarrow> features list \<Rightarrow> ('t, val) graph \<Rightarrow> (int \<times> (u32 \<times> int) list \<times> ('t, val) graph) outcome" where
  "card_attack junk plan packets g =
     bindE (inject junk (card_g2_data packets) g) (\<lambda>g.
     bindE (Graph_RunOnce (fst plan) (snd plan) g) (\<lambda>g.
     bindE (GetResult as_double (Fin 0) ''attack_res'' g) (\<lambda>(attack_number, g).
     bindE (GetResult as_counts [] ''sip_count'' g) (\<lambda>(sip_count_ret, g).
     bindE (ClearResult g) (\<lambda>g.
     bindE (to_int32 attack_number) (\<lambda>n. Inr (n, sip_count_ret, g)))))))"

definition card_g3_data :: "features list \<Rightarrow> u32 list \<Rightarrow> double list \<Rightarrow> string \<Rightarrow> (u32 \<times> int) list \<Rightarrow> (string \<times> val) list" where
  "card_g3_data packets all_known_ips netdevs host_nic_name sip_count_ret =
     [(''parsed_packets'', VPackets packets), (''all_known_ips'', VIPs all_known_ips), (''host_nic_name'', VString host_nic_name),
      (''netdevs_1'', VDoubles netdevs), (''sip_count'', VCounts sip_count_ret)]"

definition card_rules ::
  "int \<Rightarrow> ('t, val) plan \<Rightarrow> u32 list \<Rightarrow> slot_header \<Rightarrow> anomaly_result \<Rightarrow> features list \<Rightarrow> (u32 \<times> int) list \<Rightarrow> ('t, val) graph \<Rightarrow>
   ((string \<times> dms_rule list) list \<times> ('t, val) graph) outcome" where
  "card_rules junk plan all_known_ips h an packets sip_count_ret g =
     (let netdevs = [an_incrbytesRecv an, an_inMbps_score an, an_incrpacketRecv an, an_inKpps_score an] in
      bindE (inject junk (card_g3_data packets all_known_ips netdevs (sh_host_nic_name h) sip_count_ret) g) (\<lambda>g.
      bindE (Graph_RunOnce (fst plan) (snd plan) g) (\<lambda>g.
      bindE (GetResult as_rules [] ''dms_rules'' g) (\<lambda>(ret, g).
      bindE (ClearResult g) (\<lambda>g. Inr (ret, g))))))"

definition card_slot ::
  "int \<Rightarrow> ('a, 'b, 'c) card_plans \<Rightarrow> u32 list \<Rightarrow> bytes \<Rightarrow> nat \<Rightarrow> ('a, 'b, 'c) card_graphs \<Rightarrow> ((slot_header \<times> verdict) \<times> ('a, 'b, 'c) card_graphs) outcome" where
  "card_slot junk pl all_known_ips mem nic_data c =
     bindE (parse_slot_header mem nic_data) (\<lambda>(h, offset).
     if sh_pkts_stats h ! 0 = 0 then Inr ((h, No_Packets), c)
     else bindE (ptr_deref (cd_g1 c)) (\<lambda>g1. bindE (g1_anomaly_detect junk (cp_1 pl) h g1) (\<lambda>(an, g1).
       let c = c\<lparr>cd_g1 := Some g1\<rparr> in
       if 0 < an_abnormal_number an then
         let pkts_cnt = (if 10000 < sh_pkts_stats h ! 0 then 10000 else sh_pkts_stats h ! 0) in
         bindE (parse_packets mem (nic_data + offset) pkts_cnt []) (\<lambda>packets.
         bindE (ptr_deref (cd_g2 c)) (\<lambda>g2. bindE (card_attack junk (cp_2 pl) packets g2) (\<lambda>(attack_number, sip_count_ret, g2).
           let c = c\<lparr>cd_g2 := Some g2\<rparr> in
           if attack_number = 2 then
             bindE (ptr_deref (cd_g3 c)) (\<lambda>g3. bindE (card_rules junk (cp_3 pl) all_known_ips h an packets sip_count_ret g3) (\<lambda>(ret, g3).
               Inr ((h, Confirmed_Attack ret), c\<lparr>cd_g3 := Some g3\<rparr>)))
           else if attack_number = 1 then Inr ((h, Possible_Attack), c)
           else Inr ((h, No_Attack), c))))
       else Inr ((h, No_Anomaly), c))))"

text \<open>A round of the thread of a card; without a slot it begins again.\<close>

definition card_round ::
  "int \<Rightarrow> ('a, 'b, 'c) card_plans \<Rightarrow> u32 list \<Rightarrow> bytes \<Rightarrow> ('a, 'b, 'c) card_graphs \<Rightarrow>
   ((nat \<times> slot_header \<times> verdict) option \<times> ('a, 'b, 'c) card_graphs) outcome" where
  "card_round junk pl all_known_ips mem c = (case cd_slots c of
       [] \<Rightarrow> Inr (None, c)
     | nic_data # rest \<Rightarrow> bindE (card_slot junk pl all_known_ips mem nic_data (c\<lparr>cd_slots := rest\<rparr>)) (\<lambda>(r, c). Inr (Some (nic_data, r), c)))"

section \<open>From the ring buffer to the cards\<close>

record ('a, 'b, 'c) all_net =
  al_head :: nat
  al_tail :: nat
  al_size :: nat
  al_concurrent_graphs :: "(string \<times> nat) list"
  al_cards :: "('a, 'b, 'c) card_graphs list"

definition all_net_start ::
  "nat \<Rightarrow> nat \<Rightarrow> (string \<times> nat) list \<times> ('a, 'b, 'c) card_graphs list \<Rightarrow> ('a, 'b, 'c) all_net" where
  "all_net_start slot_size slot_count = (\<lambda>(concurrent_graphs, gs).
     \<lparr>al_head = 0, al_tail = 0, al_size = slot_size * slot_count, al_concurrent_graphs = concurrent_graphs, al_cards = gs\<rparr>)"

text \<open>A round of \<open>main\<close>, with the name and the offset of the slot. A name that is not in the map is inserted with a
  null pointer, which is dereferenced at once.\<close>

definition all_net_read :: "nat \<Rightarrow> bytes \<Rightarrow> ('a, 'b, 'c) all_net \<Rightarrow> ((string \<times> nat) option \<times> ('a, 'b, 'c) all_net) outcome" where
  "all_net_read slot_size mem s =
     (if rb_used (al_head s) (al_tail s) (al_size s) < slot_size then Inr (None, s)
      else if al_size s = 0 then Inl Undefined
      else let nic_data = al_head s; s = s\<lparr>al_head := (al_head s + slot_size) mod al_size s mod 2 ^ 32\<rparr> in
        bindE (le16_at mem nic_data) (\<lambda>nic_name_len. let slot = nic_data + 2; n = unat nic_name_len in
        if length mem < slot + n then Inl Undefined
        else let host_nic_name = map (\<lambda>b. char_of (unat b)) (take n (drop slot mem)) in
          case map_of (al_concurrent_graphs s) host_nic_name of
            None \<Rightarrow> Inl Undefined
          | Some i \<Rightarrow> bindE (read_at (al_cards s) (int i)) (\<lambda>c.
              Inr (Some (host_nic_name, nic_data), s\<lparr>al_cards := (al_cards s)[i := c\<lparr>cd_slots := cd_slots c @ [nic_data]\<rparr>]\<rparr>))))"

text \<open>What happens, each event with the memory at that time; recorded are the slots read, with their names, and the
  slots taken, with the position of the card and the report.\<close>

fun all_net_run ::
  "nat \<Rightarrow> int \<Rightarrow> ('a, 'b, 'c) card_plans \<Rightarrow> u32 list \<Rightarrow> (bytes \<times> ring_event) list \<Rightarrow>
   ('a, 'b, 'c) all_net \<times> (string \<times> nat) list \<times> (nat \<times> nat \<times> slot_header \<times> verdict) list \<Rightarrow>
   (('a, 'b, 'c) all_net \<times> (string \<times> nat) list \<times> (nat \<times> nat \<times> slot_header \<times> verdict) list) outcome" where
  "all_net_run slot_size junk pl ips [] st = Inr st"
| "all_net_run slot_size junk pl ips ((mem, Produce t) # es) (s, rd, tk) = all_net_run slot_size junk pl ips es (s\<lparr>al_tail := t\<rparr>, rd, tk)"
| "all_net_run slot_size junk pl ips ((mem, Read_Round) # es) (s, rd, tk) = bindE (all_net_read slot_size mem s) (\<lambda>(x, s).
     all_net_run slot_size junk pl ips es (s, rd @ (case x of None \<Rightarrow> [] | Some e \<Rightarrow> [e]), tk))"
| "all_net_run slot_size junk pl ips ((mem, Take_Slot i) # es) (s, rd, tk) = bindE (read_at (al_cards s) (int i)) (\<lambda>c.
     bindE (card_round junk pl ips mem c) (\<lambda>(x, c).
       all_net_run slot_size junk pl ips es (s\<lparr>al_cards := (al_cards s)[i := c]\<rparr>, rd, tk @ (case x of None \<Rightarrow> [] | Some e \<Rightarrow> [(i, e)]))))"

section \<open>Every slot reaches its card\<close>

lemma start_cards_from:
  assumes "foldE (\<lambda>name (concurrent_graphs, gs). bindE (start_card junk pl config) (\<lambda>g.
      Inr (um_insert name (length gs) concurrent_graphs, gs @ [g]))) names (m, cs) = Inr (m', cs')"
    and "\<forall>c\<in>set cs. cd_slots c = []" "distinct names"
  shows "length cs' = length cs + length names \<and> (\<forall>c\<in>set cs'. cd_slots c = []) \<and>
    (\<forall>i < length names. map_of m' (names ! i) = Some (length cs + i)) \<and> (\<forall>n. n \<notin> set names \<longrightarrow> map_of m' n = map_of m n)"
  using assms
proof (induction names arbitrary: m cs)
  case (Cons n names)
  obtain g where g: "start_card junk pl config = Inr g" and rest: "foldE (\<lambda>name (concurrent_graphs, gs). bindE (start_card junk pl config) (\<lambda>g.
      Inr (um_insert name (length gs) concurrent_graphs, gs @ [g]))) names (um_insert n (length cs) m, cs @ [g]) = Inr (m', cs')"
    using Cons.prems(1) by (cases "start_card junk pl config") auto
  have "cd_slots g = []" using g by (auto simp: start_card_def bindE_Inr_iff split: prod.splits)
  then have "\<forall>c\<in>set (cs @ [g]). cd_slots c = []" using Cons.prems(2) by auto
  from Cons.IH [OF rest this] Cons.prems(3) have ih: "length cs' = length (cs @ [g]) + length names" "\<forall>c\<in>set cs'. cd_slots c = []"
    "\<forall>i < length names. map_of m' (names ! i) = Some (length (cs @ [g]) + i)"
    "\<forall>k. k \<notin> set names \<longrightarrow> map_of m' k = map_of (um_insert n (length cs) m) k" by auto
  have "map_of m' ((n # names) ! i) = Some (length cs + i)" if "i < Suc (length names)" for i
    using that ih(3,4) Cons.prems(3) by (cases i) (auto simp: container_facts)
  then show ?case using ih by (auto simp: container_facts)
qed simp

text \<open>What holds of the slots of all cards, with the slots read and taken so far.\<close>

definition routed :: "('a, 'b, 'c) all_net \<times> (string \<times> nat) list \<times> (nat \<times> nat \<times> slot_header \<times> verdict) list \<Rightarrow> bool" where
  "routed = (\<lambda>(s, rd, tk). (\<forall>i < length (al_cards s).
     map (\<lambda>(i, p, r). p) (filter (\<lambda>(j, e). j = i) tk) @ cd_slots (al_cards s ! i) =
       map snd (filter (\<lambda>(n, p). map_of (al_concurrent_graphs s) n = Some i) rd)) \<and>
     (\<forall>(n, p)\<in>set rd. n \<in> fst ` set (al_concurrent_graphs s)))"

lemma all_net_read_routed:
  assumes "all_net_read slot_size mem s = Inr (x, s')" "routed (s, rd, tk)"
  shows "routed (s', rd @ (case x of None \<Rightarrow> [] | Some e \<Rightarrow> [e]), tk) \<and> al_concurrent_graphs s' = al_concurrent_graphs s \<and>
    length (al_cards s') = length (al_cards s)"
proof (cases "rb_used (al_head s) (al_tail s) (al_size s) < slot_size")
  case True
  then show ?thesis using assms by (auto simp: all_net_read_def)
next
  case False
  let ?s = "s\<lparr>al_head := (al_head s + slot_size) mod al_size s mod 2 ^ 32\<rparr>"
  obtain n i c where r: "map_of (al_concurrent_graphs s) n = Some i" "read_at (al_cards s) (int i) = Inr c" "x = Some (n, al_head s)"
    "s' = ?s\<lparr>al_cards := (al_cards s)[i := c\<lparr>cd_slots := cd_slots c @ [al_head s]\<rparr>]\<rparr>"
    using assms(1) False by (auto simp: all_net_read_def Let_def bindE_Inr_iff split: if_splits option.splits)
  have c: "i < length (al_cards s)" "c = al_cards s ! i" using r(2) by (auto simp: read_at_def split: if_splits)
  have "map (\<lambda>(i, p, r). p) (filter (\<lambda>(j, e). j = k) tk) @ cd_slots (al_cards s' ! k) =
      map snd (filter (\<lambda>(n, p). map_of (al_concurrent_graphs s') n = Some k) (rd @ [(n, al_head s)]))" if "k < length (al_cards s')" for k
  proof -
    have "map (\<lambda>(i, p, r). p) (filter (\<lambda>(j, e). j = k) tk) @ cd_slots (al_cards s ! k) =
      map snd (filter (\<lambda>(n, p). map_of (al_concurrent_graphs s) n = Some k) rd)" using assms(2) that r(4) by (simp add: routed_def)
    then show ?thesis using r(1,4) c by (cases "k = i") (auto simp flip: append_assoc)
  qed
  moreover have "n \<in> fst ` set (al_concurrent_graphs s)" using map_of_SomeD [OF r(1)] by force
  ultimately show ?thesis using assms(2) r(3,4) by (auto simp: routed_def)
qed

lemma card_slot_slots: "card_slot junk pl ips mem p c = Inr (r, c') \<Longrightarrow> cd_slots c' = cd_slots c"
  unfolding card_slot_def Let_def by (auto simp: bindE_Inr_iff split: if_splits prod.splits)

lemma card_round_routed:
  assumes "read_at (al_cards s) (int i) = Inr c" "card_round junk pl ips mem c = Inr (x, c')" "routed (s, rd, tk)"
  shows "routed (s\<lparr>al_cards := (al_cards s)[i := c']\<rparr>, rd, tk @ (case x of None \<Rightarrow> [] | Some e \<Rightarrow> [(i, e)]))"
proof -
  have c: "i < length (al_cards s)" "c = al_cards s ! i" using assms(1) by (auto simp: read_at_def split: if_splits)
  show ?thesis
  proof (cases "cd_slots c")
    case Nil
    then have "x = None" "c' = c" using assms(2) by (simp_all add: card_round_def)
    then show ?thesis using assms(3) c by (simp add: routed_def)
  next
    case (Cons p ps)
    then obtain r where r: "card_slot junk pl ips mem p (c\<lparr>cd_slots := ps\<rparr>) = Inr (r, c')" "x = Some (p, r)"
      using assms(2) by (auto simp: card_round_def bindE_Inr_iff)
    have "cd_slots c' = ps" using card_slot_slots [OF r(1)] by simp
    then show ?thesis using assms(3) c Cons r(2) by (auto simp: routed_def nth_list_update)
  qed
qed

lemma all_net_run_routed:
  "all_net_run slot_size junk pl ips es (s, rd, tk) = Inr (s', rd', tk') \<Longrightarrow> routed (s, rd, tk) \<Longrightarrow>
   routed (s', rd', tk') \<and> al_concurrent_graphs s' = al_concurrent_graphs s \<and> length (al_cards s') = length (al_cards s)"
proof (induction es arbitrary: s rd tk)
  case (Cons e es)
  obtain mem ev where e: "e = (mem, ev)" by (cases e)
  show ?case
  proof (cases ev)
    case (Produce t)
    have "routed (s\<lparr>al_tail := t\<rparr>, rd, tk)" using Cons.prems(2) by (simp add: routed_def)
    from Cons.IH [OF _ this] show ?thesis using Cons.prems(1) by (simp add: e Produce)
  next
    case Read_Round
    obtain x s1 where r: "all_net_read slot_size mem s = Inr (x, s1)"
      "all_net_run slot_size junk pl ips es (s1, rd @ (case x of None \<Rightarrow> [] | Some e \<Rightarrow> [e]), tk) = Inr (s', rd', tk')"
      using Cons.prems(1) by (auto simp: e Read_Round bindE_Inr_iff)
    then show ?thesis using all_net_read_routed [OF r(1) Cons.prems(2)] Cons.IH [OF r(2)] by simp
  next
    case (Take_Slot i)
    obtain c x c' where r: "read_at (al_cards s) (int i) = Inr c" "card_round junk pl ips mem c = Inr (x, c')"
      "all_net_run slot_size junk pl ips es (s\<lparr>al_cards := (al_cards s)[i := c']\<rparr>, rd, tk @ (case x of None \<Rightarrow> [] | Some e \<Rightarrow> [(i, e)])) = Inr (s', rd', tk')"
      using Cons.prems(1) by (auto simp: e Take_Slot bindE_Inr_iff)
    then show ?thesis using card_round_routed [OF r(1,2) Cons.prems(2)] Cons.IH [OF r(3)] by simp
  qed
qed simp

text \<open>C12: whatever the memory holds and however the threads take turns, every slot read from the ring buffer goes to
  the card it names and to no other, and the thread of a card takes the slots of its card in the order in
  which they were read: what it took followed by what waits for it is what was read for it.\<close>

theorem all_net_run_routes:
  assumes "distinct names" "start_cards start_junk pl config names = Inr gs"
    and "all_net_run slot_size junk pl ips es (all_net_start slot_size slot_count gs, [], []) = Inr (s, rd, tk)"
  shows "length (al_cards s) = length names \<and> fst ` set rd \<subseteq> set names \<and>
    (\<forall>i < length names. map (\<lambda>(i, p, r). p) (filter (\<lambda>(j, e). j = i) tk) @ cd_slots (al_cards s ! i) =
      map snd (filter (\<lambda>(n, p). n = names ! i) rd))"
proof -
  obtain m cs where gs: "gs = (m, cs)" by (cases gs)
  have "\<forall>c\<in>set []. cd_slots c = []" by simp
  note started = start_cards_from [OF assms(2) [unfolded gs start_cards_def] this assms(1), unfolded list.size add_0]
  have st: "length cs = length names" "\<forall>c\<in>set cs. cd_slots c = []" "\<forall>i < length names. map_of m (names ! i) = Some i"
    "\<forall>n. n \<notin> set names \<longrightarrow> map_of m n = None"
    using started by (blast, blast, blast, simp)
  let ?s = "all_net_start slot_size slot_count gs"
  have s: "al_cards ?s = cs" "al_concurrent_graphs ?s = m" by (simp_all add: all_net_start_def gs)
  have "routed (?s, [], [])" unfolding routed_def prod.case s using st(2) by simp
  note run = all_net_run_routed [OF assms(3) this, unfolded s]
  have r: "routed (s, rd, tk)" "al_concurrent_graphs s = m" "length (al_cards s) = length names"
    by (rule conjunct1 [OF run], rule conjunct1 [OF conjunct2 [OF run]], rule trans [OF conjunct2 [OF conjunct2 [OF run]] st(1)])
  note rt = r(1) [unfolded routed_def prod.case r(2,3)]
  have known: "n \<in> set names" if "map_of m n \<noteq> None" for n
    using spec [OF st(4), of n] that by argo
  have same: "map_of m n = Some i \<longleftrightarrow> n = names ! i" if i: "i < length names" for n i
  proof
    assume n: "map_of m n = Some i"
    then have "n \<in> set names" by (intro known) simp
    then obtain j where j: "j < length names" "n = names ! j" by (auto simp: in_set_conv_nth)
    then have "map_of m n = Some j" using spec [OF st(3), of j] by simp
    then show "n = names ! i" using n j(2) by simp
  next
    assume "n = names ! i"
    then show "map_of m n = Some i" using spec [OF st(3), of i] i by simp
  qed
  have flt: "filter (\<lambda>(n, p). map_of m n = Some i) rd = filter (\<lambda>(n, p). n = names ! i) rd" if "i < length names" for i
    unfolding same [OF that] by (rule refl)
  have "fst ` set rd \<subseteq> set names"
  proof
    fix n assume "n \<in> fst ` set rd"
    then obtain p where "(n, p) \<in> set rd" by auto
    from bspec [OF conjunct2 [OF rt] this] have "n \<in> fst ` set m" by simp
    then show "n \<in> set names" by (intro known) (simp add: map_of_eq_None_iff)
  qed
  moreover have "map (\<lambda>(i, p, r). p) (filter (\<lambda>(j, e). j = i) tk) @ cd_slots (al_cards s ! i) = map snd (filter (\<lambda>(n, p). n = names ! i) rd)"
    if "i < length names" for i
    using mp [OF spec [OF conjunct1 [OF rt], of i] that] unfolding flt [OF that] .
  ultimately show ?thesis using r(3) by blast
qed

text \<open>A round of \<open>main\<close> on a written slot.\<close>

lemma all_net_read_slot:
  assumes "wf_slot d" "length pre = al_head s" "slot_size \<le> rb_used (al_head s) (al_tail s) (al_size s)" "al_size s \<noteq> 0"
  shows "all_net_read slot_size (pre @ enc_slot_header d @ post) s = (case map_of (al_concurrent_graphs s) (sd_name d) of
       None \<Rightarrow> Inl Undefined
     | Some i \<Rightarrow> bindE (read_at (al_cards s) (int i)) (\<lambda>c. Inr (Some (sd_name d, al_head s),
         s\<lparr>al_head := (al_head s + slot_size) mod al_size s mod 2 ^ 32, al_cards := (al_cards s)[i := c\<lparr>cd_slots := cd_slots c @ [al_head s]\<rparr>]\<rparr>)))"
proof -
  let ?n = "length (sd_name d)" and ?name = "map (\<lambda>c. of_nat (of_char c)) (sd_name d) :: bytes" and ?mem = "pre @ enc_slot_header d @ post"
  obtain rest where h: "enc_slot_header d = enc_le16 (of_nat ?n) @ ?name @ rest" by (simp add: enc_slot_header_def)
  have n: "?n < 65536" using assms(1) by (simp add: wf_slot_def)
  have r1: "le16_at ?mem (al_head s) = Inr (ucast (of_nat ?n :: 16 word))"
    using le16_at_enc [OF assms(2), of "of_nat ?n" "?name @ rest @ post"] by (simp add: h)
  have r2: "take ?n (drop (al_head s + 2) ?mem) = ?name" "\<not> length ?mem < al_head s + 2 + ?n" using assms(2) by (simp_all add: h)
  have u: "\<not> rb_used (al_head s) (al_tail s) (al_size s) < slot_size" using assms(3) by simp
  have a: "al_concurrent_graphs (s\<lparr>al_head := x\<rparr>) = al_concurrent_graphs s" "al_cards (s\<lparr>al_head := x\<rparr>) = al_cards s" for x by simp_all
  show ?thesis unfolding all_net_read_def if_not_P [OF u] if_not_P [OF assms(4)] Let_def r1 bindE_simps unat_len [OF n] if_not_P [OF r2(2)] r2(1) chars_back a
    by (auto split: option.split)
qed

text \<open>A slot of a card that had no address when the program was started stops the program.\<close>

lemma all_net_unknown_card:
  assumes "wf_slot d" "length pre = al_head s" "slot_size \<le> rb_used (al_head s) (al_tail s) (al_size s)" "al_size s \<noteq> 0"
    and "sd_name d \<notin> fst ` set (al_concurrent_graphs s)"
  shows "all_net_read slot_size (pre @ enc_slot_header d @ post) s = Inl Undefined"
  using all_net_read_slot [OF assms(1-4)] assms(5) by (simp add: map_of_eq_None_iff [symmetric])

text \<open>A slot of \<open>demo_slot\<close> without packets.\<close>

definition quiet_slot :: slot_data where
  "quiet_slot = demo_slot\<lparr>sd_pkts := replicate 9 0\<rparr>"

lemma quiet_card_slot:
  "card_slot junk pl ips (enc_slot_header quiet_slot @ post) 0 c = Inr ((slot_header_of quiet_slot, No_Packets), c)"
proof -
  have "wf_slot quiet_slot" using demo_wf by (simp add: wf_slot_def quiet_slot_def demo_slot_def)
  from parse_slot_header_enc [OF this, of "[]" 0 post] have h: "parse_slot_header (enc_slot_header quiet_slot @ post) 0 =
      Inr (slot_header_of quiet_slot, length (enc_slot_header quiet_slot))" by simp
  have "sh_pkts_stats (slot_header_of quiet_slot) ! 0 = 0" by (simp add: slot_header_of_def quiet_slot_def)
  then show ?thesis unfolding card_slot_def h by simp
qed

theorem all_net_run_routes_witness:
  "\<exists>s. all_net_run 20 0 \<lparr>cp_1 = pl_1 demo_plans, cp_2 = pl_2 demo_plans, cp_3 = pl_3 demo_plans\<rparr> []
      [([], Produce 40), (enc_slot_header quiet_slot, Read_Round), (enc_slot_header quiet_slot, Take_Slot 1)]
      (all_net_start 20 100 ([(''a#b'', 0), (''h#n'', 1)], replicate 2 \<lparr>cd_slots = [], cd_g1 = None, cd_g2 = None, cd_g3 = None\<rparr>), [], []) =
    Inr (s, [(''h#n'', 0)], [(1, 0, slot_header_of quiet_slot, No_Packets)]) \<and> cd_slots (al_cards s ! 1) = []"
proof -
  let ?c = "\<lparr>cd_slots = [], cd_g1 = None, cd_g2 = None, cd_g3 = None\<rparr> :: (unit, unit, unit) card_graphs"
  let ?pl = "\<lparr>cp_1 = pl_1 demo_plans, cp_2 = pl_2 demo_plans, cp_3 = pl_3 demo_plans\<rparr>"
  let ?gs = "([(''a#b'', 0), (''h#n'', 1)], replicate 2 ?c)"
  let ?es = "[([], Produce 40), (enc_slot_header quiet_slot, Read_Round), (enc_slot_header quiet_slot, Take_Slot 1)]"
  have two: "replicate 2 ?c = [?c, ?c]" by (simp add: numeral_2_eq_2)
  have start: "start_cards False ?pl (None, None, None) [''a#b'', ''h#n''] = Inr ?gs"
    by (simp add: start_cards_def start_card_def start_graph1_def start_graph2_def start_graph3_def start_graph_def two)
  have wf: "wf_slot quiet_slot" using demo_wf by (simp add: wf_slot_def quiet_slot_def demo_slot_def)
  have name: "sd_name quiet_slot = ''h#n''" by (simp add: quiet_slot_def demo_slot_def)
  let ?s = "(all_net_start 20 100 ?gs)\<lparr>al_tail := 40\<rparr>"
  have read: "all_net_read 20 (enc_slot_header quiet_slot) ?s =
      Inr (Some (''h#n'', 0), ?s\<lparr>al_head := 20, al_cards := [?c, ?c\<lparr>cd_slots := [0]\<rparr>]\<rparr>)"
    using all_net_read_slot [OF wf, of "[]" ?s 20 "[]"]
    by (simp add: name all_net_start_def rb_used_def read_at_def two)
  define s where "s = ?s\<lparr>al_head := 20, al_cards := [?c, ?c]\<rparr>"
  have s: "all_net_run 20 0 ?pl [] ?es (all_net_start 20 100 ?gs, [], []) = Inr (s, [(''h#n'', 0)], [(1, 0, slot_header_of quiet_slot, No_Packets)])"
    using quiet_card_slot [of 0 ?pl "[]" "[]"] unfolding all_net_run.simps read bindE_simps prod.case
    by (simp add: read_at_def card_round_def s_def)
  have names: "distinct [''a#b'', ''h#n'']" by simp
  have "cd_slots (al_cards s ! 1) = []" using spec [OF conjunct2 [OF conjunct2 [OF all_net_run_routes [OF names start s]]], of 1] by simp
  then show ?thesis using s by blast
qed

section \<open>The tasks refuse what the program puts into the graphs\<close>

text \<open>C39: the packets and the counts are put into the graphs as values, while the task that counts the features of
  packets and the task that merges attackers take pointers to a vector of rows and to a map: both return
  -1 and emit nothing, whatever the slot held.\<close>

theorem all_net_inputs_refused:
  assumes "c_at (ctx_inputs ctx2) 0 = Inr s2" "d_val (is_Value s2) = map_of (card_g2_data packets) ''parsed_packets''"
    and "Get (ctx_inputs ctx3) ''SIP'' 0 = Inr s3"
    and "d_val (is_Value s3) = map_of (card_g3_data packets all_known_ips netdevs host_nic_name sip_count_ret) ''sip_count''"
  shows "FeatureCounterTask_Process features junk ctx2 = Inr (- 1, ctx2) \<and>
    SndAttackerIPMergeTask_Process t junk ctx3 = Inr (- 1, ctx3, None)"
  using assms by (simp add: FeatureCounterTask_Process_def SndAttackerIPMergeTask_Process_def input_at_def input_get_def Consume_def
      card_g2_data_def card_g3_data_def as_rows_def as_counts_ptr_def)

theorem all_net_inputs_refused_witness:
  "FeatureCounterTask_Process [''SIP''] 1 (demo_ctx (demo_inputs (plain_tags 1) [VPackets [[(''SIP'', 7)]]])) =
      Inr (- 1, demo_ctx (demo_inputs (plain_tags 1) [VPackets [[(''SIP'', 7)]]])) \<and>
    SndAttackerIPMergeTask_Process SndAttackerIPMergeTask 1 (demo_ctx (demo_inputs [(''SIP'', \<lparr>td_base = 0, td_count = 1\<rparr>)] [VCounts [(7, 1)]])) =
      Inr (- 1, demo_ctx (demo_inputs [(''SIP'', \<lparr>td_base = 0, td_count = 1\<rparr>)] [VCounts [(7, 1)]]), None)"
proof -
  let ?c2 = "demo_ctx (demo_inputs (plain_tags 1) [VPackets [[(''SIP'', 7)]]])"
  let ?c3 = "demo_ctx (demo_inputs [(''SIP'', \<lparr>td_base = 0, td_count = 1\<rparr>)] [VCounts [(7, 1)]])"
  let ?s2 = "InputStream0\<lparr>is_queue := [Datum_ts (VPackets [[(''SIP'', 7)]]) 1]\<rparr>" and ?s3 = "InputStream0\<lparr>is_queue := [Datum_ts (VCounts [(7, 1)]) 1]\<rparr>"
  have "c_at (ctx_inputs ?c2) 0 = Inr ?s2" "d_val (is_Value ?s2) = Some (VPackets [[(''SIP'', 7)]])"
    "Get (ctx_inputs ?c3) ''SIP'' 0 = Inr ?s3" "d_val (is_Value ?s3) = Some (VCounts [(7, 1)])" by code_simp+
  then show ?thesis
    using all_net_inputs_refused [of ?c2 ?s2 "[[(''SIP'', 7)]]" ?c3 ?s3 "[]" "[]" "[]" "[(7, 1)]"] by (simp add: card_g2_data_def card_g3_data_def)
qed

end
