(* ===== verification/Spec2Isabelle.thy ===== *)
theory Spec2Isabelle
  imports Task_Nodes Node_Life Dms_Rules Attacker_Merge Packet_Parse Sip_Dedup Onnx_Results Detect_Server Net_Cards
begin

text \<open>
  The dni framework and the network detection built on it, as functions and step relations of HOL.

  \<^bold>\<open>The program.\<close> dni (\<open>src/dni/framework\<close>) runs graphs of tasks. A graph is described by a protobuf text: nodes
  with the name of a task, streams that connect the nodes, side data, options. Every stream is written
  \<open>TAG:INDEX:NAME\<close>; the names connect, tags and indices select the slot of a node. A value travels as a \<open>Datum\<close>
  (a \<open>std::any\<close> with a timestamp): a program adds it to a graph input stream, the output stream mirrors it into
  the input stream managers of the nodes that read it, a node moves what its managers hold into the
  inputs of its task (\<open>Marshal\<close>), calls the task, and propagates what the task wrote. Observers of
  output streams hold the results of a run. The tasks (\<open>src/dni/tasks\<close>) compute statistics and scores of traffic,
  merge source addresses into blocks, generate defence rules, parse packets and run ONNX models. The programs
  in \<open>src/samples/ddos\<close> take slots of measured traffic from a ring buffer in shared memory and run each through
  graphs of these tasks.

  \<^bold>\<open>The model.\<close> State is a record that is passed and returned; pointers are indices into stores. An operation
  returns \<open>exn + 'a\<close> (\<open>outcome\<close>, in \<open>Strings\<close>): \<open>Inl\<close> is an exception of the C++ library or \<open>Undefined\<close>, where the
  language gives the program no meaning; an integer result code is the first component of a pair. Words are kept
  at their width; \<open>int\<close> is an integer with the range checked where it can overflow.

  \<^item> \<open>Prelude\<close>, \<open>Strings\<close>, \<open>Containers\<close>, \<open>Doubles\<close>: what the code uses of its language and standard library: machine
    types, exceptions, \<open>std::string\<close> and its conversions, \<open>std::map\<close> and \<open>std::unordered_map\<close> (the locale
    \<open>keyed_store\<close>, with the counting loops proved inside it), binary64 arithmetic.
  \<^item> \<open>Cidr\<close> (\<open>framework/formats/cidr.cc\<close>): merging addresses into blocks and splitting ranges into blocks. A block means
    the set of its addresses; the lemmas show that both directions cover exactly what they are given, with
    ordered disjoint blocks and no pair left to merge, and that the loop that steps back ends.
  \<^item> \<open>Tags\<close> (\<open>utils/tags.cc\<close>), \<open>Graph_Config\<close> (\<open>utils/names.cc\<close>, \<open>node_config.cc\<close>, \<open>graph_config.cc\<close>): from
    descriptions to slots, edges and predecessors. Slots are numbered without gap or overlap, a lookup finds the
    slot of its tag and index, every input edge of a parsed graph is connected to the output of its name wherever the graph,
    the node or an earlier node has one, the index by name points at an edge of that name, the edges of the nodes lie
    in consecutive blocks, and predecessors are not later nodes. The parser of \<open>TAG:INDEX:NAME\<close> accepts more than its
    comment says (\<open>listed_invalid_accepted\<close>).
  \<^item> \<open>Datum\<close>, \<open>Streams\<close>, \<open>Handlers\<close>, \<open>Side_Data\<close> (\<open>datum.h\<close>, \<open>timestamp.h\<close>, \<open>input_stream*\<close>, \<open>output_stream*\<close>,
    \<open>collection.h\<close>, \<open>task_context.h\<close>, \<open>input_side_data.cc\<close>, \<open>output_side_data.cc\<close>): queues with timestamp
    bounds (the locales \<open>accepting_queue\<close> and \<open>fifo_queue\<close>), marshalling, readiness, propagation to mirrors.
    The lemmas give the exact queues after each operation.
  \<^item> \<open>Node\<close> (\<open>node.cc\<close>, \<open>task.h\<close>, \<open>task_register.h\<close>), \<open>Graph\<close> (\<open>graph.cc\<close>): the calls of a node (\<open>node_apply\<close>),
    and the graph: initialisation, observers, adding a datum, running, results, as a labelled step relation
    (\<open>graph_step\<close>) and the states it reaches (\<open>graph_reach\<close>). \<open>task_code\<close> is the record of a task's virtual
    functions, an argument of the model. An added datum is queued at exactly the managers of the node inputs that are
    connected to its stream and of the observers of its stream.
  \<^item> \<open>Node_Life\<close> (\<open>node.cc\<close>, \<open>graph.cc\<close>): progress and preservation. From the moment \<open>PrepareForRun\<close> of a node has
    returned 0 until the node is finished, no step of the graph takes its task, context or side data away, and every
    call on it returns. Before that there is no context: \<open>Graph::PrepareForRun\<close> ignores a preparation that fails, and
    \<open>Open\<close> then follows a null pointer.
  \<^item> \<open>Task_Values\<close> (\<open>snding_defines.h\<close>): the values tasks exchange, one constructor for each C++ type, and the contract
    \<open>emitting_task\<close> of a task that emits one value or changes nothing. \<open>Core_Tasks\<close> (\<open>tasks/core\<close>) and \<open>Stats_Tasks\<close>
    (scores of counts, feature counters, anomaly detection, record merging) keep it; \<open>Task_Nodes\<close> and this theory
    carry it through a node to the result a program observes.
  \<^item> \<open>Sip_Merge\<close>, \<open>Sip_Dedup\<close> (\<open>sip_base_merge_task.cc\<close>, \<open>sip_base_merge_dedup_task.cc\<close>), \<open>Attacker_Merge\<close>
    (\<open>attacker_ip_merge_task.cc\<close>), \<open>Dms_Rules\<close> (\<open>dms_rules_task.cc\<close>, \<open>dms_rules_dedup_task.cc\<close>): from packets and
    counts to blocks of attackers, records and rules. Grouping implements the view of packets as sets per block; the
    four merging programs take exactly the addresses their blocks cover out of the counts; rules drop
    addresses of attacker blocks only.
  \<^item> \<open>Packet_Parse\<close> (\<open>rb_data_parse_task.cc\<close>, \<open>pcap_parse_task.cc\<close>), \<open>Rb_Rows\<close>
    (\<open>common/rb_data_parse.cc\<close>): buffers of bytes and back. The loop over packets is proved once, in the locale
    \<open>frame_reader\<close>, which both parsers interpret; encoders of frames and slots give the round trips.
  \<^item> \<open>Onnx\<close> (\<open>tasks/onnx\<close>), \<open>Packet_Bytes\<close> (\<open>common/rb_data_mfr.cc\<close>), \<open>Onnx_Results\<close>
    (\<open>samples/dni/tasks/onnx\<close>): models with fixed and dynamic shapes, packets as hexadecimal text and pictures, labels from
    the output. The runtime is a parameter (\<open>open_session\<close>, \<open>create\<close>, \<open>run\<close>).
  \<^item> \<open>Slot_Queue\<close>, \<open>Detect_Server\<close> (\<open>realtime_with_sccm_with_grpc/server/dni_server.cc\<close>,
    \<open>common/snding_mfr_model.cc\<close>): the ring buffer, the queue between the threads (the locale \<open>slot_queue\<close>, and
    \<open>spsc_step\<close> for the interleaving of its loads and stores), and what a calculating thread answers a slot with.
  \<^item> \<open>Net_Cards\<close> (\<open>realtime_with_sccm/all_net_ip.cc\<close>, \<open>all_net_detect_defense_with_sccm.cc\<close>): the addresses of all cards,
    and the routing of slots to the graphs of their card.

  \<^bold>\<open>Bounds.\<close> Counters of type \<open>int\<close> are exact for fewer than \<open>2^31\<close> packets and sums of counts below \<open>2^31\<close>, which is a
  hypothesis where it matters; a slot has at most 10000 packets (\<open>process_abnormal\<close>), far below. Batch sizes are
  below \<open>2^31 / 5\<close>. Ring buffers have at most \<open>2^32\<close> bytes, the width of their indices; the program uses 100 slots of
  20 MB. At most two VLAN headers are skipped, as in the loop of the code. The endless loops of the servers are
  functions of the list of what happens (\<open>calc_graph\<close>, \<open>ring_run\<close>, \<open>all_net_run\<close>): the list is their fuel, and the
  properties hold for every list. All other loops are total functions: structural, or with a measure.

  \<^bold>\<open>Not modelled.\<close> The text format parser of protobuf and its generated classes (the parsed messages are records); the
  executor of taskflow and \<open>Cancel\<close> (a run calls the nodes in an order that is an argument); logging and the
  formatters that print data; the capture library, the ONNX runtime, gRPC and InfluxDB (parameters, or left out where
  the code only forwards to them); \<open>framework/subgraph.h\<close>, which is empty; the main functions of the samples, and the earlier
  programs in \<open>samples/ddos\<close>, which repeat the functions modelled here; the services in Go and the
  scripts in Python.
\<close>

section \<open>A threshold node in a graph\<close>

text \<open>What the marshalled inputs of a one-input node hold.\<close>

lemma Marshal_one:
  assumes "node_fresh nd w ctx t" "ish_managers (node_ish w nd) = [Some a]"
    and "net_inbox (w_net w) a = [d]" "ism_bound (net_ism (w_net w) a) \<noteq> kCtimeMax" "Option.bind (d_val d) cast = Some x"
  shows "\<exists>ci net1. Marshal (node_ish w nd) (ctx_inputs ctx, w_net w) = Inr (ci, net1) \<and> input_at cast ci 0 = Inr (Some x)"
proof -
  have f: "fits (ish_managers (node_ish w nd)) (ctx_inputs ctx)" "distinct (ish_managers (node_ish w nd))"
    "\<forall>s\<in>set (c_data (ctx_inputs ctx)). \<not> is_done s" "\<forall>s\<in>set (c_data (ctx_inputs ctx)). is_queue s = []"
    using assms(1) by (auto simp: node_fresh_def)
  have len: "length (c_data (ctx_inputs ctx)) = 1" using f(1) assms(2) by (simp add: fits_def)
  obtain ci net1 where m: "Marshal (node_ish w nd) (ctx_inputs ctx, w_net w) = Inr (ci, net1)" "length (c_data ci) = 1"
    "is_queue (c_data ci ! 0) = is_queue (c_data (ctx_inputs ctx) ! 0) @ [At (ts_wrap (ism_NextTimestampOrBound (net_ism (w_net w) a) - 1)) d]"
    using Marshal_slot [OF f(1-3), of "w_net w"] len assms(2-4) by (auto simp: net_inbox_def Let_def)
  then have "input_at cast ci 0 = Inr (Some x)"
    using f(4) len assms(5) by (auto simp: input_at_def c_at_def is_Value_def Consume_def bind_eq_Some_conv)
  then show ?thesis using m(1) by blast
qed

text \<open>C7: a statistic queued at the input of a node that runs the threshold task is turned into the
  result of the observed stream by one run of the node: whenever an observer with an empty queue
  mirrors the node's first output, \<open>GetResult\<close> for its name returns the score of the greatest
  threshold the statistic reaches.\<close>

theorem threshold_result_observed:
  assumes "i < length (g_nodes g)" "node_fresh (g_nodes g ! i) (g_world g) ctx t"
    and "tk_process tc = task_of (\<lambda>t. ThresholdTask_Process t junk)" "can_emit junk ctx" "ts_ok (tt_tsmap t)"
    and "ish_managers (node_ish (g_world g) (g_nodes g ! i)) = [Some a]" "net_inbox (w_net (g_world g)) a = [d]"
    and "d_val d = Some (VDouble x)" "ism_bound (net_ism (w_net (g_world g)) a) \<noteq> kCtimeMax"
    and "observes g name b" "b \<noteq> a" "net_inbox (w_net (g_world g)) b = []"
    and "m \<in> set (osm_mirrors (net_osm (w_net (g_world g)) (the (osh_managers (nd_osh (g_nodes g ! i)) ! 0))))"
    and "net_target (w_net (g_world g)) m = Some b"
  shows "\<exists>g' g''. Graph_RunOnce tc [i] g = Inr g' \<and>
    GetResult as_double dflt name g' = Inr (best_score (tt_tsmap t) (tt_default t) x, g'')"
proof -
  have "Option.bind (d_val d) as_double = Some x" using assms(8) by (simp add: as_double_def)
  from Marshal_one [OF assms(2,6,7,9) this]
  obtain ci net1 where m: "Marshal (node_ish (g_world g) (g_nodes g ! i)) (ctx_inputs ctx, w_net (g_world g)) = Inr (ci, net1)"
    and "input_at as_double ci 0 = Inr (Some x)" by (elim exE conjE) (rule that)
  then have v: "ThresholdTask_verdict t ci = Inr (Some (VDouble (best_score (tt_tsmap t) (tt_default t) x)))"
    by (simp only: ThresholdTask_verdict_def need_simps)
  have b: "Some b \<notin> set (ish_managers (node_ish (g_world g) (g_nodes g ! i)))" unfolding assms(6) using assms(11) by simp
  show ?thesis
    by (rule threshold.run_observed [OF assms(1-4) m assms(5) v _ assms(10) b assms(12-14)]) (simp add: as_double_def)
qed

definition th_demo :: threshold_task where
  "th_demo = \<lparr>tt_tsmap = [(Fin 1, Fin 10), (Fin 4, Fin 20)], tt_default = Fin 0\<rparr>"

definition th_node :: "(threshold_task, val) node" where
  "th_node = \<lparr>nd_id = 0, nd_info = demo_info, nd_status = kStateOpened, nd_task = Some th_demo,
     nd_ctx = Some (TaskContext demo_tags demo_tags), nd_osh = \<lparr>osh_managers = [Some 0]\<rparr>, nd_osd = [],
     nd_input_stream_ready = False, nd_input_side_data_ready = False\<rparr>"

definition th_graph :: "(threshold_task, val) graph" where
  "th_graph = Graph0\<lparr>g_nodes := [th_node], g_outputs := [\<lparr>gos_ish = Some (Output_ISH 0), gos_ism = Some 1\<rparr>],
     g_world := \<lparr>w_net = \<lparr>net_ism = (\<lambda>a. if a = 0 then ism_AddData [Datum_ts (VDouble (Fin 5)) 5] ISM0 else ISM0\<lparr>ism_name := ''z''\<rparr>),
       net_ish = (\<lambda>r. \<lparr>ish_managers = [Some (case r of Node_ISH n \<Rightarrow> 0 | Output_ISH n \<Rightarrow> 1)], ss_ids = [], ss_last_processed = 0\<rparr>),
       net_osm = (\<lambda>_. \<lparr>osm_name = ''x'', osm_mirrors = [(Output_ISH 0, 0)]\<rparr>)\<rparr>,
     w_side = (\<lambda>_. \<lparr>isd_data = Some []\<rparr>), w_osd = (\<lambda>_. osd0)\<rparr>\<rparr>"

definition th_code :: "(threshold_task, val) task_code" where
  "th_code = (let f = task_of (\<lambda>t. ThresholdTask_Process t 1) in
     \<lparr>tk_new = (\<lambda>_. Some th_demo), tk_open = f, tk_process = f, tk_close = f\<rparr>)"

theorem threshold_result_observed_witness:
  "\<exists>g' g''. Graph_RunOnce th_code [0] th_graph = Inr g' \<and> GetResult as_double (Fin 0) ''z'' g' = Inr (Fin 20, g'')"
proof -
  let ?ctx = "TaskContext demo_tags demo_tags :: val task_context"
  have th: "ts_ok (tt_tsmap th_demo)" "best_score (tt_tsmap th_demo) (tt_default th_demo) (Fin 5) = Fin 20" by code_simp+
  have fresh: "node_fresh (g_nodes th_graph ! 0) (g_world th_graph) ?ctx th_demo"
    by (simp add: node_fresh_def th_graph_def th_node_def TaskContext_def Collection_def demo_tags_def c_size_def NStreams_def
        InputStream0_def OutputStream0_def fits_def NextTimestamp_def ts_defs mirrors_ok_def net_target_def ptr_at_def)
  have emit: "can_emit 1 ?ctx"
    by (simp add: can_emit_def TaskContext_def Collection_def demo_tags_def NStreams_def OutputStream0_def ts_defs)
  have obs: "observes th_graph ''z'' 1" unfolding observes_def
    by (rule exI [of _ "[]"]) (simp add: th_graph_def stream_names_def)
  have "tk_process th_code = task_of (\<lambda>t. ThresholdTask_Process t 1)" by (simp add: th_code_def Let_def)
  moreover have "ish_managers (node_ish (g_world th_graph) (g_nodes th_graph ! 0)) = [Some 0]"
    "net_inbox (w_net (g_world th_graph)) 0 = [Datum_ts (VDouble (Fin 5)) 5]"
    "ism_bound (net_ism (w_net (g_world th_graph)) 0) \<noteq> kCtimeMax" "net_inbox (w_net (g_world th_graph)) 1 = []"
    "(Output_ISH 0, 0) \<in> set (osm_mirrors (net_osm (w_net (g_world th_graph)) (the (osh_managers (nd_osh (g_nodes th_graph ! 0)) ! 0))))"
    "net_target (w_net (g_world th_graph)) (Output_ISH 0, 0) = Some 1"
    by (simp_all add: th_graph_def th_node_def net_inbox_def ism_AddData_def ism_push_def ISM0_def net_target_def
        ptr_at_def ts_defs ts_wrap_def Datum_ts_def Timestamp_def)
  ultimately show ?thesis
    using threshold_result_observed [OF _ fresh _ emit th(1) _ _ _ _ obs, of th_code 0 "Datum_ts (VDouble (Fin 5)) 5" "Fin 5"
        "(Output_ISH 0, 0)" "Fin 0"]
    by (simp add: th(2) th_graph_def Datum_ts_def)
qed

section \<open>From packets to defence rules\<close>

text \<open>The record of a packet of a block becomes a rule against that block.\<close>

lemma dedup_record_rule:
  assumes "group_of ips p = Some k" "\<forall>c\<in>set ips. wf_cidr c \<and> 1 \<le> cidr_len c" "unat (fld p ''Protocol'') \<le> 2147483647"
  shows "\<exists>c r. c \<in> set ips \<and> fld p ''SIP'' \<in> cidr_set c \<and> generate_dms_rule (rule_stat k st p) nd = Inr r \<and> dr_srcIP r = c \<and>
    dr_dstIP r = CIDR (fld p ''DIP'') 32 \<and> dr_protocol r = int (unat (fld p ''Protocol'')) \<and> dr_action r = ''drop'' \<and>
    dr_hostNicSign r = st_hostNicSign st"
proof -
  obtain c where c: "find (\<lambda>c. belongs c (fld p ''SIP'')) ips = Some c" "cidr_string c = k"
    using assms(1) by (auto simp: group_of_def)
  then have mem: "c \<in> set ips" "belongs c (fld p ''SIP'')" by (auto simp: find_Some_iff)
  have wf: "wf_cidr c" "1 \<le> cidr_len c" using assms(2) mem(1) by auto
  have cs: "fld p ''SIP'' \<in> cidr_set c" using belongs_iff [OF wf] mem(2) by simp
  have len: "0 \<le> cidr_len c" "cidr_len c \<le> 32" using wf by (auto simp: wf_cidr_def)
  have f: "sfld (rule_stat k st p) ''SIP'' = cidr_string c" "sfld (rule_stat k st p) ''DIP'' = to_string (int (unat (fld p ''DIP'')))"
    "sfld (rule_stat k st p) ''Protocol'' = to_string (int (unat (fld p ''Protocol'')))"
    "sfld (rule_stat k st p) ''hostNicSign'' = st_hostNicSign st"
    by (simp_all add: sfld_def rule_stat_def c(2))
  have "0 \<le> int (unat (fld p ''Protocol''))" "int (unat (fld p ''Protocol'')) \<le> 2147483647" using assms(3) by linarith+
  from parsed_record_rule [OF f(1) len f(2,3) this, of nd]
  obtain r where r: "generate_dms_rule (rule_stat k st p) nd = Inr r" "dr_srcIP r = c" "dr_dstIP r = CIDR (fld p ''DIP'') 32"
    "dr_protocol r = int (unat (fld p ''Protocol''))" "dr_action r = ''drop''" "dr_hostNicSign r = sfld (rule_stat k st p) ''hostNicSign''"
    by (elim exE conjE)
  show ?thesis using mem(1) cs r f(4) by (intro exI [of _ c] exI [of _ r] conjI) simp_all
qed

text \<open>C13: the two tasks together: every record of strings the merge with duplicates removed emits, unless it
  stands for random sources, is turned by the rule generator into a rule that drops the packets of one
  attacker block, and the block, the destination, the protocol and the network card of the rule are
  those of an input packet whose source address lies in the block. No rule names an address
  outside the attacker blocks.\<close>

theorem dedup_rules_target_attackers:
  assumes "SndSIPBaseMergeDeDupTask_Open opts = 0" "rows_ok rows" "distinct (ar_randomIPs a)"
    and "\<forall>c\<in>set (ar_attackerIPs a). wf_cidr c \<and> 1 \<le> cidr_len c" "\<forall>row\<in>set rows. row ! 3 \<le> 255"
  shows "\<exists>m rules. dedup_results opts rows a nic = Inr (m, rules) \<and>
    (\<forall>rec\<in>snd ` set rules. sfld rec ''SIP'' \<noteq> ''RANDOM'' \<longrightarrow>
      (\<exists>row\<in>set rows. \<exists>c\<in>set (ar_attackerIPs a). \<exists>r. row ! 0 \<in> cidr_set c \<and> generate_dms_rule rec nd = Inr r \<and> dr_srcIP r = c \<and>
        dr_dstIP r = CIDR (row ! 5) 32 \<and> dr_protocol r = int (unat (row ! 3)) \<and> dr_action r = ''drop'' \<and> dr_hostNicSign r = nic))"
proof -
  let ?ps = "map row_packet rows" and ?ips = "ar_attackerIPs a"
  have len: "\<forall>c\<in>set ?ips. 0 \<le> cidr_len c" using assms(4) by auto
  obtain m rules where r: "dedup_results opts rows a nic = Inr (m, rules)"
    "\<forall>(k, st)\<in>set m. dedup_stat_ok opts nic k (group_packets ?ps a k) st" "snd ` set rules = group_records ?ips ?ps m"
    using dedup_results_ok [OF assms(1-3) len, of nic] by (elim exE conjE) (rule that)
  have "\<exists>row\<in>set rows. \<exists>c\<in>set ?ips. \<exists>r. row ! 0 \<in> cidr_set c \<and> generate_dms_rule rec nd = Inr r \<and> dr_srcIP r = c \<and>
        dr_dstIP r = CIDR (row ! 5) 32 \<and> dr_protocol r = int (unat (row ! 3)) \<and> dr_action r = ''drop'' \<and> dr_hostNicSign r = nic"
    if rec: "rec \<in> snd ` set rules" "sfld rec ''SIP'' \<noteq> ''RANDOM''" for rec
  proof -
    obtain k st p where p: "rec = rule_stat k st p" "(k, st) \<in> set m" "p \<in> set ?ps" "dedup_group ?ips p = k"
      using rec(1) unfolding r(3) group_records_def mem_Collect_eq by (elim exE conjE)
    obtain row where row: "row \<in> set rows" "p = row_packet row" using p(3) by auto
    have f: "fld p ''SIP'' = row ! 0" "fld p ''DIP'' = row ! 5" "fld p ''Protocol'' = row ! 3" by (simp_all add: row(2) fld_def row_packet_def)
    have "k \<noteq> ''RANDOM''" using rec(2) by (simp add: p(1) sfld_def rule_stat_def)
    then have g: "group_of ?ips p = Some k" using p(4) by (simp add: dedup_group_def split: option.splits)
    have "row ! 3 \<le> 255" using assms(5) row(1) by (rule bspec)
    then have "unat (fld p ''Protocol'') \<le> unat (255 :: u32)" unfolding f(3) word_le_nat_alt .
    then have "unat (fld p ''Protocol'') \<le> 2147483647" by simp
    from dedup_record_rule [OF g assms(4) this, of st nd]
    obtain c r where c: "c \<in> set ?ips" "row ! 0 \<in> cidr_set c" "generate_dms_rule rec nd = Inr r" "dr_srcIP r = c"
      "dr_dstIP r = CIDR (row ! 5) 32" "dr_protocol r = int (unat (row ! 3))" "dr_action r = ''drop''" "dr_hostNicSign r = st_hostNicSign st"
      unfolding f p(1) [symmetric] by (elim exE conjE)
    have "st_hostNicSign st = nic" using r(2) p(2) by (force simp: dedup_stat_ok_def)
    then show ?thesis using c(3-8) by (intro bexI [OF _ row(1)] bexI [OF _ c(1)] exI [of _ r] conjI c(2)) simp_all
  qed
  then show ?thesis using r(1) by blast
qed

theorem dedup_rules_target_attackers_witness:
  "\<exists>m rules rec r. dedup_results dedup_demo [[8, 80, 443, 6, 64, 5]] \<lparr>ar_attackerIPs = [CIDR 8 31], ar_containRandomAttack = False, ar_randomIPs = []\<rparr>
      ''eth0'' = Inr (m, rules) \<and> rec \<in> snd ` set rules \<and> generate_dms_rule rec [] = Inr r \<and> dr_srcIP r = CIDR 8 31 \<and> dr_dstIP r = CIDR 5 32"
proof -
  let ?a = "\<lparr>ar_attackerIPs = [CIDR 8 31], ar_containRandomAttack = False, ar_randomIPs = []\<rparr>"
  let ?rows = "[[8, 80, 443, 6, 64, 5]] :: u32 list list"
  have o: "SndSIPBaseMergeDeDupTask_Open dedup_demo = 0" "wf_cidr (CIDR 8 31)" by code_simp+
  have ev: "map (\<lambda>e. sfld (snd e) ''SIP'') (snd (projr (dedup_results dedup_demo ?rows ?a ''eth0''))) = [''8/31'']" by code_simp
  obtain m rules where r: "dedup_results dedup_demo ?rows ?a ''eth0'' = Inr (m, rules)"
    "\<forall>rec\<in>snd ` set rules. sfld rec ''SIP'' \<noteq> ''RANDOM'' \<longrightarrow>
      (\<exists>row\<in>set ?rows. \<exists>c\<in>set (ar_attackerIPs ?a). \<exists>r. row ! 0 \<in> cidr_set c \<and> generate_dms_rule rec [] = Inr r \<and> dr_srcIP r = c \<and>
        dr_dstIP r = CIDR (row ! 5) 32 \<and> dr_protocol r = int (unat (row ! 3)) \<and> dr_action r = ''drop'' \<and> dr_hostNicSign r = ''eth0'')"
    using dedup_rules_target_attackers [OF o(1), of ?rows ?a "''eth0''" "[]"] o(2) by (auto simp: rows_ok_def simp del: bex_simps ball_simps)
  obtain e where e: "rules = [e]" "sfld (snd e) ''SIP'' = ''8/31''" using ev by (auto simp: r(1))
  then have "snd e \<in> snd ` set rules" "sfld (snd e) ''SIP'' \<noteq> ''RANDOM''" by simp_all
  from bspec [OF r(2) this(1)] this(2)
  obtain r' where "generate_dms_rule (snd e) [] = Inr r'" "dr_srcIP r' = CIDR 8 31" "dr_dstIP r' = CIDR 5 32" by auto
  then show ?thesis using r(1) e(1) by (intro exI [of _ m] exI [of _ rules] exI [of _ "snd e"] exI [of _ r']) simp
qed

end
